theory Spec2Isabelle
  imports Main "HOL-Library.Word" "HOL-Library.Product_Lexorder" "HOL-Library.Monad_Syntax"
    "HOL-Library.Multiset"
begin

section \<open>The cmap sanitiser of gfx/ots/src/cmap.cc\<close>

text \<open>
  Integers of the source are modelled as \<open>nat\<close> (and \<open>int\<close> for the signed
  \<open>id_delta\<close>); every place where the C++ arithmetic truncates to a fixed width is
  written out with \<open>mod\<close>.  Bytes of the input and of the output are \<open>8 word\<close>.
  A pointer into the input together with a length is the list of the bytes it denotes.
\<close>

type_synonym byte = "8 word"

subsection \<open>Big-endian values\<close>

definition be16 :: "byte list \<Rightarrow> nat \<Rightarrow> nat" where
  "be16 d p = unat (d ! p) * 256 + unat (d ! (p + 1))"

definition be24 :: "byte list \<Rightarrow> nat \<Rightarrow> nat" where
  "be24 d p = unat (d ! p) * 65536 + unat (d ! (p + 1)) * 256 + unat (d ! (p + 2))"

definition be32 :: "byte list \<Rightarrow> nat \<Rightarrow> nat" where
  "be32 d p = unat (d ! p) * 16777216 + unat (d ! (p + 1)) * 65536
     + unat (d ! (p + 2)) * 256 + unat (d ! (p + 3))"

definition u16_bytes :: "nat \<Rightarrow> byte list" where
  "u16_bytes v = [of_nat (v div 256 mod 256), of_nat (v mod 256)]"

definition u32_bytes :: "nat \<Rightarrow> byte list" where
  "u32_bytes v = [of_nat (v div 16777216 mod 256), of_nat (v div 65536 mod 256),
     of_nat (v div 256 mod 256), of_nat (v mod 256)]"

subsection \<open>The bounded byte reader\<close>

text \<open>
  Modelled from the spec: the class \<open>ots::Buffer\<close> is declared outside cmap.cc.  The
  spec (section 2) describes it as sequential big-endian reads of unsigned 8/16/24/32 and
  signed 16 bit integers, a cursor query, an absolute seek and a skip, where every read
  fails cleanly when it would exceed the backing slice.  A failed read is \<open>None\<close>.
\<close>

record Buffer =
  buffer :: "byte list"
  offset :: nat

definition new_Buffer :: "byte list \<Rightarrow> Buffer" where
  "new_Buffer d = \<lparr>buffer = d, offset = 0\<rparr>"

definition Skip :: "nat \<Rightarrow> Buffer \<Rightarrow> Buffer option" where
  "Skip n b = (if offset b + n > length (buffer b) then None
               else Some (b\<lparr>offset := offset b + n\<rparr>))"

definition set_offset :: "nat \<Rightarrow> Buffer \<Rightarrow> Buffer" where
  "set_offset p b = b\<lparr>offset := p\<rparr>"

definition ReadU8 :: "Buffer \<Rightarrow> (nat \<times> Buffer) option" where
  "ReadU8 b = (if offset b + 1 > length (buffer b) then None
               else Some (unat (buffer b ! offset b), b\<lparr>offset := offset b + 1\<rparr>))"

definition ReadU16 :: "Buffer \<Rightarrow> (nat \<times> Buffer) option" where
  "ReadU16 b = (if offset b + 2 > length (buffer b) then None
                else Some (be16 (buffer b) (offset b), b\<lparr>offset := offset b + 2\<rparr>))"

definition ReadS16 :: "Buffer \<Rightarrow> (int \<times> Buffer) option" where
  "ReadS16 b = (if offset b + 2 > length (buffer b) then None
                else Some (let v = be16 (buffer b) (offset b)
                           in (if v < 32768 then int v else int v - 65536),
                           b\<lparr>offset := offset b + 2\<rparr>))"

definition ReadU24 :: "Buffer \<Rightarrow> (nat \<times> Buffer) option" where
  "ReadU24 b = (if offset b + 3 > length (buffer b) then None
                else Some (be24 (buffer b) (offset b), b\<lparr>offset := offset b + 3\<rparr>))"

definition ReadU32 :: "Buffer \<Rightarrow> (nat \<times> Buffer) option" where
  "ReadU32 b = (if offset b + 4 > length (buffer b) then None
                else Some (be32 (buffer b) (offset b), b\<lparr>offset := offset b + 4\<rparr>))"

subsection \<open>The font file object\<close>

text \<open>
  The structs \<open>OpenTypeCMAPSubtableRange\<close>, \<open>OpenTypeCMAP\<close>, \<open>OpenTypeMAXP\<close>,
  \<open>OpenTypeOS2\<close> and \<open>OpenTypeFile\<close> are declared in headers; only the fields that
  cmap.cc uses are kept.  A data pointer with its length field is an optional byte list:
  \<open>None\<close> is the null pointer of a fresh \<open>OpenTypeCMAP\<close>.
\<close>

record OpenTypeCMAPSubtableRange =
  start_range :: nat
  end_range :: nat
  start_glyph_id :: nat

record OpenTypeCMAP =
  subtable_0_5_14 :: "byte list option"
  subtable_3_0_4 :: "byte list option"
  subtable_3_1_4 :: "byte list option"
  subtable_3_10_12 :: "OpenTypeCMAPSubtableRange list"
  subtable_3_10_13 :: "OpenTypeCMAPSubtableRange list"
  subtable_1_0_0 :: "byte list"

record OpenTypeMAXP =
  maxp_num_glyphs :: "16 word"

record OpenTypeOS2 =
  first_char_index :: "16 word"
  last_char_index :: "16 word"

record OpenTypeFile =
  cmap :: "OpenTypeCMAP option"
  maxp :: "OpenTypeMAXP option"
  os2 :: "OpenTypeOS2 option"

definition new_OpenTypeCMAP :: OpenTypeCMAP where
  "new_OpenTypeCMAP = \<lparr>subtable_0_5_14 = None, subtable_3_0_4 = None, subtable_3_1_4 = None,
     subtable_3_10_12 = [], subtable_3_10_13 = [], subtable_1_0_0 = []\<rparr>"

text \<open>\<open>file->cmap->field = v\<close>; the parsers run only after \<open>file->cmap\<close> was allocated.\<close>

definition upd_cmap :: "(OpenTypeCMAP \<Rightarrow> OpenTypeCMAP) \<Rightarrow> OpenTypeFile \<Rightarrow> OpenTypeFile" where
  "upd_cmap f file = file\<lparr>cmap := map_option f (cmap file)\<rparr>"

definition the_cmap :: "OpenTypeFile \<Rightarrow> OpenTypeCMAP" where
  "the_cmap file = (case cmap file of Some c \<Rightarrow> c | None \<Rightarrow> new_OpenTypeCMAP)"

record CMAPSubtableHeader =
  platform :: nat
  encoding :: nat
  hoffset :: nat
  format :: nat
  hlength :: nat

text \<open>The fields \<open>start_range\<close> and \<open>end_range\<close> of \<open>Subtable314Range\<close> are named
  \<open>start_code\<close> and \<open>end_code\<close> here: the names are taken by the record above.\<close>

record Subtable314Range =
  start_code :: nat
  end_code :: nat
  id_delta :: int
  id_range_offset :: nat
  id_range_offset_offset :: nat

text \<open>\<open>if (c) return OTS_FAILURE();\<close> inside a sequence of fallible steps.\<close>

definition failure_if :: "bool \<Rightarrow> unit option" where
  "failure_if c = (if c then None else Some ())"

definition slice :: "byte list \<Rightarrow> nat \<Rightarrow> nat \<Rightarrow> byte list" where
  "slice d off len = take len (drop off d)"

definition kMaxCMAPGroups :: nat where "kMaxCMAPGroups = 0xFFFF"
definition kFormat0ArraySize :: nat where "kFormat0ArraySize = 256"
definition kUnicodeUpperLimit :: nat where "kUnicodeUpperLimit = 0x10FFFF"

subsection \<open>Parse3x4\<close>

text \<open>The loop \<open>while (1u << (log2segcount + 1) <= segcount) log2segcount++\<close>.
  \<open>segcount\<close> is below \<open>2 ^ 15\<close>, so the 32-bit shift never overflows.\<close>

function log2segcount_loop :: "nat \<Rightarrow> nat \<Rightarrow> nat" where
  "log2segcount_loop log2segcount segcount =
     (if 2 ^ (log2segcount + 1) \<le> segcount
      then log2segcount_loop (log2segcount + 1) segcount else log2segcount)"
  by pat_completeness auto
termination
proof (relation "measure (\<lambda>(k, s). s - 2 ^ k)")
  show "wf (measure (\<lambda>(k::nat, s::nat). s - 2 ^ k))" by simp
next
  fix k s :: nat
  assume le: "2 ^ (k + 1) \<le> s"
  have gap: "0 < a \<Longrightarrow> 2 * a \<le> s \<Longrightarrow> s - 2 * a < s - a" for a :: nat
    by arith
  have "s - 2 * 2 ^ k < s - 2 ^ k"
    using le by (intro gap) simp_all
  then show "((k + 1, s), (k, s)) \<in> measure (\<lambda>(k, s). s - 2 ^ k)"
    by simp
qed

declare log2segcount_loop.simps [simp del]

text \<open>Lines 79 to 106: the checks on the four header fields, \<open>True\<close> when none fails.\<close>

definition Parse3x4_header :: "nat \<Rightarrow> nat \<Rightarrow> nat \<Rightarrow> nat \<Rightarrow> bool" where
  "Parse3x4_header segcountx2 search_range entry_selector range_shift =
     (if odd segcountx2 \<or> odd search_range then False
      else let segcount = segcountx2 div 2 in
        if segcount < 1 then False
        else let log2segcount = log2segcount_loop 0 segcount;
                 expected_search_range = (2 * 1 * 2 ^ log2segcount) mod 65536 in
          if expected_search_range \<noteq> search_range then False
          else if entry_selector \<noteq> log2segcount then False
          else let expected_range_shift = (65536 + segcountx2 - search_range) mod 65536 in
            if range_shift \<noteq> expected_range_shift then False
            else True)"

text \<open>The spec's wording of the exponent: the largest integer \<open>k\<close> with
  \<open>2 ^ (k + 1) \<le> segCount\<close>.  As powers of two increase, \<open>k\<close> is the largest one exactly
  when the next exponent is already too large.\<close>

definition spec_largest_k :: "nat \<Rightarrow> nat \<Rightarrow> bool" where
  "spec_largest_k k segcount = (2 ^ (k + 1) \<le> segcount \<and> \<not> 2 ^ (k + 2) \<le> segcount)"

text \<open>The four loops that fill \<open>ranges\<close> (lines 110 to 153).\<close>

function read_end_range :: "nat \<Rightarrow> nat \<Rightarrow> Buffer \<Rightarrow> Subtable314Range list
    \<Rightarrow> (Subtable314Range list \<times> Buffer) option" where
  "read_end_range i segcount subtable ranges =
     (if i < segcount then
        (case ReadU16 subtable of None \<Rightarrow> None
         | Some (v, subtable') \<Rightarrow>
             read_end_range (i + 1) segcount subtable' (ranges[i := (ranges ! i)\<lparr>end_code := v\<rparr>]))
      else Some (ranges, subtable))"
  by pat_completeness auto
termination
  by (relation "measure (\<lambda>(i, n, b, r). n - i)") auto

declare read_end_range.simps [simp del]

function read_start_range :: "nat \<Rightarrow> nat \<Rightarrow> Buffer \<Rightarrow> Subtable314Range list
    \<Rightarrow> (Subtable314Range list \<times> Buffer) option" where
  "read_start_range i segcount subtable ranges =
     (if i < segcount then
        (case ReadU16 subtable of None \<Rightarrow> None
         | Some (v, subtable') \<Rightarrow>
             read_start_range (i + 1) segcount subtable' (ranges[i := (ranges ! i)\<lparr>start_code := v\<rparr>]))
      else Some (ranges, subtable))"
  by pat_completeness auto
termination
  by (relation "measure (\<lambda>(i, n, b, r). n - i)") auto

declare read_start_range.simps [simp del]

function read_id_delta :: "nat \<Rightarrow> nat \<Rightarrow> Buffer \<Rightarrow> Subtable314Range list
    \<Rightarrow> (Subtable314Range list \<times> Buffer) option" where
  "read_id_delta i segcount subtable ranges =
     (if i < segcount then
        (case ReadS16 subtable of None \<Rightarrow> None
         | Some (v, subtable') \<Rightarrow>
             read_id_delta (i + 1) segcount subtable' (ranges[i := (ranges ! i)\<lparr>id_delta := v\<rparr>]))
      else Some (ranges, subtable))"
  by pat_completeness auto
termination
  by (relation "measure (\<lambda>(i, n, b, r). n - i)") auto

declare read_id_delta.simps [simp del]

function read_id_range_offset :: "nat \<Rightarrow> nat \<Rightarrow> Buffer \<Rightarrow> Subtable314Range list
    \<Rightarrow> (Subtable314Range list \<times> Buffer) option" where
  "read_id_range_offset i segcount subtable ranges =
     (if i < segcount then
        (let ranges1 = ranges[i := (ranges ! i)\<lparr>id_range_offset_offset := offset subtable\<rparr>] in
         case ReadU16 subtable of None \<Rightarrow> None
         | Some (v, subtable') \<Rightarrow>
             (let ranges2 = ranges1[i := (ranges1 ! i)\<lparr>id_range_offset := v\<rparr>] in
              if odd v then
                (if i = segcount - 1
                 then read_id_range_offset (i + 1) segcount subtable'
                        (ranges2[i := (ranges2 ! i)\<lparr>id_range_offset := 0\<rparr>])
                 else None)
              else read_id_range_offset (i + 1) segcount subtable' ranges2))
      else Some (ranges, subtable))"
  by pat_completeness auto
termination
  by (relation "measure (\<lambda>(i, n, b, r). n - i)") auto

declare read_id_range_offset.simps [simp del]

text \<open>Lines 157 to 190: ascending order of the segments, and the repair of the
  \<open>OS/2\<close> character indices.  The \<open>OS/2\<close> record is returned as the loop left it,
  also when the loop fails.\<close>

function check_ranges :: "nat \<Rightarrow> nat \<Rightarrow> Subtable314Range list \<Rightarrow> OpenTypeOS2
    \<Rightarrow> bool \<times> OpenTypeOS2" where
  "check_ranges i segcount ranges o2 =
     (if i < segcount then
        (if i = segcount - 1 \<and>
            start_code (ranges ! (i - 1)) = 0xffff \<and>
            end_code (ranges ! (i - 1)) = 0xffff \<and>
            start_code (ranges ! i) = 0xffff \<and>
            end_code (ranges ! i) = 0xffff
         then check_ranges (i + 1) segcount ranges o2
         else if end_code (ranges ! i) \<le> end_code (ranges ! (i - 1)) then (False, o2)
         else if start_code (ranges ! i) \<le> end_code (ranges ! (i - 1)) then (False, o2)
         else
           (let o2a = (if unat (first_char_index o2) \<noteq> 0xFFFF \<and>
                          start_code (ranges ! i) \<noteq> 0xFFFF \<and>
                          unat (first_char_index o2) > start_code (ranges ! i)
                       then o2\<lparr>first_char_index := of_nat (start_code (ranges ! i))\<rparr>
                       else o2);
                o2b = (if unat (last_char_index o2a) \<noteq> 0xFFFF \<and>
                          end_code (ranges ! i) \<noteq> 0xFFFF \<and>
                          unat (last_char_index o2a) < end_code (ranges ! i)
                       then o2a\<lparr>last_char_index := of_nat (end_code (ranges ! i))\<rparr>
                       else o2a)
            in check_ranges (i + 1) segcount ranges o2b))
      else (True, o2))"
  by pat_completeness auto
termination
  by (relation "measure (\<lambda>(i, n, r, o2). n - i)") auto

declare check_ranges.simps [simp del]

text \<open>Lines 201 to 227: the lookup of every code point of one segment.\<close>

function simulate_segment :: "nat \<Rightarrow> Subtable314Range \<Rightarrow> byte list \<Rightarrow> nat \<Rightarrow> bool" where
  "simulate_segment cp r data num_glyphs =
     (if cp \<le> end_code r then
        (let code_point = cp mod 65536 in
         if id_range_offset r = 0 then
           (let glyph = nat ((int code_point + id_delta r) mod 65536) in
            if glyph \<ge> num_glyphs then False
            else simulate_segment (cp + 1) r data num_glyphs)
         else
           (let range_delta = (65536 + code_point - start_code r) mod 65536;
                glyph_id_offset =
                  (id_range_offset_offset r + id_range_offset r + range_delta * 2) mod 2 ^ 32 in
            if (glyph_id_offset + 1) mod 2 ^ 32 \<ge> length data then False
            else
              (let glyph = be16 data glyph_id_offset in
               if glyph \<ge> num_glyphs then False
               else simulate_segment (cp + 1) r data num_glyphs)))
      else True)"
  by pat_completeness auto
termination
  by (relation "measure (\<lambda>(cp, r, d, n). end_code r + 1 - cp)") (simp_all add: Suc_diff_le)

declare simulate_segment.simps [simp del]

text \<open>Lines 200 to 228: the loop over the segments, which starts at index 1.\<close>

function simulate_lookup :: "nat \<Rightarrow> nat \<Rightarrow> Subtable314Range list \<Rightarrow> byte list \<Rightarrow> nat \<Rightarrow> bool" where
  "simulate_lookup i segcount ranges data num_glyphs =
     (if i < segcount then
        (if simulate_segment (start_code (ranges ! i)) (ranges ! i) data num_glyphs
         then simulate_lookup (i + 1) segcount ranges data num_glyphs
         else False)
      else True)"
  by pat_completeness auto
termination
  by (relation "measure (\<lambda>(i, n, r, d, g). n - i)") auto

declare simulate_lookup.simps [simp del]

definition zero_Subtable314Range :: Subtable314Range where
  "zero_Subtable314Range = \<lparr>start_code = 0, end_code = 0, id_delta = 0,
     id_range_offset = 0, id_range_offset_offset = 0\<rparr>"

text \<open>Lines 58 to 153: everything that is read from the subtable, \<open>None\<close> at the first
  failure.  Nothing of the file is changed before line 180.\<close>

definition Parse3x4_read :: "byte list \<Rightarrow> (nat \<times> Subtable314Range list) option" where
  "Parse3x4_read data = do {
     s1 \<leftarrow> Skip 4 (new_Buffer data);
     (language, s2) \<leftarrow> ReadU16 s1;
     _ \<leftarrow> failure_if (language \<noteq> 0);
     (segcountx2, s3) \<leftarrow> ReadU16 s2;
     (search_range, s4) \<leftarrow> ReadU16 s3;
     (entry_selector, s5) \<leftarrow> ReadU16 s4;
     (range_shift, s6) \<leftarrow> ReadU16 s5;
     _ \<leftarrow> failure_if (\<not> Parse3x4_header segcountx2 search_range entry_selector range_shift);
     let segcount = segcountx2 div 2;
     let ranges = replicate segcount zero_Subtable314Range;
     (ranges1, s7) \<leftarrow> read_end_range 0 segcount s6 ranges;
     (padding, s8) \<leftarrow> ReadU16 s7;
     _ \<leftarrow> failure_if (padding \<noteq> 0);
     (ranges2, s9) \<leftarrow> read_start_range 0 segcount s8 ranges1;
     (ranges3, s10) \<leftarrow> read_id_delta 0 segcount s9 ranges2;
     (ranges4, s11) \<leftarrow> read_id_range_offset 0 segcount s10 ranges3;
     Some (segcount, ranges4)
   }"

definition Parse3x4 :: "OpenTypeFile \<Rightarrow> nat \<Rightarrow> byte list \<Rightarrow> nat \<Rightarrow> bool \<times> OpenTypeFile" where
  "Parse3x4 file enc data num_glyphs =
     (case os2 file of None \<Rightarrow> (False, file)
      | Some o2 \<Rightarrow>
     (case Parse3x4_read data of None \<Rightarrow> (False, file)
      | Some (segcount, ranges) \<Rightarrow>
     (case check_ranges 1 segcount ranges o2 of
        (ok, o2') \<Rightarrow>
          (let file1 = file\<lparr>os2 := Some o2'\<rparr> in
           if \<not> ok then (False, file1)
           else if end_code (ranges ! (segcount - 1)) \<noteq> 0xffff then (False, file1)
           else if \<not> simulate_lookup 1 segcount ranges data num_glyphs then (False, file1)
           else if enc = 0 then (True, upd_cmap (\<lambda>c. c\<lparr>subtable_3_0_4 := Some data\<rparr>) file1)
           else if enc = 1 then (True, upd_cmap (\<lambda>c. c\<lparr>subtable_3_1_4 := Some data\<rparr>) file1)
           else (False, file1)))))"

subsection \<open>Parse31012 and Parse31013\<close>

definition zero_OpenTypeCMAPSubtableRange :: OpenTypeCMAPSubtableRange where
  "zero_OpenTypeCMAPSubtableRange = \<lparr>start_range = 0, end_range = 0, start_glyph_id = 0\<rparr>"

text \<open>\<open>std::vector::resize\<close>: the first elements are kept, new ones are zero.\<close>

definition resize :: "nat \<Rightarrow> OpenTypeCMAPSubtableRange list \<Rightarrow> OpenTypeCMAPSubtableRange list" where
  "resize n groups = take n groups @ replicate (n - length groups) zero_OpenTypeCMAPSubtableRange"

text \<open>Lines 275 to 311.  \<open>groups\<close> is a reference to the vector of the file, so the
  entries read so far are returned with a failure too.  On line 307 the two endpoints are
  at most \<open>0x10FFFF\<close> and ordered, and the glyph id is at most \<open>0xFFFF\<close>: the 32-bit sum
  cannot wrap.\<close>

function read_groups_31012 :: "nat \<Rightarrow> nat \<Rightarrow> Buffer \<Rightarrow> OpenTypeCMAPSubtableRange list \<Rightarrow> nat
    \<Rightarrow> bool \<times> OpenTypeCMAPSubtableRange list" where
  "read_groups_31012 i num_groups subtable groups num_glyphs =
     (if i < num_groups then
        (case ReadU32 subtable of None \<Rightarrow> (False, groups)
         | Some (v1, subtable1) \<Rightarrow>
        (let groups1 = groups[i := (groups ! i)\<lparr>start_range := v1\<rparr>] in
         case ReadU32 subtable1 of None \<Rightarrow> (False, groups1)
         | Some (v2, subtable2) \<Rightarrow>
        (let groups2 = groups1[i := (groups1 ! i)\<lparr>end_range := v2\<rparr>] in
         case ReadU32 subtable2 of None \<Rightarrow> (False, groups2)
         | Some (v3, subtable3) \<Rightarrow>
        (let groups3 = groups2[i := (groups2 ! i)\<lparr>start_glyph_id := v3\<rparr>] in
         if start_range (groups3 ! i) > kUnicodeUpperLimit \<or>
            end_range (groups3 ! i) > kUnicodeUpperLimit \<or>
            start_glyph_id (groups3 ! i) > 0xFFFF then (False, groups3)
         else if start_range (groups3 ! i) \<ge> 0xD800 \<and>
                 start_range (groups3 ! i) \<le> 0xDFFF then (False, groups3)
         else if end_range (groups3 ! i) \<ge> 0xD800 \<and>
                 end_range (groups3 ! i) \<le> 0xDFFF then (False, groups3)
         else if start_range (groups3 ! i) < 0xD800 \<and>
                 end_range (groups3 ! i) > 0xDFFF then (False, groups3)
         else if end_range (groups3 ! i) < start_range (groups3 ! i) then (False, groups3)
         else if (end_range (groups3 ! i) - start_range (groups3 ! i)) +
                 start_glyph_id (groups3 ! i) > num_glyphs then (False, groups3)
         else read_groups_31012 (i + 1) num_groups subtable3 groups3 num_glyphs))))
      else (True, groups))"
  by pat_completeness auto
termination
  by (relation "measure (\<lambda>(i, n, b, g, k). n - i)") auto

declare read_groups_31012.simps [simp del]

text \<open>Lines 314 to 321, and the same loop on lines 380 to 387.\<close>

function check_groups :: "nat \<Rightarrow> nat \<Rightarrow> OpenTypeCMAPSubtableRange list \<Rightarrow> bool" where
  "check_groups i num_groups groups =
     (if i < num_groups then
        (if start_range (groups ! i) \<le> start_range (groups ! (i - 1)) then False
         else if start_range (groups ! i) \<le> end_range (groups ! (i - 1)) then False
         else check_groups (i + 1) num_groups groups)
      else True)"
  by pat_completeness auto
termination
  by (relation "measure (\<lambda>(i, n, g). n - i)") auto

declare check_groups.simps [simp del]

definition Parse31012 :: "OpenTypeFile \<Rightarrow> byte list \<Rightarrow> nat \<Rightarrow> bool \<times> OpenTypeFile" where
  "Parse31012 file data num_glyphs =
     (case do {
             s1 \<leftarrow> Skip 8 (new_Buffer data);
             (language, s2) \<leftarrow> ReadU32 s1;
             _ \<leftarrow> failure_if (language \<noteq> 0);
             (num_groups, s3) \<leftarrow> ReadU32 s2;
             _ \<leftarrow> failure_if (num_groups = 0 \<or> num_groups > kMaxCMAPGroups);
             Some (num_groups, s3)
           } of
        None \<Rightarrow> (False, file)
      | Some (num_groups, subtable) \<Rightarrow>
          (case read_groups_31012 0 num_groups subtable
                  (resize num_groups (subtable_3_10_12 (the_cmap file))) num_glyphs of
             (ok, groups) \<Rightarrow>
               (let file1 = upd_cmap (\<lambda>c. c\<lparr>subtable_3_10_12 := groups\<rparr>) file in
                if \<not> ok then (False, file1)
                else if \<not> check_groups 1 num_groups groups then (False, file1)
                else (True, file1))))"

text \<open>Lines 359 to 377.\<close>

function read_groups_31013 :: "nat \<Rightarrow> nat \<Rightarrow> Buffer \<Rightarrow> OpenTypeCMAPSubtableRange list \<Rightarrow> nat
    \<Rightarrow> bool \<times> OpenTypeCMAPSubtableRange list" where
  "read_groups_31013 i num_groups subtable groups num_glyphs =
     (if i < num_groups then
        (case ReadU32 subtable of None \<Rightarrow> (False, groups)
         | Some (v1, subtable1) \<Rightarrow>
        (let groups1 = groups[i := (groups ! i)\<lparr>start_range := v1\<rparr>] in
         case ReadU32 subtable1 of None \<Rightarrow> (False, groups1)
         | Some (v2, subtable2) \<Rightarrow>
        (let groups2 = groups1[i := (groups1 ! i)\<lparr>end_range := v2\<rparr>] in
         case ReadU32 subtable2 of None \<Rightarrow> (False, groups2)
         | Some (v3, subtable3) \<Rightarrow>
        (let groups3 = groups2[i := (groups2 ! i)\<lparr>start_glyph_id := v3\<rparr>] in
         if start_range (groups3 ! i) > kUnicodeUpperLimit \<or>
            end_range (groups3 ! i) > kUnicodeUpperLimit \<or>
            start_glyph_id (groups3 ! i) > 0xFFFF then (False, groups3)
         else if start_glyph_id (groups3 ! i) \<ge> num_glyphs then (False, groups3)
         else read_groups_31013 (i + 1) num_groups subtable3 groups3 num_glyphs))))
      else (True, groups))"
  by pat_completeness auto
termination
  by (relation "measure (\<lambda>(i, n, b, g, k). n - i)") auto

declare read_groups_31013.simps [simp del]

definition Parse31013 :: "OpenTypeFile \<Rightarrow> byte list \<Rightarrow> nat \<Rightarrow> bool \<times> OpenTypeFile" where
  "Parse31013 file data num_glyphs =
     (case do {
             s1 \<leftarrow> Skip 8 (new_Buffer data);
             (language, s2) \<leftarrow> ReadU16 s1;
             _ \<leftarrow> failure_if (language \<noteq> 0);
             (num_groups, s3) \<leftarrow> ReadU32 s2;
             _ \<leftarrow> failure_if (num_groups = 0 \<or> num_groups > kMaxCMAPGroups);
             Some (num_groups, s3)
           } of
        None \<Rightarrow> (False, file)
      | Some (num_groups, subtable) \<Rightarrow>
          (case read_groups_31013 0 num_groups subtable
                  (resize num_groups (subtable_3_10_13 (the_cmap file))) num_glyphs of
             (ok, groups) \<Rightarrow>
               (let file1 = upd_cmap (\<lambda>c. c\<lparr>subtable_3_10_13 := groups\<rparr>) file in
                if \<not> ok then (False, file1)
                else if \<not> check_groups 1 num_groups groups then (False, file1)
                else (True, file1))))"

subsection \<open>Parse0514\<close>

text \<open>Lines 439 to 452: the ranges of a default UVS table.\<close>

function check_def_uvs :: "nat \<Rightarrow> nat \<Rightarrow> Buffer \<Rightarrow> nat \<Rightarrow> bool" where
  "check_def_uvs j num_unicode_value_ranges uvs_table prev_end_unicode =
     (if j < num_unicode_value_ranges then
        (case ReadU24 uvs_table of None \<Rightarrow> False
         | Some (start_unicode, uvs1) \<Rightarrow>
        (case ReadU8 uvs1 of None \<Rightarrow> False
         | Some (additional, uvs2) \<Rightarrow>
        (let end_unicode = (start_unicode + additional) mod 2 ^ 32 in
         if (j > 0 \<and> start_unicode \<le> prev_end_unicode) \<or>
            end_unicode > kUnicodeUpperLimit then False
         else check_def_uvs (j + 1) num_unicode_value_ranges uvs2 end_unicode)))
      else True)"
  by pat_completeness auto
termination
  by (relation "measure (\<lambda>(j, n, b, p). n - j)") auto

declare check_def_uvs.simps [simp del]

text \<open>Lines 464 to 481: the mappings of a non-default UVS table.\<close>

function check_non_def_uvs :: "nat \<Rightarrow> nat \<Rightarrow> Buffer \<Rightarrow> nat \<Rightarrow> nat \<Rightarrow> bool" where
  "check_non_def_uvs j num_uvs_mappings uvs_table prev_unicode num_glyphs =
     (if j < num_uvs_mappings then
        (case ReadU24 uvs_table of None \<Rightarrow> False
         | Some (unicode_value, uvs1) \<Rightarrow>
        (if (j > 0 \<and> unicode_value \<le> prev_unicode) \<or>
            unicode_value > kUnicodeUpperLimit then False
         else
        (case ReadU16 uvs1 of None \<Rightarrow> False
         | Some (glyph, uvs2) \<Rightarrow>
        (if glyph \<ge> num_glyphs then False
         else check_non_def_uvs (j + 1) num_uvs_mappings uvs2 unicode_value num_glyphs))))
      else True)"
  by pat_completeness auto
termination
  by (relation "measure (\<lambda>(j, n, b, p, g). n - j)") auto

declare check_non_def_uvs.simps [simp del]

text \<open>Lines 416 to 483: the variation selector records.  \<open>length - 4\<close> is computed on
  a length of at least 10 (the header was read), so it does not wrap.\<close>

function check_var_selector_records :: "nat \<Rightarrow> nat \<Rightarrow> Buffer \<Rightarrow> byte list \<Rightarrow> nat \<Rightarrow> nat \<Rightarrow> bool" where
  "check_var_selector_records i num_var_selector_records subtable data prev_var_selector num_glyphs =
     (if i < num_var_selector_records then
        (case do {
                (var_selector, s1) \<leftarrow> ReadU24 subtable;
                (def_uvs_offset, s2) \<leftarrow> ReadU32 s1;
                (non_def_uvs_offset, s3) \<leftarrow> ReadU32 s2;
                Some (var_selector, def_uvs_offset, non_def_uvs_offset, s3)
              } of
           None \<Rightarrow> False
         | Some (var_selector, def_uvs_offset, non_def_uvs_offset, subtable') \<Rightarrow>
        (if var_selector \<le> prev_var_selector \<or>
            var_selector > kUnicodeUpperLimit \<or>
            def_uvs_offset > length data - 4 \<or>
            non_def_uvs_offset > length data - 4 then False
         else if def_uvs_offset \<noteq> 0 \<and>
            \<not> (case ReadU32 (new_Buffer (drop def_uvs_offset data)) of None \<Rightarrow> False
               | Some (num_unicode_value_ranges, uvs_table) \<Rightarrow>
                   check_def_uvs 0 num_unicode_value_ranges uvs_table 0) then False
         else if non_def_uvs_offset \<noteq> 0 \<and>
            \<not> (case ReadU32 (new_Buffer (drop non_def_uvs_offset data)) of None \<Rightarrow> False
               | Some (num_uvs_mappings, uvs_table) \<Rightarrow>
                   check_non_def_uvs 0 num_uvs_mappings uvs_table 0 num_glyphs) then False
         else check_var_selector_records (i + 1) num_var_selector_records subtable' data
                var_selector num_glyphs))
      else True)"
  by pat_completeness auto
termination
  by (relation "measure (\<lambda>(i, n, b, d, p, g). n - i)") auto

declare check_var_selector_records.simps [simp del]

definition Parse0514 :: "OpenTypeFile \<Rightarrow> byte list \<Rightarrow> nat \<Rightarrow> bool \<times> OpenTypeFile" where
  "Parse0514 file data num_glyphs =
     (case do {
             s1 \<leftarrow> Skip 6 (new_Buffer data);
             (num_var_selector_records, s2) \<leftarrow> ReadU32 s1;
             _ \<leftarrow> failure_if ((length data - 10) div 11 < num_var_selector_records);
             Some (num_var_selector_records, s2)
           } of
        None \<Rightarrow> (False, file)
      | Some (num_var_selector_records, subtable) \<Rightarrow>
          if \<not> check_var_selector_records 0 num_var_selector_records subtable data 0 num_glyphs
          then (False, file)
          else (True, upd_cmap (\<lambda>c. c\<lparr>subtable_0_5_14 := Some data\<rparr>) file))"

subsection \<open>Parse100\<close>

text \<open>Lines 510 to 516: every glyph id that was read is pushed onto the vector of the file.\<close>

function read_glyph_ids :: "nat \<Rightarrow> Buffer \<Rightarrow> byte list \<Rightarrow> bool \<times> byte list" where
  "read_glyph_ids i subtable glyphs =
     (if i < kFormat0ArraySize then
        (case ReadU8 subtable of None \<Rightarrow> (False, glyphs)
         | Some (glyph_id, subtable') \<Rightarrow>
             read_glyph_ids (i + 1) subtable' (glyphs @ [of_nat glyph_id]))
      else (True, glyphs))"
  by pat_completeness auto
termination
  by (relation "measure (\<lambda>(i, b, g). kFormat0ArraySize - i)") auto

declare read_glyph_ids.simps [simp del]

definition Parse100 :: "OpenTypeFile \<Rightarrow> byte list \<Rightarrow> bool \<times> OpenTypeFile" where
  "Parse100 file data =
     (case do {
             s1 \<leftarrow> Skip 4 (new_Buffer data);
             (language, s2) \<leftarrow> ReadU16 s1;
             Some s2
           } of
        None \<Rightarrow> (False, file)
      | Some subtable \<Rightarrow>
          (case read_glyph_ids 0 subtable (subtable_1_0_0 (the_cmap file)) of
             (ok, glyphs) \<Rightarrow> (ok, upd_cmap (\<lambda>c. c\<lparr>subtable_1_0_0 := glyphs\<rparr>) file)))"

subsection \<open>ots_cmap_parse\<close>

text \<open>Lines 547 to 557.  \<open>format\<close> and \<open>length\<close> of a header are not initialised by
  the source before the loop on line 583 sets both; they are 0 here until then.\<close>

function read_subtable_headers :: "nat \<Rightarrow> nat \<Rightarrow> Buffer \<Rightarrow> CMAPSubtableHeader list
    \<Rightarrow> (CMAPSubtableHeader list \<times> Buffer) option" where
  "read_subtable_headers i num_tables table subtable_headers =
     (if i < num_tables then
        do {
          (p, t1) \<leftarrow> ReadU16 table;
          (e, t2) \<leftarrow> ReadU16 t1;
          (off, t3) \<leftarrow> ReadU32 t2;
          read_subtable_headers (i + 1) num_tables t3
            (subtable_headers @
               [\<lparr>platform = p, encoding = e, hoffset = off, format = 0, hlength = 0\<rparr>])
        }
      else Some (subtable_headers, table))"
  by pat_completeness auto
termination
  by (relation "measure (\<lambda>(i, n, b, h). n - i)") auto

declare read_subtable_headers.simps [simp del]

text \<open>Lines 562 to 579.  \<open>(platform << 16) + encoding\<close> is below \<open>2 ^ 32\<close>.\<close>

function check_offsets :: "nat \<Rightarrow> nat \<Rightarrow> CMAPSubtableHeader list \<Rightarrow> nat \<Rightarrow> nat \<Rightarrow> nat \<Rightarrow> bool" where
  "check_offsets i num_tables subtable_headers data_offset len last_id =
     (if i < num_tables then
        (if hoffset (subtable_headers ! i) > 1024 * 1024 * 1024 then False
         else if hoffset (subtable_headers ! i) < data_offset \<or>
                 hoffset (subtable_headers ! i) \<ge> len then False
         else
           (let current_id = platform (subtable_headers ! i) * 65536 +
                             encoding (subtable_headers ! i) in
            if i \<noteq> 0 \<and> last_id \<ge> current_id then False
            else check_offsets (i + 1) num_tables subtable_headers data_offset len current_id))
      else True)"
  by pat_completeness auto
termination
  by (relation "measure (\<lambda>(i, n, h, d, l, k). n - i)") auto

declare check_offsets.simps [simp del]

text \<open>Lines 583 to 616.\<close>

function read_formats :: "nat \<Rightarrow> nat \<Rightarrow> Buffer \<Rightarrow> CMAPSubtableHeader list
    \<Rightarrow> CMAPSubtableHeader list option" where
  "read_formats i num_tables table subtable_headers =
     (if i < num_tables then
        (case ReadU16 (set_offset (hoffset (subtable_headers ! i)) table) of None \<Rightarrow> None
         | Some (fmt, t1) \<Rightarrow>
        (let headers1 = subtable_headers[i := (subtable_headers ! i)\<lparr>format := fmt\<rparr>] in
         if fmt = 0 \<or> fmt = 4 then
           (case ReadU16 t1 of None \<Rightarrow> None
            | Some (len, t2) \<Rightarrow>
                read_formats (i + 1) num_tables t2 (headers1[i := (headers1 ! i)\<lparr>hlength := len\<rparr>]))
         else if fmt = 12 \<or> fmt = 13 then
           (case Skip 2 t1 of None \<Rightarrow> None
            | Some t2 \<Rightarrow>
           (case ReadU32 t2 of None \<Rightarrow> None
            | Some (len, t3) \<Rightarrow>
                read_formats (i + 1) num_tables t3 (headers1[i := (headers1 ! i)\<lparr>hlength := len\<rparr>])))
         else if fmt = 14 then
           (case ReadU32 t1 of None \<Rightarrow> None
            | Some (len, t2) \<Rightarrow>
                read_formats (i + 1) num_tables t2 (headers1[i := (headers1 ! i)\<lparr>hlength := len\<rparr>]))
         else read_formats (i + 1) num_tables t1 (headers1[i := (headers1 ! i)\<lparr>hlength := 0\<rparr>])))
      else Some subtable_headers)"
  by pat_completeness auto
termination
  by (relation "measure (\<lambda>(i, n, b, h). n - i)") auto

declare read_formats.simps [simp del]

text \<open>Lines 619 to 631.\<close>

function check_lengths :: "nat \<Rightarrow> nat \<Rightarrow> CMAPSubtableHeader list \<Rightarrow> nat \<Rightarrow> bool" where
  "check_lengths i num_tables subtable_headers len =
     (if i < num_tables then
        (if hlength (subtable_headers ! i) = 0
         then check_lengths (i + 1) num_tables subtable_headers len
         else if hlength (subtable_headers ! i) > 1024 * 1024 * 1024 then False
         else
           (let end_byte = (hoffset (subtable_headers ! i) + hlength (subtable_headers ! i))
                             mod 2 ^ 32 in
            if end_byte > len then False
            else check_lengths (i + 1) num_tables subtable_headers len))
      else True)"
  by pat_completeness auto
termination
  by (relation "measure (\<lambda>(i, n, h, l). n - i)") auto

declare check_lengths.simps [simp del]

text \<open>Lines 636 to 650: \<open>uniq_checker\<close> is the \<open>std::set\<close>, \<open>overlap_checker\<close> the
  vector of the start (1) and end (0) events.\<close>

function collect_extents :: "nat \<Rightarrow> nat \<Rightarrow> CMAPSubtableHeader list \<Rightarrow> (nat \<times> nat) set
    \<Rightarrow> (nat \<times> nat) list \<Rightarrow> (nat \<times> nat) list" where
  "collect_extents i num_tables subtable_headers uniq_checker overlap_checker =
     (if i < num_tables then
        (let end_byte = (hoffset (subtable_headers ! i) + hlength (subtable_headers ! i))
                          mod 2 ^ 32 in
         if (hoffset (subtable_headers ! i), end_byte) \<in> uniq_checker
         then collect_extents (i + 1) num_tables subtable_headers uniq_checker overlap_checker
         else collect_extents (i + 1) num_tables subtable_headers
                (insert (hoffset (subtable_headers ! i), end_byte) uniq_checker)
                (overlap_checker @ [(hoffset (subtable_headers ! i), 1), (end_byte, 0)]))
      else overlap_checker)"
  by pat_completeness auto
termination
  by (relation "measure (\<lambda>(i, n, h, u, l). n - i)") auto

declare collect_extents.simps [simp del]

text \<open>Lines 652 to 658, on the vector sorted by \<open>std::sort\<close> (pairs are compared
  lexicographically).\<close>

function count_overlap :: "nat \<Rightarrow> (nat \<times> nat) list \<Rightarrow> int \<Rightarrow> bool" where
  "count_overlap i overlap_checker overlap_count =
     (if i < length overlap_checker then
        (let overlap_count' = overlap_count + (if snd (overlap_checker ! i) \<noteq> 0 then 1 else - 1) in
         if overlap_count' > 1 then False
         else count_overlap (i + 1) overlap_checker overlap_count')
      else True)"
  by pat_completeness auto
termination
  by (relation "measure (\<lambda>(i, l, c). length l - i)") auto

declare count_overlap.simps [simp del]

text \<open>Lines 691 to 769: the body of the last loop, the dispatch of one subtable on
  platform, encoding and format.\<close>

definition parse_subtable :: "CMAPSubtableHeader \<Rightarrow> byte list \<Rightarrow> nat \<Rightarrow> OpenTypeFile
    \<Rightarrow> bool \<times> OpenTypeFile" where
  "parse_subtable h data num_glyphs file =
     (let sub = slice data (hoffset h) (hlength h) in
      if platform h = 0 then
        (if encoding h = 0 \<and> format h = 4 then Parse3x4 file 1 sub num_glyphs
         else if encoding h = 3 \<and> format h = 4 then Parse3x4 file 1 sub num_glyphs
         else if encoding h = 3 \<and> format h = 12 then Parse31012 file sub num_glyphs
         else if encoding h = 5 \<and> format h = 14 then Parse0514 file sub num_glyphs
         else (True, file))
      else if platform h = 1 then
        (if encoding h = 0 \<and> format h = 0 then Parse100 file sub
         else (True, file))
      else if platform h = 3 then
        (if encoding h = 0 \<or> encoding h = 1 then
           (if format h = 4 then Parse3x4 file (encoding h) sub num_glyphs
            else (True, file))
         else if encoding h = 10 then
           (if format h = 12 then
              Parse31012 (upd_cmap (\<lambda>c. c\<lparr>subtable_3_10_12 := []\<rparr>) file) sub num_glyphs
            else if format h = 13 then
              Parse31013 (upd_cmap (\<lambda>c. c\<lparr>subtable_3_10_13 := []\<rparr>) file) sub num_glyphs
            else (True, file))
         else (True, file))
      else (True, file))"

text \<open>Lines 690 to 770: the loop stops at the first subtable that fails.\<close>

function parse_subtables :: "nat \<Rightarrow> nat \<Rightarrow> CMAPSubtableHeader list \<Rightarrow> byte list \<Rightarrow> nat
    \<Rightarrow> OpenTypeFile \<Rightarrow> bool \<times> OpenTypeFile" where
  "parse_subtables i num_tables subtable_headers data num_glyphs file =
     (if i < num_tables then
        (case parse_subtable (subtable_headers ! i) data num_glyphs file of
           (ok, file') \<Rightarrow>
             if \<not> ok then (False, file')
             else parse_subtables (i + 1) num_tables subtable_headers data num_glyphs file')
      else (True, file))"
  by pat_completeness auto
termination
  by (relation "measure (\<lambda>(i, n, h, d, g, f). n - i)") auto

declare parse_subtables.simps [simp del]

text \<open>Lines 526 to 665: the header, the subtable records, the checks of offsets, lengths
  and overlap, and the glyph count of \<open>maxp\<close>.  The file is not changed by this part;
  \<open>None\<close> is a failure.\<close>

definition parse_directory :: "OpenTypeFile \<Rightarrow> byte list
    \<Rightarrow> (nat \<times> CMAPSubtableHeader list \<times> nat) option" where
  "parse_directory file data = do {
     (version, t1) \<leftarrow> ReadU16 (new_Buffer data);
     (num_tables, t2) \<leftarrow> ReadU16 t1;
     _ \<leftarrow> failure_if (version \<noteq> 0);
     _ \<leftarrow> failure_if (num_tables = 0);
     (subtable_headers, t3) \<leftarrow> read_subtable_headers 0 num_tables t2 [];
     let data_offset = offset t3;
     _ \<leftarrow> failure_if (\<not> check_offsets 0 num_tables subtable_headers data_offset
                          (length data) 0);
     subtable_headers' \<leftarrow> read_formats 0 num_tables t3 subtable_headers;
     _ \<leftarrow> failure_if (\<not> check_lengths 0 num_tables subtable_headers' (length data));
     let overlap_checker = collect_extents 0 num_tables subtable_headers' {} [];
     _ \<leftarrow> failure_if (\<not> count_overlap 0 (sort overlap_checker) 0);
     m \<leftarrow> maxp file;
     Some (num_tables, subtable_headers', unat (maxp_num_glyphs m))
   }"

definition ots_cmap_parse :: "OpenTypeFile \<Rightarrow> byte list \<Rightarrow> bool \<times> OpenTypeFile" where
  "ots_cmap_parse file0 data =
     (let file = file0\<lparr>cmap := Some new_OpenTypeCMAP\<rparr> in
      case parse_directory file data of
        None \<Rightarrow> (False, file)
      | Some (num_tables, subtable_headers, num_glyphs) \<Rightarrow>
          parse_subtables 0 num_tables subtable_headers data num_glyphs file)"

definition ots_cmap_should_serialise :: "OpenTypeFile \<Rightarrow> bool" where
  "ots_cmap_should_serialise file = (cmap file \<noteq> None)"

subsection \<open>The output stream\<close>

text \<open>
  Modelled from the spec: the class \<open>OTSStream\<close> is declared outside cmap.cc.  The spec
  (section 5) lists its operations: \<open>write\<close>, \<open>write u16/u32\<close>, \<open>pad n\<close>, \<open>tell\<close>,
  \<open>seek\<close> and saving, resetting and restoring the checksum state; a write or a seek may
  be rejected (section 7).  The stream here is a byte array with a cursor and a capacity:
  a write beyond \<open>limit\<close> and a seek beyond the bytes written are rejected (\<open>None\<close>).
  The checksum state is kept as the bytes written since it was last reset.
\<close>

record OTSStream =
  contents :: "byte list"
  position :: nat
  limit :: nat
  chksum_input :: "byte list"

definition Write :: "byte list \<Rightarrow> OTSStream \<Rightarrow> OTSStream option" where
  "Write bs s =
     (if position s + length bs > limit s then None
      else Some (s\<lparr>contents := take (position s) (contents s) @ bs @
                                drop (position s + length bs) (contents s),
                    position := position s + length bs,
                    chksum_input := chksum_input s @ bs\<rparr>))"

definition WriteU16 :: "nat \<Rightarrow> OTSStream \<Rightarrow> OTSStream option" where
  "WriteU16 v s = Write (u16_bytes v) s"

definition WriteU32 :: "nat \<Rightarrow> OTSStream \<Rightarrow> OTSStream option" where
  "WriteU32 v s = Write (u32_bytes v) s"

definition Pad :: "nat \<Rightarrow> OTSStream \<Rightarrow> OTSStream option" where
  "Pad n s = Write (replicate n 0) s"

definition Tell :: "OTSStream \<Rightarrow> nat" where
  "Tell s = position s"

definition Seek :: "nat \<Rightarrow> OTSStream \<Rightarrow> OTSStream option" where
  "Seek p s = (if p > length (contents s) then None else Some (s\<lparr>position := p\<rparr>))"

definition SaveChecksumState :: "OTSStream \<Rightarrow> byte list" where
  "SaveChecksumState s = chksum_input s"

definition ResetChecksum :: "OTSStream \<Rightarrow> OTSStream" where
  "ResetChecksum s = s\<lparr>chksum_input := []\<rparr>"

definition RestoreChecksum :: "byte list \<Rightarrow> OTSStream \<Rightarrow> OTSStream" where
  "RestoreChecksum c s = s\<lparr>chksum_input := c\<rparr>"

subsection \<open>ots_cmap_serialise\<close>

text \<open>Lines 853 to 859, and the same loop on lines 875 to 881.\<close>

function write_groups :: "nat \<Rightarrow> nat \<Rightarrow> OpenTypeCMAPSubtableRange list \<Rightarrow> OTSStream
    \<Rightarrow> OTSStream option" where
  "write_groups i num_groups groups out =
     (if i < num_groups then
        do {
          o1 \<leftarrow> WriteU32 (start_range (groups ! i)) out;
          o2 \<leftarrow> WriteU32 (end_range (groups ! i)) o1;
          o3 \<leftarrow> WriteU32 (start_glyph_id (groups ! i)) o2;
          write_groups (i + 1) num_groups groups o3
        }
      else Some out)"
  by pat_completeness auto
termination
  by (relation "measure (\<lambda>(i, n, g, s). n - i)") auto

declare write_groups.simps [simp del]

text \<open>Line 819 passes the address of the first element of the vector and the fixed
  count \<open>kFormat0ArraySize\<close> to \<open>Write\<close>: 256 bytes are written whatever the size
  of the vector.  A vector of 256 entries, the only non-empty one that a successful parse
  leaves, gives exactly its entries.  For a shorter vector (a failed \<open>Parse100\<close> leaves
  one) the read runs past its end, and the bytes found there are not determined by cmap.cc;
  they are 0 here, and the theorems below state nothing about them.\<close>

definition format0_bytes :: "byte list \<Rightarrow> byte list" where
  "format0_bytes glyphs = take kFormat0ArraySize (glyphs @ replicate kFormat0ArraySize 0)"

text \<open>Lines 814 to 821: the format-0 subtable.\<close>

definition write_subtable_100 :: "byte list \<Rightarrow> OTSStream \<Rightarrow> OTSStream option" where
  "write_subtable_100 glyphs out = do {
     a1 \<leftarrow> WriteU16 0 out;
     a2 \<leftarrow> WriteU16 (6 + kFormat0ArraySize) a1;
     a3 \<leftarrow> WriteU16 0 a2;
     Write (format0_bytes glyphs) a3
   }"

text \<open>Lines 842 to 859: the format-12 subtable.  \<open>num_groups\<close> is the vector size
  converted to \<open>unsigned\<close>.\<close>

definition write_subtable_31012 :: "OpenTypeCMAPSubtableRange list \<Rightarrow> OTSStream
    \<Rightarrow> OTSStream option" where
  "write_subtable_31012 groups out = do {
     let num_groups = length groups mod 2 ^ 32;
     a1 \<leftarrow> WriteU16 12 out;
     a2 \<leftarrow> WriteU16 0 a1;
     a3 \<leftarrow> WriteU32 (num_groups * 12 + 16) a2;
     a4 \<leftarrow> WriteU32 0 a3;
     a5 \<leftarrow> WriteU32 num_groups a4;
     write_groups 0 num_groups groups a5
   }"

text \<open>Lines 864 to 881: the format-13 subtable.\<close>

definition write_subtable_31013 :: "OpenTypeCMAPSubtableRange list \<Rightarrow> OTSStream
    \<Rightarrow> OTSStream option" where
  "write_subtable_31013 groups out = do {
     let num_groups = length groups mod 2 ^ 32;
     a1 \<leftarrow> WriteU16 13 out;
     a2 \<leftarrow> WriteU16 0 a1;
     a3 \<leftarrow> WriteU32 (num_groups * 12 + 14) a2;
     a4 \<leftarrow> WriteU32 0 a3;
     a5 \<leftarrow> WriteU32 num_groups a4;
     write_groups 0 num_groups groups a5
   }"

text \<open>One record of the table of offsets, as each of the six blocks of lines 903 to 949
  writes it: platform, encoding, offset.\<close>

definition write_record :: "nat \<Rightarrow> nat \<Rightarrow> nat \<Rightarrow> OTSStream \<Rightarrow> OTSStream option" where
  "write_record platform_id encoding_id off out = do {
     a1 \<leftarrow> WriteU16 platform_id out;
     a2 \<leftarrow> WriteU16 encoding_id a1;
     WriteU32 off a2
   }"

text \<open>The data of an opaque slot; the serialiser reads it only when the slot is set.\<close>

definition slot_data :: "byte list option \<Rightarrow> byte list" where
  "slot_data slot = (case slot of Some d \<Rightarrow> d | None \<Rightarrow> [])"

text \<open>The serialiser returns the stream on success and \<open>None\<close> on failure.  It is
  called only when \<open>file->cmap\<close> exists (\<open>ots_cmap_should_serialise\<close>).\<close>

definition ots_cmap_serialise :: "OTSStream \<Rightarrow> OpenTypeFile \<Rightarrow> OTSStream option" where
  "ots_cmap_serialise out file =
     (case cmap file of None \<Rightarrow> None
      | Some c \<Rightarrow>
     (let have_0514 = (subtable_0_5_14 c \<noteq> None);
          have_100 = (length (subtable_1_0_0 c) \<noteq> 0);
          have_304 = (subtable_3_0_4 c \<noteq> None);
          have_314 = (\<not> have_304 \<and> subtable_3_1_4 c \<noteq> None);
          have_31012 = (length (subtable_3_10_12 c) \<noteq> 0);
          have_31013 = (length (subtable_3_10_13 c) \<noteq> 0);
          num_subtables = (of_bool have_0514 + of_bool have_100 + of_bool have_304 +
                           of_bool have_314 + of_bool have_31012 + of_bool have_31013 :: nat);
          table_start = Tell out
      in
      if \<not> have_304 \<and> \<not> have_314 then None
      else do {
        o1 \<leftarrow> WriteU16 0 out;
        o2 \<leftarrow> WriteU16 num_subtables o1;
        let record_offset = Tell o2;
        o3 \<leftarrow> Pad (num_subtables * 8) o2;
        let offset_100 = Tell o3;
        o4 \<leftarrow> (if have_100 then write_subtable_100 (subtable_1_0_0 c) o3 else Some o3);
        let offset_304 = Tell o4;
        o5 \<leftarrow> (if have_304 then Write (slot_data (subtable_3_0_4 c)) o4 else Some o4);
        let offset_314 = Tell o5;
        o6 \<leftarrow> (if have_314 then Write (slot_data (subtable_3_1_4 c)) o5 else Some o5);
        let offset_31012 = Tell o6;
        o7 \<leftarrow> (if have_31012 then write_subtable_31012 (subtable_3_10_12 c) o6 else Some o6);
        let offset_31013 = Tell o7;
        o8 \<leftarrow> (if have_31013 then write_subtable_31013 (subtable_3_10_13 c) o7 else Some o7);
        let offset_0514 = Tell o8;
        o9 \<leftarrow> (if have_0514 then Write (slot_data (subtable_0_5_14 c)) o8 else Some o8);
        let table_end = Tell o9;
        let saved_checksum = SaveChecksumState o9;
        let o10 = ResetChecksum o9;
        o11 \<leftarrow> Seek record_offset o10;
        o12 \<leftarrow> (if have_0514 then write_record 0 5 (offset_0514 - table_start) o11
                else Some o11);
        o13 \<leftarrow> (if have_100 then write_record 1 0 (offset_100 - table_start) o12
                else Some o12);
        o14 \<leftarrow> (if have_304 then write_record 3 0 (offset_304 - table_start) o13
                else Some o13);
        o15 \<leftarrow> (if have_314 then write_record 3 1 (offset_314 - table_start) o14
                else Some o14);
        o16 \<leftarrow> (if have_31012 then write_record 3 10 (offset_31012 - table_start) o15
                else Some o15);
        o17 \<leftarrow> (if have_31013 then write_record 3 10 (offset_31013 - table_start) o16
                else Some o16);
        o18 \<leftarrow> Seek table_end o17;
        Some (RestoreChecksum saved_checksum o18)
      }))"

text \<open>The bytes of the table that a run of the serialiser from \<open>out\<close> to \<open>out'\<close> has
  written: from the position where it started to the position where it ended.\<close>

definition table_bytes :: "OTSStream \<Rightarrow> OTSStream \<Rightarrow> byte list" where
  "table_bytes out out' = take (position out' - position out) (drop (position out) (contents out'))"

subsection \<open>The layout of the serialised table\<close>

text \<open>The bytes that the serialiser writes, part by part, as functions of the parsed cmap;
  that the stream holds exactly these bytes is proved below
  (\<open>ots_cmap_serialise_layout\<close>).\<close>

definition group_bytes :: "OpenTypeCMAPSubtableRange \<Rightarrow> byte list" where
  "group_bytes g = u32_bytes (start_range g) @ u32_bytes (end_range g) @ u32_bytes (start_glyph_id g)"

definition groups_body :: "nat \<Rightarrow> nat \<Rightarrow> OpenTypeCMAPSubtableRange list \<Rightarrow> byte list" where
  "groups_body fmt extra gs =
     (if gs = [] then []
      else u16_bytes fmt @ u16_bytes 0 @ u32_bytes ((length gs mod 2 ^ 32) * 12 + extra) @
           u32_bytes 0 @ u32_bytes (length gs mod 2 ^ 32) @
           concat (map group_bytes (take (length gs mod 2 ^ 32) gs)))"

definition body_100 :: "OpenTypeCMAP \<Rightarrow> byte list" where
  "body_100 c = (if subtable_1_0_0 c = [] then []
     else u16_bytes 0 @ u16_bytes (6 + kFormat0ArraySize) @ u16_bytes 0 @
          format0_bytes (subtable_1_0_0 c))"

definition body_304 :: "OpenTypeCMAP \<Rightarrow> byte list" where
  "body_304 c = slot_data (subtable_3_0_4 c)"

definition body_314 :: "OpenTypeCMAP \<Rightarrow> byte list" where
  "body_314 c = (if subtable_3_0_4 c = None then slot_data (subtable_3_1_4 c) else [])"

definition body_31012 :: "OpenTypeCMAP \<Rightarrow> byte list" where
  "body_31012 c = groups_body 12 16 (subtable_3_10_12 c)"

definition body_31013 :: "OpenTypeCMAP \<Rightarrow> byte list" where
  "body_31013 c = groups_body 13 14 (subtable_3_10_13 c)"

definition body_0514 :: "OpenTypeCMAP \<Rightarrow> byte list" where
  "body_0514 c = slot_data (subtable_0_5_14 c)"

definition count_subtables :: "OpenTypeCMAP \<Rightarrow> nat" where
  "count_subtables c =
     of_bool (subtable_0_5_14 c \<noteq> None) + of_bool (subtable_1_0_0 c \<noteq> []) +
     of_bool (subtable_3_0_4 c \<noteq> None) +
     of_bool (subtable_3_0_4 c = None \<and> subtable_3_1_4 c \<noteq> None) +
     of_bool (subtable_3_10_12 c \<noteq> []) + of_bool (subtable_3_10_13 c \<noteq> [])"

definition offset_100 :: "OpenTypeCMAP \<Rightarrow> nat" where
  "offset_100 c = 4 + 8 * count_subtables c"
definition offset_304 :: "OpenTypeCMAP \<Rightarrow> nat" where
  "offset_304 c = offset_100 c + length (body_100 c)"
definition offset_314 :: "OpenTypeCMAP \<Rightarrow> nat" where
  "offset_314 c = offset_304 c + length (body_304 c)"
definition offset_31012 :: "OpenTypeCMAP \<Rightarrow> nat" where
  "offset_31012 c = offset_314 c + length (body_314 c)"
definition offset_31013 :: "OpenTypeCMAP \<Rightarrow> nat" where
  "offset_31013 c = offset_31012 c + length (body_31012 c)"
definition offset_0514 :: "OpenTypeCMAP \<Rightarrow> nat" where
  "offset_0514 c = offset_31013 c + length (body_31013 c)"

definition record_bytes :: "nat \<Rightarrow> nat \<Rightarrow> nat \<Rightarrow> byte list" where
  "record_bytes p e off = u16_bytes p @ u16_bytes e @ u32_bytes off"

text \<open>The records of the table of offsets, in the order in which lines 903 to 949 write
  them: platform, encoding, offset from the start of the table.\<close>

definition directory_records :: "OpenTypeCMAP \<Rightarrow> (nat \<times> nat \<times> nat) list" where
  "directory_records c =
     (if subtable_0_5_14 c \<noteq> None then [(0, 5, offset_0514 c)] else []) @
     (if subtable_1_0_0 c \<noteq> [] then [(1, 0, offset_100 c)] else []) @
     (if subtable_3_0_4 c \<noteq> None then [(3, 0, offset_304 c)] else []) @
     (if subtable_3_0_4 c = None \<and> subtable_3_1_4 c \<noteq> None
      then [(3, 1, offset_314 c)] else []) @
     (if subtable_3_10_12 c \<noteq> [] then [(3, 10, offset_31012 c)] else []) @
     (if subtable_3_10_13 c \<noteq> [] then [(3, 10, offset_31013 c)] else [])"

definition directory :: "OpenTypeCMAP \<Rightarrow> byte list" where
  "directory c = concat (map (\<lambda>(p, e, off). record_bytes p e off) (directory_records c))"

definition bodies :: "OpenTypeCMAP \<Rightarrow> byte list" where
  "bodies c = body_100 c @ body_304 c @ body_314 c @ body_31012 c @ body_31013 c @ body_0514 c"

definition cmap_table :: "OpenTypeCMAP \<Rightarrow> byte list" where
  "cmap_table c = u16_bytes 0 @ u16_bytes (count_subtables c) @ directory c @ bodies c"

text \<open>A stream whose cursor is inside the bytes written.\<close>

definition stream_ok :: "OTSStream \<Rightarrow> bool" where
  "stream_ok s = (position s \<le> length (contents s))"

text \<open>The loop that reads the subtable records, in closed form.\<close>

definition header_at :: "byte list \<Rightarrow> nat \<Rightarrow> CMAPSubtableHeader" where
  "header_at d p = \<lparr>platform = be16 d p, encoding = be16 d (p + 2), hoffset = be32 d (p + 4),
     format = 0, hlength = 0\<rparr>"

text \<open>A subtable header as the records written by the serialiser are read back.\<close>

definition header_of :: "nat \<times> nat \<times> nat \<Rightarrow> CMAPSubtableHeader" where
  "header_of r = (case r of (p, e, off) \<Rightarrow>
     \<lparr>platform = p mod 65536, encoding = e mod 65536, hoffset = off mod 4294967296,
      format = 0, hlength = 0\<rparr>)"

subsection \<open>Predicates read off the checks\<close>

text \<open>What lines 282 to 310 leave of a group when none of their failures fires.\<close>

definition group_ok_31012 :: "nat \<Rightarrow> OpenTypeCMAPSubtableRange \<Rightarrow> bool" where
  "group_ok_31012 n g =
     (\<not> (start_range g > kUnicodeUpperLimit \<or> end_range g > kUnicodeUpperLimit \<or>
         start_glyph_id g > 0xFFFF) \<and>
      \<not> (start_range g \<ge> 0xD800 \<and> start_range g \<le> 0xDFFF) \<and>
      \<not> (end_range g \<ge> 0xD800 \<and> end_range g \<le> 0xDFFF) \<and>
      \<not> (start_range g < 0xD800 \<and> end_range g > 0xDFFF) \<and>
      \<not> end_range g < start_range g \<and>
      \<not> (end_range g - start_range g) + start_glyph_id g > n)"

text \<open>The same for a whole vector, with the order that lines 314 to 321 check.\<close>

definition groups_ok_31012 :: "nat \<Rightarrow> OpenTypeCMAPSubtableRange list \<Rightarrow> bool" where
  "groups_ok_31012 n gs =
     ((\<forall>j<length gs. group_ok_31012 n (gs ! j)) \<and>
      (\<forall>j. 1 \<le> j \<and> j < length gs \<longrightarrow>
         start_range (gs ! (j - 1)) < start_range (gs ! j) \<and>
         end_range (gs ! (j - 1)) < start_range (gs ! j)))"

definition inv_31012 :: "nat \<Rightarrow> OpenTypeFile \<Rightarrow> bool" where
  "inv_31012 g fl = (cmap fl \<noteq> None \<and> groups_ok_31012 g (subtable_3_10_12 (the_cmap fl)))"

text \<open>What \<open>Parse3x4\<close> requires of the subtable itself, apart from the presence of the
  \<open>OS/2\<close> table: the reads and header checks, the order of the segments (which does not
  depend on the \<open>OS/2\<close> values), the final 0xFFFF, the simulated lookups and the encoding.\<close>

definition accepts_3x4 :: "nat \<Rightarrow> byte list \<Rightarrow> nat \<Rightarrow> bool" where
  "accepts_3x4 e d g =
     (case Parse3x4_read d of None \<Rightarrow> False
      | Some (n, rs) \<Rightarrow>
          fst (check_ranges 1 n rs \<lparr>first_char_index = 0, last_char_index = 0\<rparr>) \<and>
          end_code (rs ! (n - 1)) = 0xffff \<and> simulate_lookup 1 n rs d g \<and> (e = 0 \<or> e = 1))"

text \<open>Every opaque slice held by \<open>fl\<close> was accepted by its parser, for the font \<open>fl0\<close>
  the parse started from and its glyph count \<open>g\<close>.\<close>

definition opaque_accepted :: "OpenTypeFile \<Rightarrow> nat \<Rightarrow> OpenTypeFile \<Rightarrow> bool" where
  "opaque_accepted fl0 g fl =
     (cmap fl \<noteq> None \<and> maxp fl = maxp fl0 \<and> (os2 fl = None \<longleftrightarrow> os2 fl0 = None) \<and>
      (\<forall>s. subtable_3_0_4 (the_cmap fl) = Some s \<longrightarrow> os2 fl0 \<noteq> None \<and> accepts_3x4 0 s g) \<and>
      (\<forall>s. subtable_3_1_4 (the_cmap fl) = Some s \<longrightarrow> os2 fl0 \<noteq> None \<and> accepts_3x4 1 s g) \<and>
      (\<forall>s. subtable_0_5_14 (the_cmap fl) = Some s \<longrightarrow> fst (Parse0514 fl0 s g)))"

subsection \<open>Concrete inputs\<close>

text \<open>A font object with three glyphs and no \<open>OS/2\<close> table, and one with both.\<close>

definition font_3_glyphs :: OpenTypeFile where
  "font_3_glyphs = \<lparr>cmap = None, maxp = Some \<lparr>maxp_num_glyphs = 3\<rparr>, os2 = None\<rparr>"

definition font_3_glyphs_os2 :: OpenTypeFile where
  "font_3_glyphs_os2 = \<lparr>cmap = None, maxp = Some \<lparr>maxp_num_glyphs = 3\<rparr>,
     os2 = Some \<lparr>first_char_index = 0x20, last_char_index = 0xFF\<rparr>\<rparr>"

text \<open>A cmap table with the single record (3, 10) at offset 12: a format-12 subtable of
  length 28 with the one group \<open>[0x20, 0x20]\<close> that starts at glyph 3.\<close>

definition cmap_31012_glyph_3 :: "byte list" where
  "cmap_31012_glyph_3 =
     [0, 0, 0, 1,   0, 3, 0, 10, 0, 0, 0, 12,
      0, 12, 0, 0,  0, 0, 0, 28,  0, 0, 0, 0,  0, 0, 0, 1,
      0, 0, 0, 0x20,  0, 0, 0, 0x20,  0, 0, 0, 3]"

text \<open>A cmap table with the single record (3, 1) at offset 12: a format-4 subtable of
  length 32 with the two segments \<open>[0x41, 0x43]\<close>, \<open>id_delta = 99\<close>, and
  \<open>[0xFFFF, 0xFFFF]\<close>, \<open>id_delta = 1\<close>, both with \<open>id_range_offset = 0\<close>.\<close>

definition cmap_314_glyph_164 :: "byte list" where
  "cmap_314_glyph_164 =
     [0, 0, 0, 1,   0, 3, 0, 1, 0, 0, 0, 12,
      0, 4,  0, 32,  0, 0,  0, 4,  0, 4,  0, 1,  0, 0,
      0, 0x43,  0xFF, 0xFF,   0, 0,   0, 0x41,  0xFF, 0xFF,
      0, 99,  0, 1,   0, 0,  0, 0]"

text \<open>A cmap table with two records: (3, 1) at offset 20, a format-4 subtable with the
  segments \<open>[0x41, 0x43]\<close>, \<open>id_delta = -0x41\<close>, and the terminator; and (3, 10) at
  offset 52, a format-12 subtable with the one group \<open>[0x20, 0x20]\<close> at glyph 4.\<close>

definition cmap_314_then_31012_glyph_4 :: "byte list" where
  "cmap_314_then_31012_glyph_4 =
     [0, 0, 0, 2,   0, 3, 0, 1, 0, 0, 0, 20,   0, 3, 0, 10, 0, 0, 0, 52,
      0, 4,  0, 32,  0, 0,  0, 4,  0, 4,  0, 1,  0, 0,
      0, 0x43,  0xFF, 0xFF,   0, 0,   0, 0x41,  0xFF, 0xFF,
      0xFF, 0xBF,  0, 1,   0, 0,  0, 0,
      0, 12, 0, 0,  0, 0, 0, 28,  0, 0, 0, 0,  0, 0, 0, 1,
      0, 0, 0, 0x20,  0, 0, 0, 0x20,  0, 0, 0, 4]"

text \<open>Two tables of a little more than \<open>2 ^ 30\<close> bytes, each with the single record
  (2, 0).  In the first the record's offset is \<open>2 ^ 30 = 0x40000000\<close>, where a format-0
  header of length 0 stands.  In the second the record is at offset 12, a format-14 header
  whose length field is \<open>2 ^ 30\<close>.\<close>

definition cmap_offset_1GB :: "byte list" where
  "cmap_offset_1GB = [0, 0, 0, 1,  0, 2, 0, 0,  0x40, 0, 0, 0] @ replicate 1073741816 0"

definition cmap_length_1GB :: "byte list" where
  "cmap_length_1GB = [0, 0, 0, 1,  0, 2, 0, 0,  0, 0, 0, 12,  0, 14,  0x40, 0, 0, 0] @
     replicate 1073741818 0"

text \<open>A parsed cmap that holds the same format-4 subtable in the 3,0,4 and the 3,1,4
  slot, two format-12 groups, one format-13 group and a format-0 vector of four entries
  (shorter than the 256 that line 819 writes); a font object holding it; and an
  empty stream of capacity 4096.\<close>

definition subtable_4_two_segments :: "byte list" where
  "subtable_4_two_segments =
     [0, 4,  0, 32,  0, 0,  0, 4,  0, 4,  0, 1,  0, 0,
      0, 0x43,  0xFF, 0xFF,   0, 0,   0, 0x41,  0xFF, 0xFF,
      0xFF, 0xBF,  0, 1,   0, 0,  0, 0]"

definition parsed_cmap_example :: OpenTypeCMAP where
  "parsed_cmap_example =
     \<lparr>subtable_0_5_14 = None,
      subtable_3_0_4 = Some subtable_4_two_segments,
      subtable_3_1_4 = Some subtable_4_two_segments,
      subtable_3_10_12 = [\<lparr>start_range = 0x20, end_range = 0x7E, start_glyph_id = 1\<rparr>,
                          \<lparr>start_range = 0x80, end_range = 0xFF, start_glyph_id = 96\<rparr>],
      subtable_3_10_13 = [\<lparr>start_range = 0x20, end_range = 0x7E, start_glyph_id = 1\<rparr>],
      subtable_1_0_0 = [1, 2, 3, 4]\<rparr>"

definition font_parsed_example :: OpenTypeFile where
  "font_parsed_example = \<lparr>cmap = Some parsed_cmap_example, maxp = None, os2 = None\<rparr>"

definition empty_stream :: OTSStream where
  "empty_stream = \<lparr>contents = [], position = 0, limit = 4096, chksum_input = []\<rparr>"

subsection \<open>Closed forms of the loops of \<open>ots_cmap_parse\<close>\<close>

text \<open>The definitions of this subsection and the next do not model further code.  They
  name what the loops of \<open>ots_cmap_parse\<close> compute and what the serialiser lays out,
  for the proof that a serialised table is parsed again; each is proved below to agree with
  the loop it describes (\<open>check_offsets_list\<close>, \<open>read_formats_list\<close>,
  \<open>check_lengths_list\<close>, \<open>collect_extents_list\<close>, \<open>parse_directory_eq\<close>,
  \<open>parse_subtables_list\<close>).\<close>

text \<open>The id \<open>(platform << 16) + encoding\<close> of line 571, and the checks of lines 564 to
  569 on the offset of one record.\<close>

definition header_id :: "CMAPSubtableHeader \<Rightarrow> nat" where
  "header_id h = platform h * 65536 + encoding h"

definition offset_ok :: "nat \<Rightarrow> nat \<Rightarrow> CMAPSubtableHeader \<Rightarrow> bool" where
  "offset_ok data_offset len h =
     (\<not> hoffset h > 1024 * 1024 * 1024 \<and> \<not> (hoffset h < data_offset \<or> hoffset h \<ge> len))"

text \<open>What lines 583 to 616 store in one header, and when their reads succeed.\<close>

definition set_format :: "byte list \<Rightarrow> CMAPSubtableHeader \<Rightarrow> CMAPSubtableHeader" where
  "set_format d h =
     (let fmt = be16 d (hoffset h) in
      h\<lparr>format := fmt,
        hlength := (if fmt = 0 \<or> fmt = 4 then be16 d (hoffset h + 2)
                    else if fmt = 12 \<or> fmt = 13 then be32 d (hoffset h + 4)
                    else if fmt = 14 then be32 d (hoffset h + 2)
                    else 0)\<rparr>)"

definition readable :: "byte list \<Rightarrow> CMAPSubtableHeader \<Rightarrow> bool" where
  "readable d h =
     (let fmt = be16 d (hoffset h) in
      hoffset h + 2 \<le> length d \<and>
      (fmt = 0 \<or> fmt = 4 \<longrightarrow> hoffset h + 4 \<le> length d) \<and>
      (fmt = 12 \<or> fmt = 13 \<longrightarrow> hoffset h + 8 \<le> length d) \<and>
      (fmt = 14 \<longrightarrow> hoffset h + 6 \<le> length d))"

text \<open>The checks of lines 619 to 631 on one header.\<close>

definition length_ok :: "nat \<Rightarrow> CMAPSubtableHeader \<Rightarrow> bool" where
  "length_ok len h =
     (hlength h = 0 \<or>
      (\<not> hlength h > 1024 * 1024 * 1024 \<and> \<not> (hoffset h + hlength h) mod 2 ^ 32 > len))"

text \<open>The pair that lines 640 to 647 look up in \<open>uniq_checker\<close>, the start and end events
  that they push for a list of such pairs, and pairs that follow one another from position
  \<open>p\<close> on, none of them empty.\<close>

definition extent :: "CMAPSubtableHeader \<Rightarrow> nat \<times> nat" where
  "extent h = (hoffset h, (hoffset h + hlength h) mod 2 ^ 32)"

definition events :: "(nat \<times> nat) list \<Rightarrow> (nat \<times> nat) list" where
  "events xs = concat (map (\<lambda>(a, b). [(a, 1), (b, 0)]) xs)"

fun chained :: "nat \<Rightarrow> (nat \<times> nat) list \<Rightarrow> bool" where
  "chained p [] = True"
| "chained p ((a, b) # xs) = (p \<le> a \<and> a < b \<and> chained b xs)"

text \<open>The headers that lines 547 to 557 read from a table with \<open>n\<close> records, and all the
  checks of lines 526 to 660 on a table: \<open>parse_directory\<close> succeeds exactly on the
  tables that pass them, in a font with a \<open>maxp\<close> table (\<open>parse_directory_eq\<close>).\<close>

definition dir_headers :: "byte list \<Rightarrow> nat \<Rightarrow> CMAPSubtableHeader list" where
  "dir_headers d n = map (\<lambda>j. header_at d (4 + 8 * j)) [0..<n]"

definition directory_ok :: "byte list \<Rightarrow> bool" where
  "directory_ok d =
     (let n = be16 d 2; hs0 = dir_headers d n; hs = map (set_format d) hs0 in
      4 \<le> length d \<and> be16 d 0 = 0 \<and> n \<noteq> 0 \<and> 4 + 8 * n \<le> length d \<and>
      (\<forall>h \<in> set hs0. offset_ok (4 + 8 * n) (length d) h) \<and>
      sorted_wrt (<) (map header_id hs0) \<and>
      (\<forall>h \<in> set hs0. readable d h) \<and>
      (\<forall>h \<in> set hs. length_ok (length d) h) \<and>
      count_overlap 0 (sort (collect_extents 0 n hs {} [])) 0)"

text \<open>The loop of lines 690 to 770 on a list of headers.\<close>

fun parse_list :: "CMAPSubtableHeader list \<Rightarrow> byte list \<Rightarrow> nat \<Rightarrow> OpenTypeFile
    \<Rightarrow> bool \<times> OpenTypeFile" where
  "parse_list [] d g fl = (True, fl)"
| "parse_list (h # hs) d g fl =
     (case parse_subtable h d g fl of
        (ok, fl') \<Rightarrow> if \<not> ok then (False, fl') else parse_list hs d g fl')"

subsection \<open>What a successful parse leaves\<close>

text \<open>An opaque slice of format 4 or 14 that starts with its format and whose length field
  is its length: the directory of \<open>ots_cmap_parse\<close> cut it out by these fields.\<close>

definition slot_ok_4 :: "byte list \<Rightarrow> bool" where
  "slot_ok_4 s = (4 \<le> length s \<and> be16 s 0 = 4 \<and> be16 s 2 = length s)"

definition slot_ok_14 :: "byte list \<Rightarrow> bool" where
  "slot_ok_14 s = (6 \<le> length s \<and> be16 s 0 = 14 \<and> be32 s 2 = length s \<and>
     \<not> length s > 1024 * 1024 * 1024)"

text \<open>Two invariants of the dispatch loop: every opaque slice is of this kind and the
  format-12 vector is not longer than \<open>kMaxCMAPGroups\<close>; the format-0 vector is empty,
  or has 256 entries and a (1, 0) record was met (its id is 65536).\<close>

definition slots_ok :: "OpenTypeFile \<Rightarrow> bool" where
  "slots_ok fl =
     (cmap fl \<noteq> None \<and>
      (\<forall>s. subtable_3_0_4 (the_cmap fl) = Some s \<longrightarrow> slot_ok_4 s) \<and>
      (\<forall>s. subtable_3_1_4 (the_cmap fl) = Some s \<longrightarrow> slot_ok_4 s) \<and>
      (\<forall>s. subtable_0_5_14 (the_cmap fl) = Some s \<longrightarrow> slot_ok_14 s) \<and>
      length (subtable_3_10_12 (the_cmap fl)) \<le> kMaxCMAPGroups)"

definition glyphs_ok :: "nat \<Rightarrow> CMAPSubtableHeader list \<Rightarrow> OpenTypeFile \<Rightarrow> bool" where
  "glyphs_ok j hs fl =
     (cmap fl \<noteq> None \<and>
      (subtable_1_0_0 (the_cmap fl) = [] \<or>
       (length (subtable_1_0_0 (the_cmap fl)) = kFormat0ArraySize \<and>
        (\<exists>k<j. header_id (hs ! k) = 65536))))"

text \<open>A subtable body as the serialiser writes it or copies it: its format and its length
  field, at the place where the parser of the directory reads them.\<close>

definition body_ok :: "nat \<Rightarrow> byte list \<Rightarrow> bool" where
  "body_ok fmt body =
     (\<not> length body > 1024 * 1024 * 1024 \<and>
      ((fmt = 0 \<or> fmt = 4) \<and> 4 \<le> length body \<and> be16 body 0 = fmt \<and> be16 body 2 = length body \<or>
       fmt = 12 \<and> 8 \<le> length body \<and> be16 body 0 = 12 \<and> be32 body 4 = length body \<or>
       fmt = 14 \<and> 6 \<le> length body \<and> be16 body 0 = 14 \<and> be32 body 2 = length body))"

text \<open>A parsed cmap that the serialiser writes as a table the parser reads again: the two
  invariants above, no format-13 groups, and a 3,0,4 or a 3,1,4 slice.\<close>

definition layout_ok :: "OpenTypeCMAP \<Rightarrow> bool" where
  "layout_ok c =
     ((\<forall>s. subtable_3_0_4 c = Some s \<longrightarrow> slot_ok_4 s) \<and>
      (\<forall>s. subtable_3_1_4 c = Some s \<longrightarrow> slot_ok_4 s) \<and>
      (\<forall>s. subtable_0_5_14 c = Some s \<longrightarrow> slot_ok_14 s) \<and>
      length (subtable_3_10_12 c) \<le> kMaxCMAPGroups \<and>
      (subtable_1_0_0 c = [] \<or> length (subtable_1_0_0 c) = kFormat0ArraySize) \<and>
      subtable_3_10_13 c = [] \<and>
      (subtable_3_0_4 c \<noteq> None \<or> subtable_3_1_4 c \<noteq> None))"

text \<open>The body \<open>body\<close> of format \<open>fmt\<close> stands at offset \<open>off\<close> of the table
  \<open>T\<close>, behind the directory that ends at \<open>doff\<close>.\<close>

definition placed :: "byte list \<Rightarrow> nat \<Rightarrow> nat \<Rightarrow> nat \<Rightarrow> byte list \<Rightarrow> bool" where
  "placed T doff off fmt body =
     (slice T off (length body) = body \<and> off + length body \<le> length T \<and> body_ok fmt body \<and>
      \<not> off > 1024 * 1024 * 1024 \<and> doff \<le> off)"

text \<open>The headers that the parser of the directory computes from a serialised table
  (\<open>reparse_directory\<close>).\<close>

definition headers :: "OpenTypeCMAP \<Rightarrow> CMAPSubtableHeader list" where
  "headers c =
     (if subtable_0_5_14 c \<noteq> None
      then [\<lparr>platform = 0, encoding = 5, hoffset = offset_0514 c, format = 14,
             hlength = length (body_0514 c)\<rparr>] else []) @
     (if subtable_1_0_0 c \<noteq> []
      then [\<lparr>platform = 1, encoding = 0, hoffset = offset_100 c, format = 0,
             hlength = length (body_100 c)\<rparr>] else []) @
     (if subtable_3_0_4 c \<noteq> None
      then [\<lparr>platform = 3, encoding = 0, hoffset = offset_304 c, format = 4,
             hlength = length (body_304 c)\<rparr>] else []) @
     (if subtable_3_0_4 c = None \<and> subtable_3_1_4 c \<noteq> None
      then [\<lparr>platform = 3, encoding = 1, hoffset = offset_314 c, format = 4,
             hlength = length (body_314 c)\<rparr>] else []) @
     (if subtable_3_10_12 c \<noteq> []
      then [\<lparr>platform = 3, encoding = 10, hoffset = offset_31012 c, format = 12,
             hlength = length (body_31012 c)\<rparr>] else [])"

subsection \<open>Inputs for the round trip\<close>

text \<open>A table whose records (3, 0) and (3, 1) share one format-4 subtable at offset 20, the
  font object after it was parsed in the font of three glyphs, and the table that the
  serialiser writes for it: the single record (3, 0) at offset 12 and the same subtable.\<close>

definition cmap_304_and_314 :: "byte list" where
  "cmap_304_and_314 =
     [0, 0, 0, 2,   0, 3, 0, 0, 0, 0, 0, 20,   0, 3, 0, 1, 0, 0, 0, 20,
      0, 4,  0, 32,  0, 0,  0, 4,  0, 4,  0, 1,  0, 0,
      0, 0x43,  0xFF, 0xFF,   0, 0,   0, 0x41,  0xFF, 0xFF,
      0xFF, 0xBF,  0, 1,   0, 0,  0, 0]"

definition font_parsed_304_314 :: OpenTypeFile where
  "font_parsed_304_314 = font_3_glyphs_os2\<lparr>cmap := Some (new_OpenTypeCMAP\<lparr>
     subtable_3_0_4 := Some subtable_4_two_segments,
     subtable_3_1_4 := Some subtable_4_two_segments\<rparr>)\<rparr>"

definition cmap_304_serialised :: "byte list" where
  "cmap_304_serialised =
     [0, 0, 0, 1,   0, 3, 0, 0, 0, 0, 0, 12,
      0, 4,  0, 32,  0, 0,  0, 4,  0, 4,  0, 1,  0, 0,
      0, 0x43,  0xFF, 0xFF,   0, 0,   0, 0x41,  0xFF, 0xFF,
      0xFF, 0xBF,  0, 1,   0, 0,  0, 0]"

text \<open>A font object with five glyphs and an \<open>OS/2\<close> table, and this object after the
  table with a (3, 1) format-4 and a (3, 10) format-12 subtable was parsed.\<close>

definition font_5_glyphs_os2 :: OpenTypeFile where
  "font_5_glyphs_os2 = \<lparr>cmap = None, maxp = Some \<lparr>maxp_num_glyphs = 5\<rparr>,
     os2 = Some \<lparr>first_char_index = 0x20, last_char_index = 0xFF\<rparr>\<rparr>"

definition font_parsed_314_31012 :: OpenTypeFile where
  "font_parsed_314_31012 = font_5_glyphs_os2\<lparr>cmap := Some (new_OpenTypeCMAP\<lparr>
     subtable_3_1_4 := Some subtable_4_two_segments,
     subtable_3_10_12 := [\<lparr>start_range = 0x20, end_range = 0x20, start_glyph_id = 4\<rparr>]\<rparr>)\<rparr>"

section \<open>Properties\<close>

subsection \<open>Evaluation rules\<close>

lemmas reader_defs = new_Buffer_def Skip_def set_offset_def ReadU8_def ReadU16_def ReadS16_def
  ReadU24_def ReadU32_def be16_def be24_def be32_def failure_if_def slice_def

lemmas const_defs = kMaxCMAPGroups_def kFormat0ArraySize_def kUnicodeUpperLimit_def
  new_OpenTypeCMAP_def zero_OpenTypeCMAPSubtableRange_def zero_Subtable314Range_def
  the_cmap_def upd_cmap_def resize_def

lemmas directory_simps = read_subtable_headers.simps check_offsets.simps read_formats.simps
  check_lengths.simps collect_extents.simps count_overlap.simps parse_subtables.simps
  parse_subtable_def parse_directory_def ots_cmap_parse_def

subsection \<open>The binary logarithm of the segment count\<close>



text \<open>The spec's exponent in its quantified wording.\<close>

lemma spec_largest_k_iff:
  "spec_largest_k k s \<longleftrightarrow> 2 ^ (k + 1) \<le> s \<and> (\<forall>j. 2 ^ (j + 1) \<le> s \<longrightarrow> j \<le> k)"
proof
  assume a: "spec_largest_k k s"
  have "j \<le> k" if "2 ^ (j + 1) \<le> s" for j
  proof (rule ccontr)
    assume "\<not> j \<le> k"
    then have "k + 2 \<le> j + 1" by simp
    then have "(2::nat) ^ (k + 2) \<le> 2 ^ (j + 1)" by (intro power_increasing) simp_all
    with that a show False by (simp add: spec_largest_k_def)
  qed
  with a show "2 ^ (k + 1) \<le> s \<and> (\<forall>j. 2 ^ (j + 1) \<le> s \<longrightarrow> j \<le> k)"
    by (simp add: spec_largest_k_def)
next
  assume a: "2 ^ (k + 1) \<le> s \<and> (\<forall>j. 2 ^ (j + 1) \<le> s \<longrightarrow> j \<le> k)"
  have "\<not> 2 ^ (k + 2) \<le> s"
  proof
    assume "2 ^ (k + 2) \<le> s"
    then have "2 ^ ((k + 1) + 1) \<le> s" by (simp add: numeral_2_eq_2)
    with a have "k + 1 \<le> k" by blast
    then show False by simp
  qed
  with a show "spec_largest_k k s" by (simp add: spec_largest_k_def)
qed




subsection \<open>The parsed cmap is never released by the parser\<close>

lemma cmap_upd_cmap [simp]: "cmap (upd_cmap f fl) = map_option f (cmap fl)"
  by (simp add: upd_cmap_def)

lemma Parse3x4_keeps_cmap:
  "cmap fl \<noteq> None \<Longrightarrow> cmap (snd (Parse3x4 fl enc d n)) \<noteq> None"
  by (simp add: Parse3x4_def Let_def split: option.splits prod.splits)

lemma Parse31012_keeps_cmap:
  "cmap fl \<noteq> None \<Longrightarrow> cmap (snd (Parse31012 fl d n)) \<noteq> None"
  by (simp add: Parse31012_def Let_def split: option.splits prod.splits)

lemma Parse31013_keeps_cmap:
  "cmap fl \<noteq> None \<Longrightarrow> cmap (snd (Parse31013 fl d n)) \<noteq> None"
  by (simp add: Parse31013_def Let_def split: option.splits prod.splits)

lemma Parse0514_keeps_cmap:
  "cmap fl \<noteq> None \<Longrightarrow> cmap (snd (Parse0514 fl d n)) \<noteq> None"
  by (simp add: Parse0514_def Let_def split: option.splits prod.splits)

lemma Parse100_keeps_cmap:
  "cmap fl \<noteq> None \<Longrightarrow> cmap (snd (Parse100 fl d)) \<noteq> None"
  by (simp add: Parse100_def Let_def split: option.splits prod.splits)

lemmas keeps_cmap = Parse3x4_keeps_cmap Parse31012_keeps_cmap Parse31013_keeps_cmap
  Parse0514_keeps_cmap Parse100_keeps_cmap

text \<open>The dispatch runs at most one parser, possibly after clearing a group array.\<close>

lemma parse_subtable_cases:
  assumes "P (True, fl)"
    and "\<And>e. e = 0 \<or> e = 1 \<Longrightarrow> P (Parse3x4 fl e (slice d (hoffset h) (hlength h)) g)"
    and "P (Parse31012 fl (slice d (hoffset h) (hlength h)) g)"
    and "P (Parse31012 (upd_cmap (\<lambda>c. c\<lparr>subtable_3_10_12 := []\<rparr>) fl)
              (slice d (hoffset h) (hlength h)) g)"
    and "P (Parse31013 (upd_cmap (\<lambda>c. c\<lparr>subtable_3_10_13 := []\<rparr>) fl)
              (slice d (hoffset h) (hlength h)) g)"
    and "P (Parse0514 fl (slice d (hoffset h) (hlength h)) g)"
    and "P (Parse100 fl (slice d (hoffset h) (hlength h)))"
  shows "P (parse_subtable h d g fl)"
  unfolding parse_subtable_def Let_def using assms by simp

lemma parse_subtable_keeps_cmap:
  "cmap fl \<noteq> None \<Longrightarrow> cmap (snd (parse_subtable h d g fl)) \<noteq> None"
  by (rule parse_subtable_cases) (simp_all add: keeps_cmap)

lemma parse_subtables_keeps_cmap:
  "cmap fl \<noteq> None \<Longrightarrow> cmap (snd (parse_subtables i n hs d g fl)) \<noteq> None"
proof (induction i n hs d g fl rule: parse_subtables.induct)
  case (1 i n hs d g fl)
  show ?case
  proof (cases "i < n")
    case False
    then show ?thesis using "1.prems" by (subst parse_subtables.simps) simp
  next
    case True
    obtain ok fl' where step: "parse_subtable (hs ! i) d g fl = (ok, fl')"
      by (cases "parse_subtable (hs ! i) d g fl")
    have fl': "cmap fl' \<noteq> None"
      using parse_subtable_keeps_cmap [OF "1.prems", of "hs ! i" d g] step by simp
    show ?thesis
    proof (cases ok)
      case False
      then show ?thesis using True step fl' by (subst parse_subtables.simps) simp
    next
      case ok: True
      have "cmap (snd (parse_subtables (i + 1) n hs d g fl')) \<noteq> None"
        using "1.IH" [OF True step [symmetric]] ok fl' by simp
      then show ?thesis using True step ok by (subst parse_subtables.simps) simp
    qed
  qed
qed

text \<open>
  Claim C10.  After any call of \<open>ots_cmap_parse\<close>, whether it returns success or failure,
  \<open>ots_cmap_should_serialise\<close> returns true: the \<open>OpenTypeCMAP\<close> is allocated before any
  check and no path of the parser releases it.
\<close>

theorem should_serialise_after_parse:
  "ots_cmap_should_serialise (snd (ots_cmap_parse fl data))"
proof -
  have "cmap (fl\<lparr>cmap := Some new_OpenTypeCMAP\<rparr>) \<noteq> None" by simp
  then have "cmap (snd (parse_subtables 0 n hs data g (fl\<lparr>cmap := Some new_OpenTypeCMAP\<rparr>))) \<noteq> None"
    for n hs g by (rule parse_subtables_keeps_cmap)
  then show ?thesis
    unfolding ots_cmap_should_serialise_def ots_cmap_parse_def Let_def
    by (simp split: option.split prod.split)
qed

text \<open>The theorem on the empty input, where the parser fails on its first read.\<close>

theorem should_serialise_after_parse_witness:
  "\<not> fst (ots_cmap_parse \<lparr>cmap = None, maxp = None, os2 = None\<rparr> []) \<and>
   ots_cmap_should_serialise (snd (ots_cmap_parse \<lparr>cmap = None, maxp = None, os2 = None\<rparr> []))"
  using should_serialise_after_parse [of "\<lparr>cmap = None, maxp = None, os2 = None\<rparr>" "[]"]
  by (simp add: ots_cmap_parse_def parse_directory_def reader_defs)

subsection \<open>The groups of format 12\<close>

lemma read_groups_31012_ok:
  "read_groups_31012 i n b gs ng = (True, gs') \<Longrightarrow> length gs = n \<Longrightarrow>
   length gs' = n \<and> (\<forall>j<i. gs' ! j = gs ! j) \<and>
   (\<forall>j. i \<le> j \<and> j < n \<longrightarrow> group_ok_31012 ng (gs' ! j))"
proof (induction "n - i" arbitrary: i b gs)
  case 0
  then have "\<not> i < n" by simp
  with "0.prems" show ?case by (auto simp: read_groups_31012.simps)
next
  case (Suc k)
  then have lt: "i < n" by simp
  from Suc.prems(1) lt obtain v1 b1 v2 b2 v3 b3 where
    r1: "ReadU32 b = Some (v1, b1)" and r2: "ReadU32 b1 = Some (v2, b2)"
    and r3: "ReadU32 b2 = Some (v3, b3)"
    by (subst (asm) read_groups_31012.simps) (auto simp: Let_def split: option.splits)
  define g where "g = (gs ! i)\<lparr>start_range := v1, end_range := v2, start_glyph_id := v3\<rparr>"
  have gi: "gs[i := g] ! i = g" using lt Suc.prems(2) by simp
  have unfolded: "read_groups_31012 i n b gs ng =
     (if start_range g > kUnicodeUpperLimit \<or> end_range g > kUnicodeUpperLimit \<or>
         start_glyph_id g > 0xFFFF then (False, gs[i := g])
      else if start_range g \<ge> 0xD800 \<and> start_range g \<le> 0xDFFF then (False, gs[i := g])
      else if end_range g \<ge> 0xD800 \<and> end_range g \<le> 0xDFFF then (False, gs[i := g])
      else if start_range g < 0xD800 \<and> end_range g > 0xDFFF then (False, gs[i := g])
      else if end_range g < start_range g then (False, gs[i := g])
      else if (end_range g - start_range g) + start_glyph_id g > ng then (False, gs[i := g])
      else read_groups_31012 (i + 1) n b3 (gs[i := g]) ng)"
    using lt Suc.prems(2) r1 r2 r3
    by (subst read_groups_31012.simps) (simp add: Let_def g_def)
  have ok: "group_ok_31012 ng g"
    using Suc.prems(1) unfolding unfolded group_ok_31012_def
    by (simp split: if_splits)
  have rec: "read_groups_31012 (i + 1) n b3 (gs[i := g]) ng = (True, gs')"
    using Suc.prems(1) unfolding unfolded
    by (simp split: if_splits)
  have "k = n - (i + 1)" using Suc.hyps(2) by simp
  from Suc.hyps(1) [OF this rec] Suc.prems(2)
  have ih: "length gs' = n" "\<forall>j<i + 1. gs' ! j = gs[i := g] ! j"
    "\<forall>j. i + 1 \<le> j \<and> j < n \<longrightarrow> group_ok_31012 ng (gs' ! j)"
    by simp_all
  have a: "\<forall>j<i. gs' ! j = gs ! j" using ih(2) by simp
  have "gs' ! i = g" using ih(2) gi by simp
  then have "group_ok_31012 ng (gs' ! j)" if "i \<le> j" "j < n" for j
    using that ih(3) ok by (cases "j = i") simp_all
  with ih(1) a show ?case by blast
qed

lemma check_groups_sorted:
  "check_groups i n gs \<Longrightarrow> \<forall>j. i \<le> j \<and> j < n \<longrightarrow>
     start_range (gs ! (j - 1)) < start_range (gs ! j) \<and>
     end_range (gs ! (j - 1)) < start_range (gs ! j)"
proof (induction "n - i" arbitrary: i)
  case 0
  then show ?case by simp
next
  case (Suc k)
  then have lt: "i < n" by simp
  from Suc.prems lt have here: "start_range (gs ! (i - 1)) < start_range (gs ! i)"
      "end_range (gs ! (i - 1)) < start_range (gs ! i)"
    and rec: "check_groups (i + 1) n gs"
    by (subst (asm) check_groups.simps; simp split: if_splits)+
  have "k = n - (i + 1)" using Suc.hyps(2) by simp
  from Suc.hyps(1) [OF this rec] have ih: "\<forall>j. i + 1 \<le> j \<and> j < n \<longrightarrow>
     start_range (gs ! (j - 1)) < start_range (gs ! j) \<and>
     end_range (gs ! (j - 1)) < start_range (gs ! j)" .
  show ?case
  proof (intro allI impI)
    fix j assume "i \<le> j \<and> j < n"
    then show "start_range (gs ! (j - 1)) < start_range (gs ! j) \<and>
     end_range (gs ! (j - 1)) < start_range (gs ! j)"
      using here ih by (cases "j = i") simp_all
  qed
qed

lemma length_resize [simp]: "length (resize n gs) = n"
  by (simp add: resize_def)

lemma the_cmap_upd_cmap:
  "cmap fl \<noteq> None \<Longrightarrow> the_cmap (upd_cmap f fl) = f (the_cmap fl)"
  by (auto simp: the_cmap_def upd_cmap_def)

lemma Parse31012_result:
  assumes "Parse31012 fl d ng = (True, fl')"
  shows "\<exists>gs. fl' = upd_cmap (\<lambda>c. c\<lparr>subtable_3_10_12 := gs\<rparr>) fl \<and> groups_ok_31012 ng gs \<and>
     1 \<le> length gs \<and> length gs \<le> kMaxCMAPGroups"
proof -
  from assms obtain n b where hd: "Skip 8 (new_Buffer d) \<bind> (\<lambda>s1. ReadU32 s1 \<bind>
      (\<lambda>(language, s2). failure_if (language \<noteq> 0) \<bind>
      (\<lambda>_. ReadU32 s2 \<bind> (\<lambda>(num_groups, s3).
         failure_if (num_groups = 0 \<or> num_groups > kMaxCMAPGroups) \<bind>
      (\<lambda>_. Some (num_groups, s3)))))) = Some (n, b)"
    unfolding Parse31012_def by (auto split: option.splits)
  then have n: "1 \<le> n" "n \<le> kMaxCMAPGroups"
    by (auto simp: failure_if_def split: Option.bind_splits if_splits)
  obtain ok gs where rd: "read_groups_31012 0 n b (resize n (subtable_3_10_12 (the_cmap fl))) ng
      = (ok, gs)"
    by (cases "read_groups_31012 0 n b (resize n (subtable_3_10_12 (the_cmap fl))) ng")
  from assms hd rd have ok: "ok" and ch: "check_groups 1 n gs"
    and fl': "fl' = upd_cmap (\<lambda>c. c\<lparr>subtable_3_10_12 := gs\<rparr>) fl"
    unfolding Parse31012_def by (auto simp: Let_def split: if_splits)
  from read_groups_31012_ok [of 0 n b _ ng gs] rd ok
  have len: "length gs = n" and each: "\<forall>j<n. group_ok_31012 ng (gs ! j)"
    by simp_all
  from check_groups_sorted [OF ch] len each n fl' show ?thesis
    by (intro exI [of _ gs]) (simp add: groups_ok_31012_def)
qed

text \<open>An invariant of the dispatch loop.\<close>

lemma parse_subtables_induct:
  assumes init: "I i fl" and le: "i \<le> n"
    and step: "\<And>j fl ok fl'. i \<le> j \<Longrightarrow> j < n \<Longrightarrow> I j fl \<Longrightarrow>
        parse_subtable (hs ! j) d g fl = (ok, fl') \<Longrightarrow> (ok \<longrightarrow> I (j + 1) fl') \<and> (\<not> ok \<longrightarrow> F fl')"
    and res: "parse_subtables i n hs d g fl = (ok, fl')"
  shows "(ok \<longrightarrow> I n fl') \<and> (\<not> ok \<longrightarrow> F fl')"
  using init le step res
proof (induction "n - i" arbitrary: i fl)
  case 0
  then have "i = n" by simp
  with "0.prems" show ?case by (simp add: parse_subtables.simps)
next
  case (Suc k)
  then have lt: "i < n" by simp
  obtain ok1 fl1 where s1: "parse_subtable (hs ! i) d g fl = (ok1, fl1)"
    by (cases "parse_subtable (hs ! i) d g fl")
  from Suc.prems(3) [OF le_refl lt Suc.prems(1) s1]
  have st: "ok1 \<longrightarrow> I (i + 1) fl1" "\<not> ok1 \<longrightarrow> F fl1" by simp_all
  show ?case
  proof (cases ok1)
    case False
    with Suc.prems(4) lt s1 have "ok = False" "fl' = fl1"
      by (subst (asm) parse_subtables.simps; simp)+
    with st False show ?thesis by simp
  next
    case True
    with Suc.prems(4) lt s1 have rec: "parse_subtables (i + 1) n hs d g fl1 = (ok, fl')"
      by (subst (asm) parse_subtables.simps) simp
    have k: "k = n - (i + 1)" using Suc.hyps(2) by simp
    have st': "(ok \<longrightarrow> I (j + 1) fl') \<and> (\<not> ok \<longrightarrow> F fl')"
      if "i + 1 \<le> j" "j < n" "I j fl" "parse_subtable (hs ! j) d g fl = (ok, fl')"
      for j fl ok fl'
      using Suc.prems(3) [of j fl ok fl'] that by simp
    from st True have "I (i + 1) fl1" by simp
    from Suc.hyps(1) [OF k this _ st' rec] lt show ?thesis by simp
  qed
qed

lemma the_cmap_os2_update [simp]: "the_cmap (fl\<lparr>os2 := x\<rparr>) = the_cmap fl"
  by (simp add: the_cmap_def)

lemma cmap_Parse3x4:
  "cmap fl \<noteq> None \<Longrightarrow> Parse3x4 fl e d g = (ok, fl') \<Longrightarrow>
   subtable_3_10_12 (the_cmap fl') = subtable_3_10_12 (the_cmap fl) \<and>
   subtable_3_10_13 (the_cmap fl') = subtable_3_10_13 (the_cmap fl) \<and>
   subtable_1_0_0 (the_cmap fl') = subtable_1_0_0 (the_cmap fl) \<and>
   subtable_0_5_14 (the_cmap fl') = subtable_0_5_14 (the_cmap fl)"
  by (auto simp: Parse3x4_def Let_def the_cmap_def upd_cmap_def split: option.splits prod.splits if_splits)

lemma cmap_Parse31013:
  "cmap fl \<noteq> None \<Longrightarrow> Parse31013 fl d g = (ok, fl') \<Longrightarrow>
   subtable_3_10_12 (the_cmap fl') = subtable_3_10_12 (the_cmap fl) \<and>
   subtable_3_0_4 (the_cmap fl') = subtable_3_0_4 (the_cmap fl) \<and>
   subtable_3_1_4 (the_cmap fl') = subtable_3_1_4 (the_cmap fl) \<and>
   subtable_1_0_0 (the_cmap fl') = subtable_1_0_0 (the_cmap fl) \<and>
   subtable_0_5_14 (the_cmap fl') = subtable_0_5_14 (the_cmap fl)"
  by (auto simp: Parse31013_def Let_def the_cmap_def upd_cmap_def split: option.splits prod.splits if_splits)

lemma cmap_Parse0514:
  "cmap fl \<noteq> None \<Longrightarrow> Parse0514 fl d g = (ok, fl') \<Longrightarrow>
   subtable_3_10_12 (the_cmap fl') = subtable_3_10_12 (the_cmap fl) \<and>
   subtable_3_10_13 (the_cmap fl') = subtable_3_10_13 (the_cmap fl) \<and>
   subtable_3_0_4 (the_cmap fl') = subtable_3_0_4 (the_cmap fl) \<and>
   subtable_3_1_4 (the_cmap fl') = subtable_3_1_4 (the_cmap fl) \<and>
   subtable_1_0_0 (the_cmap fl') = subtable_1_0_0 (the_cmap fl)"
  by (auto simp: Parse0514_def Let_def the_cmap_def upd_cmap_def split: option.splits prod.splits if_splits)

lemma cmap_Parse100:
  "cmap fl \<noteq> None \<Longrightarrow> Parse100 fl d = (ok, fl') \<Longrightarrow>
   subtable_3_10_12 (the_cmap fl') = subtable_3_10_12 (the_cmap fl) \<and>
   subtable_3_10_13 (the_cmap fl') = subtable_3_10_13 (the_cmap fl) \<and>
   subtable_3_0_4 (the_cmap fl') = subtable_3_0_4 (the_cmap fl) \<and>
   subtable_3_1_4 (the_cmap fl') = subtable_3_1_4 (the_cmap fl) \<and>
   subtable_0_5_14 (the_cmap fl') = subtable_0_5_14 (the_cmap fl)"
  by (auto simp: Parse100_def Let_def the_cmap_def upd_cmap_def split: option.splits prod.splits if_splits)

lemma cmap_Parse31012:
  "cmap fl \<noteq> None \<Longrightarrow> Parse31012 fl d g = (ok, fl') \<Longrightarrow>
   subtable_3_10_13 (the_cmap fl') = subtable_3_10_13 (the_cmap fl) \<and>
   subtable_3_0_4 (the_cmap fl') = subtable_3_0_4 (the_cmap fl) \<and>
   subtable_3_1_4 (the_cmap fl') = subtable_3_1_4 (the_cmap fl) \<and>
   subtable_1_0_0 (the_cmap fl') = subtable_1_0_0 (the_cmap fl) \<and>
   subtable_0_5_14 (the_cmap fl') = subtable_0_5_14 (the_cmap fl)"
  by (auto simp: Parse31012_def Let_def the_cmap_def upd_cmap_def split: option.splits prod.splits if_splits)

lemma groups_ok_31012_Nil [simp]: "groups_ok_31012 g []"
  by (simp add: groups_ok_31012_def)

lemma parse_subtable_inv_31012:
  assumes "inv_31012 g fl" and "parse_subtable h d g fl = (True, fl')"
  shows "inv_31012 g fl'"
proof -
  have c: "cmap fl \<noteq> None" using assms(1) by (simp add: inv_31012_def)
  have c': "cmap fl' \<noteq> None"
    using parse_subtable_keeps_cmap [OF c, of h d g] assms(2) by simp
  have "parse_subtable h d g fl = (True, fl') \<longrightarrow>
      groups_ok_31012 g (subtable_3_10_12 (the_cmap fl'))"
  proof (rule parse_subtable_cases)
    show "(True, fl) = (True, fl') \<longrightarrow> groups_ok_31012 g (subtable_3_10_12 (the_cmap fl'))"
      using assms(1) by (auto simp: inv_31012_def)
  next
    fix e :: nat
    show "Parse3x4 fl e (slice d (hoffset h) (hlength h)) g = (True, fl') \<longrightarrow>
        groups_ok_31012 g (subtable_3_10_12 (the_cmap fl'))"
      using assms(1) cmap_Parse3x4 [OF c] by (auto simp: inv_31012_def)
  next
    show "Parse31012 fl (slice d (hoffset h) (hlength h)) g = (True, fl') \<longrightarrow>
        groups_ok_31012 g (subtable_3_10_12 (the_cmap fl'))"
      using c by (auto dest!: Parse31012_result simp: the_cmap_upd_cmap)
  next
    show "Parse31012 (upd_cmap (\<lambda>c. c\<lparr>subtable_3_10_12 := []\<rparr>) fl)
            (slice d (hoffset h) (hlength h)) g = (True, fl') \<longrightarrow>
        groups_ok_31012 g (subtable_3_10_12 (the_cmap fl'))"
      using c by (auto dest!: Parse31012_result simp: the_cmap_upd_cmap)
  next
    have "cmap (upd_cmap (\<lambda>c. c\<lparr>subtable_3_10_13 := []\<rparr>) fl) \<noteq> None" using c by simp
    from cmap_Parse31013 [OF this]
    show "Parse31013 (upd_cmap (\<lambda>c. c\<lparr>subtable_3_10_13 := []\<rparr>) fl)
            (slice d (hoffset h) (hlength h)) g = (True, fl') \<longrightarrow>
        groups_ok_31012 g (subtable_3_10_12 (the_cmap fl'))"
      using assms(1) c by (auto simp: inv_31012_def the_cmap_upd_cmap)
  next
    show "Parse0514 fl (slice d (hoffset h) (hlength h)) g = (True, fl') \<longrightarrow>
        groups_ok_31012 g (subtable_3_10_12 (the_cmap fl'))"
      using assms(1) cmap_Parse0514 [OF c] by (auto simp: inv_31012_def)
  next
    show "Parse100 fl (slice d (hoffset h) (hlength h)) = (True, fl') \<longrightarrow>
        groups_ok_31012 g (subtable_3_10_12 (the_cmap fl'))"
      using assms(1) cmap_Parse100 [OF c] by (auto simp: inv_31012_def)
  qed
  with assms(2) c' show ?thesis by (simp add: inv_31012_def)
qed

lemma ots_cmap_parse_inv_31012:
  assumes "ots_cmap_parse fl data = (True, fl')" and "maxp fl = Some m"
  shows "groups_ok_31012 (unat (maxp_num_glyphs m)) (subtable_3_10_12 (the_cmap fl'))"
proof -
  let ?fl = "fl\<lparr>cmap := Some new_OpenTypeCMAP\<rparr>"
  from assms(1) obtain n hs g where dir: "parse_directory ?fl data = Some (n, hs, g)"
    and sub: "parse_subtables 0 n hs data g ?fl = (True, fl')"
    unfolding ots_cmap_parse_def Let_def by (auto split: option.splits)
  from dir assms(2) have g: "g = unat (maxp_num_glyphs m)"
    unfolding parse_directory_def by (auto split: Option.bind_splits)
  have init: "inv_31012 g ?fl"
    by (simp add: inv_31012_def the_cmap_def new_OpenTypeCMAP_def)
  have "(True \<longrightarrow> inv_31012 g fl') \<and> (\<not> True \<longrightarrow> True)"
    by (rule parse_subtables_induct [where I = "\<lambda>_. inv_31012 g" and F = "\<lambda>_. True", OF init _ _ sub])
       (auto intro: parse_subtable_inv_31012)
  then show ?thesis by (simp add: inv_31012_def g)
qed

lemma groups_ok_31012_pairwise:
  assumes ok: "groups_ok_31012 n gs" and "i < j" and "j < length gs"
  shows "start_range (gs ! i) < start_range (gs ! j) \<and> end_range (gs ! i) < start_range (gs ! j)"
  using assms(2,3)
proof (induction j)
  case 0
  then show ?case by simp
next
  case (Suc j)
  from ok Suc.prems(2) have step: "start_range (gs ! j) < start_range (gs ! Suc j)"
      "end_range (gs ! j) < start_range (gs ! Suc j)"
    unfolding groups_ok_31012_def by (metis One_nat_def Suc_le_mono diff_Suc_1 zero_le)+
  show ?case
  proof (cases "i = j")
    case True
    with step show ?thesis by simp
  next
    case False
    with Suc.prems have "i < j" "j < length gs" by simp_all
    from Suc.IH [OF this] step show ?thesis by linarith
  qed
qed

text \<open>
  Claim C8.  Whenever \<open>ots_cmap_parse\<close> succeeds, every group stored in the 3,10,12 slot
  has \<open>start \<le> end\<close>, no endpoint in the surrogate range and no straddling of it,
  \<open>end \<le> 0x10FFFF\<close>, \<open>start_glyph_id \<le> 0xFFFF\<close> and
  \<open>(end - start) + start_glyph_id \<le> num_glyphs\<close>; and the groups are strictly
  increasing by start and pairwise non-overlapping: a later group starts after the end of
  every earlier one.
\<close>

theorem groups_31012_invariants:
  assumes "ots_cmap_parse fl data = (True, fl')" and "maxp fl = Some m"
  shows "(\<forall>g \<in> set (subtable_3_10_12 (the_cmap fl')).
            start_range g \<le> end_range g \<and>
            \<not> (0xD800 \<le> start_range g \<and> start_range g \<le> 0xDFFF) \<and>
            \<not> (0xD800 \<le> end_range g \<and> end_range g \<le> 0xDFFF) \<and>
            \<not> (start_range g < 0xD800 \<and> 0xDFFF < end_range g) \<and>
            end_range g \<le> 0x10FFFF \<and>
            start_glyph_id g \<le> 0xFFFF \<and>
            (end_range g - start_range g) + start_glyph_id g \<le> unat (maxp_num_glyphs m)) \<and>
         (\<forall>i j. i < j \<and> j < length (subtable_3_10_12 (the_cmap fl')) \<longrightarrow>
            start_range (subtable_3_10_12 (the_cmap fl') ! i)
              < start_range (subtable_3_10_12 (the_cmap fl') ! j) \<and>
            end_range (subtable_3_10_12 (the_cmap fl') ! i)
              < start_range (subtable_3_10_12 (the_cmap fl') ! j))"
proof -
  let ?gs = "subtable_3_10_12 (the_cmap fl')"
  have ok: "groups_ok_31012 (unat (maxp_num_glyphs m)) ?gs"
    using assms by (rule ots_cmap_parse_inv_31012)
  then have "\<forall>g \<in> set ?gs. group_ok_31012 (unat (maxp_num_glyphs m)) g"
    by (auto simp: groups_ok_31012_def in_set_conv_nth)
  then have each: "\<forall>g \<in> set ?gs.
            start_range g \<le> end_range g \<and>
            \<not> (0xD800 \<le> start_range g \<and> start_range g \<le> 0xDFFF) \<and>
            \<not> (0xD800 \<le> end_range g \<and> end_range g \<le> 0xDFFF) \<and>
            \<not> (start_range g < 0xD800 \<and> 0xDFFF < end_range g) \<and>
            end_range g \<le> 0x10FFFF \<and>
            start_glyph_id g \<le> 0xFFFF \<and>
            (end_range g - start_range g) + start_glyph_id g \<le> unat (maxp_num_glyphs m)"
    unfolding group_ok_31012_def kUnicodeUpperLimit_def by (intro ballI) force
  from groups_ok_31012_pairwise [OF ok] each show ?thesis by blast
qed

text \<open>The parser on the table with the group \<open>[0x20, 0x20]\<close> at glyph 3, in a font of
  three glyphs.\<close>

lemma parse_cmap_31012_glyph_3:
  "ots_cmap_parse font_3_glyphs cmap_31012_glyph_3 =
     (True, font_3_glyphs\<lparr>cmap := Some (new_OpenTypeCMAP\<lparr>subtable_3_10_12 :=
        [\<lparr>start_range = 0x20, end_range = 0x20, start_glyph_id = 3\<rparr>]\<rparr>)\<rparr>)"
  by (simp add: font_3_glyphs_def cmap_31012_glyph_3_def reader_defs directory_simps const_defs
      Let_def Parse31012_def read_groups_31012.simps check_groups.simps)

theorem groups_31012_invariants_witness:
  "ots_cmap_parse font_3_glyphs cmap_31012_glyph_3 =
     (True, font_3_glyphs\<lparr>cmap := Some (new_OpenTypeCMAP\<lparr>subtable_3_10_12 :=
        [\<lparr>start_range = 0x20, end_range = 0x20, start_glyph_id = 3\<rparr>]\<rparr>)\<rparr>) \<and>
   maxp font_3_glyphs = Some \<lparr>maxp_num_glyphs = 3\<rparr> \<and>
   (0x20 - 0x20) + 3 \<le> unat (3 :: 16 word)"
  using groups_31012_invariants [OF parse_cmap_31012_glyph_3, of "\<lparr>maxp_num_glyphs = 3\<rparr>"]
    parse_cmap_31012_glyph_3
  by (simp add: font_3_glyphs_def)

text \<open>
  Claim C2 asks for \<open>start_glyph_id + (end - start) < num_glyphs\<close>.  Line 307 rejects a
  group only when the sum exceeds \<open>num_glyphs\<close>: in a font of three glyphs the parser
  accepts the group \<open>[0x20, 0x20]\<close> at glyph 3, whose glyph id is not below 3.
\<close>

theorem Parse31012_accepts_glyph_num_glyphs:
  "fst (ots_cmap_parse font_3_glyphs cmap_31012_glyph_3) \<and>
   subtable_3_10_12 (the_cmap (snd (ots_cmap_parse font_3_glyphs cmap_31012_glyph_3))) =
     [\<lparr>start_range = 0x20, end_range = 0x20, start_glyph_id = 3\<rparr>] \<and>
   maxp font_3_glyphs = Some \<lparr>maxp_num_glyphs = 3\<rparr> \<and>
   \<not> (3 + (0x20 - 0x20) < unat (3 :: 16 word))"
  by (simp add: parse_cmap_31012_glyph_3) (simp add: font_3_glyphs_def the_cmap_def)

subsection \<open>What a failed parse leaves behind\<close>

lemma check_ranges_fst:
  "fst (check_ranges i n rs o2) = fst (check_ranges i n rs o2')"
proof (induction "n - i" arbitrary: i o2 o2')
  case 0
  then show ?case by (simp add: check_ranges.simps)
next
  case (Suc k)
  then have lt: "i < n" and k: "k = n - (i + 1)" by simp_all
  have eq: "fst (check_ranges (i + 1) n rs a) = fst (check_ranges (i + 1) n rs b)" for a b
    by (rule Suc.hyps(1) [OF k])
  define exc where "exc \<longleftrightarrow>
     i = n - 1 \<and> start_code (rs ! (i - 1)) = 0xffff \<and> end_code (rs ! (i - 1)) = 0xffff \<and>
     start_code (rs ! i) = 0xffff \<and> end_code (rs ! i) = 0xffff"
  define stop where "stop \<longleftrightarrow>
     \<not> exc \<and> (end_code (rs ! i) \<le> end_code (rs ! (i - 1)) \<or>
              start_code (rs ! i) \<le> end_code (rs ! (i - 1)))"
  define fix1 where "fix1 o3 =
     (if unat (first_char_index o3) \<noteq> 0xFFFF \<and> start_code (rs ! i) \<noteq> 0xFFFF \<and>
         unat (first_char_index o3) > start_code (rs ! i)
      then o3\<lparr>first_char_index := of_nat (start_code (rs ! i))\<rparr> else o3)" for o3 :: OpenTypeOS2
  define fix2 where "fix2 o3 =
     (if unat (last_char_index o3) \<noteq> 0xFFFF \<and> end_code (rs ! i) \<noteq> 0xFFFF \<and>
         unat (last_char_index o3) < end_code (rs ! i)
      then o3\<lparr>last_char_index := of_nat (end_code (rs ! i))\<rparr> else o3)" for o3 :: OpenTypeOS2
  have unfolded: "fst (check_ranges i n rs o3) =
      (if stop then False
       else fst (check_ranges (i + 1) n rs (if exc then o3 else fix2 (fix1 o3))))" for o3
    apply (subst check_ranges.simps)
    apply (simp only: lt if_True Let_def)
    apply (fold exc_def)
    apply (fold fix1_def)
    apply (fold fix2_def)
    apply (cases exc)
     apply (simp only: if_True if_False stop_def not_True_eq_False simp_thms)
    apply (simp only: if_True if_False stop_def not_False_eq_True simp_thms)
    apply (simp only: if_distrib [of fst] fst_conv)
    apply (cases "end_code (rs ! i) \<le> end_code (rs ! (i - 1))";
           cases "start_code (rs ! i) \<le> end_code (rs ! (i - 1))";
           simp only: if_True if_False fst_conv simp_thms)
    done
  show ?case
    unfolding unfolded [of o2] unfolded [of o2']
    using eq [of "if exc then o2 else fix2 (fix1 o2)" "if exc then o2' else fix2 (fix1 o2')"]
    by simp
qed

lemma Parse3x4_None: "os2 fl = None \<Longrightarrow> Parse3x4 fl e d g = (False, fl)"
  by (simp add: Parse3x4_def)

lemma Parse3x4_Some:
  assumes "os2 fl = Some o2"
  shows "\<exists>o2'. Parse3x4 fl e d g =
     (if accepts_3x4 e d g
      then (True, upd_cmap (\<lambda>c. if e = 0 then c\<lparr>subtable_3_0_4 := Some d\<rparr>
                                 else c\<lparr>subtable_3_1_4 := Some d\<rparr>) (fl\<lparr>os2 := Some o2'\<rparr>))
      else (False, fl\<lparr>os2 := Some o2'\<rparr>))"
proof (cases "Parse3x4_read d")
  case None
  then have "Parse3x4 fl e d g = (False, fl\<lparr>os2 := Some o2\<rparr>)"
    using assms by (simp add: Parse3x4_def)
  with None show ?thesis by (auto simp: accepts_3x4_def)
next
  case (Some a)
  obtain n rs where a: "a = (n, rs)" by (cases a)
  obtain ok o2' where c: "check_ranges 1 n rs o2 = (ok, o2')"
    by (cases "check_ranges 1 n rs o2")
  have ok: "fst (check_ranges 1 n rs \<lparr>first_char_index = 0, last_char_index = 0\<rparr>) = ok"
    using check_ranges_fst [of 1 n rs "\<lparr>first_char_index = 0, last_char_index = 0\<rparr>" o2] c
    by simp
  have "Parse3x4 fl e d g =
     (if accepts_3x4 e d g
      then (True, upd_cmap (\<lambda>c. if e = 0 then c\<lparr>subtable_3_0_4 := Some d\<rparr>
                                 else c\<lparr>subtable_3_1_4 := Some d\<rparr>) (fl\<lparr>os2 := Some o2'\<rparr>))
      else (False, fl\<lparr>os2 := Some o2'\<rparr>))"
    unfolding Parse3x4_def accepts_3x4_def using assms Some a c ok
    by (simp add: Let_def)
  then show ?thesis by blast
qed

lemma fst_Parse3x4: "fst (Parse3x4 fl e d g) = (os2 fl \<noteq> None \<and> accepts_3x4 e d g)"
proof (cases "os2 fl")
  case None
  then show ?thesis by (simp add: Parse3x4_None)
next
  case (Some o2)
  from Parse3x4_Some [OF this, of e d g] Some show ?thesis by (auto split: if_splits)
qed

lemma accepts_3x4_enc: "accepts_3x4 e d g \<Longrightarrow> e = 0 \<or> e = 1"
  by (auto simp: accepts_3x4_def split: option.splits)

lemma maxp_upd_cmap [simp]: "maxp (upd_cmap f fl) = maxp fl"
  by (simp add: upd_cmap_def)

lemma os2_upd_cmap [simp]: "os2 (upd_cmap f fl) = os2 fl"
  by (simp add: upd_cmap_def)

lemma Parse3x4_effect:
  assumes "Parse3x4 fl e d g = (ok, fl')"
  shows "maxp fl' = maxp fl \<and> (os2 fl' = None \<longleftrightarrow> os2 fl = None) \<and>
    (ok \<longleftrightarrow> os2 fl \<noteq> None \<and> accepts_3x4 e d g) \<and>
    cmap fl' = (if ok then map_option (\<lambda>c. if e = 0 then c\<lparr>subtable_3_0_4 := Some d\<rparr>
                                          else c\<lparr>subtable_3_1_4 := Some d\<rparr>) (cmap fl)
                else cmap fl)"
proof (cases "os2 fl")
  case None
  with assms show ?thesis by (auto simp: Parse3x4_None)
next
  case (Some o2)
  from Parse3x4_Some [OF this, of e d g] assms Some show ?thesis
    by (auto split: if_splits)
qed

lemma Parse0514_effect:
  assumes "Parse0514 fl d g = (ok, fl')"
  shows "fl' = (if ok then upd_cmap (\<lambda>c. c\<lparr>subtable_0_5_14 := Some d\<rparr>) fl else fl)"
  using assms by (auto simp: Parse0514_def split: option.splits if_splits)

lemma fst_Parse0514: "fst (Parse0514 fl d g) = fst (Parse0514 fl2 d g)"
  by (simp add: Parse0514_def split: option.splits)

lemma Parse31012_frame:
  assumes "Parse31012 fl d g = (ok, fl')"
  shows "\<exists>gs. fl' = upd_cmap (\<lambda>c. c\<lparr>subtable_3_10_12 := gs\<rparr>) fl \<or> fl' = fl"
  using assms unfolding Parse31012_def Let_def
  by (simp split: option.splits prod.splits if_splits) blast+

lemma Parse31013_frame:
  assumes "Parse31013 fl d g = (ok, fl')"
  shows "\<exists>gs. fl' = upd_cmap (\<lambda>c. c\<lparr>subtable_3_10_13 := gs\<rparr>) fl \<or> fl' = fl"
  using assms unfolding Parse31013_def Let_def
  by (simp split: option.splits prod.splits if_splits) blast+

lemma Parse100_frame:
  assumes "Parse100 fl d = (ok, fl')"
  shows "\<exists>gs. fl' = upd_cmap (\<lambda>c. c\<lparr>subtable_1_0_0 := gs\<rparr>) fl \<or> fl' = fl"
  using assms unfolding Parse100_def Let_def
  by (simp split: option.splits prod.splits if_splits) blast+

lemma opaque_accepted_upd:
  assumes "opaque_accepted fl0 g fl"
    and "subtable_3_0_4 (f (the_cmap fl)) = subtable_3_0_4 (the_cmap fl)"
    and "subtable_3_1_4 (f (the_cmap fl)) = subtable_3_1_4 (the_cmap fl)"
    and "subtable_0_5_14 (f (the_cmap fl)) = subtable_0_5_14 (the_cmap fl)"
  shows "opaque_accepted fl0 g (upd_cmap f fl)"
  using assms by (auto simp: opaque_accepted_def the_cmap_upd_cmap)

lemma opaque_accepted_frame:
  assumes "opaque_accepted fl0 g fl" and "cmap fl' \<noteq> None"
    and "maxp fl' = maxp fl" and "os2 fl' = os2 fl"
    and "subtable_3_0_4 (the_cmap fl') = subtable_3_0_4 (the_cmap fl)"
    and "subtable_3_1_4 (the_cmap fl') = subtable_3_1_4 (the_cmap fl)"
    and "subtable_0_5_14 (the_cmap fl') = subtable_0_5_14 (the_cmap fl)"
  shows "opaque_accepted fl0 g fl'"
  using assms by (auto simp: opaque_accepted_def)

lemma opaque_accepted_Parse3x4:
  assumes inv: "opaque_accepted fl0 g fl" and p: "Parse3x4 fl e d g = (ok, fl')"
  shows "opaque_accepted fl0 g fl'"
proof -
  note eff = Parse3x4_effect [OF p]
  from inv obtain c where c: "cmap fl = Some c" by (auto simp: opaque_accepted_def)
  show ?thesis
  proof (cases ok)
    case False
    with eff inv show ?thesis by (auto simp: opaque_accepted_def the_cmap_def)
  next
    case True
    with eff have o: "os2 fl \<noteq> None" and acc: "accepts_3x4 e d g" by simp_all
    from o inv have o0: "os2 fl0 \<noteq> None" by (auto simp: opaque_accepted_def)
    from accepts_3x4_enc [OF acc] show ?thesis
    proof
      assume "e = 0"
      with eff True inv c acc o0 show ?thesis by (auto simp: opaque_accepted_def the_cmap_def)
    next
      assume "e = 1"
      with eff True inv c acc o0 show ?thesis by (auto simp: opaque_accepted_def the_cmap_def)
    qed
  qed
qed

lemma opaque_accepted_Parse0514:
  assumes inv: "opaque_accepted fl0 g fl" and p: "Parse0514 fl d g = (ok, fl')"
  shows "opaque_accepted fl0 g fl'"
proof (cases ok)
  case False
  with Parse0514_effect [OF p] inv show ?thesis by simp
next
  case True
  have "fst (Parse0514 fl0 d g)" using fst_Parse0514 [of fl0 d g fl] p True by simp
  with Parse0514_effect [OF p] True inv show ?thesis
    by (auto simp: opaque_accepted_def the_cmap_upd_cmap)
qed

lemma parse_directory_cmap_update [simp]:
  "parse_directory (fl\<lparr>cmap := c\<rparr>) data = parse_directory fl data"
  by (simp add: parse_directory_def)

lemma opaque_accepted_parse_subtable:
  assumes inv: "opaque_accepted fl0 g fl" and p: "parse_subtable h d g fl = (ok, fl')"
  shows "opaque_accepted fl0 g fl'"
proof -
  have c: "cmap fl \<noteq> None" using inv by (simp add: opaque_accepted_def)
  have clear12: "opaque_accepted fl0 g (upd_cmap (\<lambda>c. c\<lparr>subtable_3_10_12 := gs\<rparr>) fl1)"
    if "opaque_accepted fl0 g fl1" for gs fl1
    using that by (rule opaque_accepted_upd) simp_all
  have clear13: "opaque_accepted fl0 g (upd_cmap (\<lambda>c. c\<lparr>subtable_3_10_13 := gs\<rparr>) fl1)"
    if "opaque_accepted fl0 g fl1" for gs fl1
    using that by (rule opaque_accepted_upd) simp_all
  have set100: "opaque_accepted fl0 g (upd_cmap (\<lambda>c. c\<lparr>subtable_1_0_0 := gs\<rparr>) fl1)"
    if "opaque_accepted fl0 g fl1" for gs fl1
    using that by (rule opaque_accepted_upd) simp_all
  have "parse_subtable h d g fl = (ok, fl') \<longrightarrow> opaque_accepted fl0 g fl'"
  proof (rule parse_subtable_cases)
    show "(True, fl) = (ok, fl') \<longrightarrow> opaque_accepted fl0 g fl'" using inv by auto
  next
    fix e :: nat
    show "Parse3x4 fl e (slice d (hoffset h) (hlength h)) g = (ok, fl') \<longrightarrow>
        opaque_accepted fl0 g fl'"
      using opaque_accepted_Parse3x4 [OF inv] by blast
  next
    show "Parse31012 fl (slice d (hoffset h) (hlength h)) g = (ok, fl') \<longrightarrow>
        opaque_accepted fl0 g fl'"
      using inv clear12 by (auto dest!: Parse31012_frame)
  next
    show "Parse31012 (upd_cmap (\<lambda>c. c\<lparr>subtable_3_10_12 := []\<rparr>) fl)
            (slice d (hoffset h) (hlength h)) g = (ok, fl') \<longrightarrow> opaque_accepted fl0 g fl'"
      using inv clear12 by (auto dest!: Parse31012_frame)
  next
    show "Parse31013 (upd_cmap (\<lambda>c. c\<lparr>subtable_3_10_13 := []\<rparr>) fl)
            (slice d (hoffset h) (hlength h)) g = (ok, fl') \<longrightarrow> opaque_accepted fl0 g fl'"
      using inv clear13 by (auto dest!: Parse31013_frame)
  next
    show "Parse0514 fl (slice d (hoffset h) (hlength h)) g = (ok, fl') \<longrightarrow>
        opaque_accepted fl0 g fl'"
      using opaque_accepted_Parse0514 [OF inv] by blast
  next
    show "Parse100 fl (slice d (hoffset h) (hlength h)) = (ok, fl') \<longrightarrow>
        opaque_accepted fl0 g fl'"
      using inv set100 by (auto dest!: Parse100_frame)
  qed
  with p show ?thesis by simp
qed

lemma parse_directory_num_glyphs:
  "parse_directory fl data = Some (n, hs, g) \<Longrightarrow> \<exists>m. maxp fl = Some m \<and> g = unat (maxp_num_glyphs m)"
  unfolding parse_directory_def by (auto split: Option.bind_splits)

lemmas Parse3x4_simps = Parse3x4_def Parse3x4_read_def Parse3x4_header_def
  log2segcount_loop.simps read_end_range.simps read_start_range.simps read_id_delta.simps
  read_id_range_offset.simps check_ranges.simps simulate_lookup.simps simulate_segment.simps

lemma replicate_numeral: "replicate (numeral v) x = x # replicate (numeral v - 1) x"
  by (simp add: numeral_eq_Suc)

lemma list_update_Cons_numeral: "(x # xs)[numeral v := y] = x # xs[numeral v - 1 := y]"
  by (simp add: numeral_eq_Suc)

lemmas list_numeral_simps = replicate_numeral list_update_Cons_numeral

text \<open>The parser on the table with a good format-4 subtable followed by a format-12
  subtable whose group fails the check of line 307.\<close>

lemma parse_cmap_314_then_31012_glyph_4:
  "ots_cmap_parse font_3_glyphs_os2 cmap_314_then_31012_glyph_4 =
     (False, font_3_glyphs_os2\<lparr>cmap := Some (new_OpenTypeCMAP\<lparr>subtable_3_1_4 :=
        Some (take 32 (drop 20 cmap_314_then_31012_glyph_4)),
        subtable_3_10_12 := [\<lparr>start_range = 0x20, end_range = 0x20, start_glyph_id = 4\<rparr>]\<rparr>)\<rparr>)"
  by (simp add: font_3_glyphs_os2_def cmap_314_then_31012_glyph_4_def reader_defs directory_simps
      const_defs Let_def Parse3x4_simps list_numeral_simps Parse31012_def
      read_groups_31012.simps check_groups.simps)

text \<open>
  Claim C4, as the code has it.  When \<open>ots_cmap_parse\<close> fails before it dispatches to a
  subtable parser (header, subtable records, offsets, lengths, overlap or a missing
  \<open>maxp\<close>), the parsed cmap is the empty one it allocated.  When it fails later, the
  parsed cmap is not reset; whatever the failure, each of the opaque slots 3,0,4, 3,1,4
  and 0,5,14 that is populated afterwards holds a slice that its format parser accepts in
  full for this font and its glyph count.  Nothing is stated about the group arrays and
  the format-0 array.
\<close>

theorem failed_parse_retains_only_accepted_slices:
  assumes "ots_cmap_parse fl data = (False, fl')"
  shows "(parse_directory fl data = None \<longrightarrow> cmap fl' = Some new_OpenTypeCMAP) \<and>
    (\<forall>s. subtable_3_0_4 (the_cmap fl') = Some s \<longrightarrow>
       (\<exists>m. maxp fl = Some m \<and> fst (Parse3x4 fl 0 s (unat (maxp_num_glyphs m))))) \<and>
    (\<forall>s. subtable_3_1_4 (the_cmap fl') = Some s \<longrightarrow>
       (\<exists>m. maxp fl = Some m \<and> fst (Parse3x4 fl 1 s (unat (maxp_num_glyphs m))))) \<and>
    (\<forall>s. subtable_0_5_14 (the_cmap fl') = Some s \<longrightarrow>
       (\<exists>m. maxp fl = Some m \<and> fst (Parse0514 fl s (unat (maxp_num_glyphs m)))))"
proof (cases "parse_directory fl data")
  case None
  with assms have "fl' = fl\<lparr>cmap := Some new_OpenTypeCMAP\<rparr>"
    by (simp add: ots_cmap_parse_def)
  with None show ?thesis by (simp add: the_cmap_def new_OpenTypeCMAP_def)
next
  case (Some a)
  obtain n hs g where a: "a = (n, hs, g)" by (cases a)
  let ?fl = "fl\<lparr>cmap := Some new_OpenTypeCMAP\<rparr>"
  from assms Some a have sub: "parse_subtables 0 n hs data g ?fl = (False, fl')"
    by (simp add: ots_cmap_parse_def)
  from parse_directory_num_glyphs Some a obtain m where
    m: "maxp fl = Some m" "g = unat (maxp_num_glyphs m)" by blast
  have init: "opaque_accepted fl g ?fl"
    by (simp add: opaque_accepted_def the_cmap_def new_OpenTypeCMAP_def)
  have "(False \<longrightarrow> opaque_accepted fl g fl') \<and> (\<not> False \<longrightarrow> opaque_accepted fl g fl')"
    by (rule parse_subtables_induct [where I = "\<lambda>_. opaque_accepted fl g"
          and F = "opaque_accepted fl g", OF init _ _ sub])
       (auto intro: opaque_accepted_parse_subtable)
  then have "opaque_accepted fl g fl'" by simp
  with Some m show ?thesis by (auto simp: opaque_accepted_def fst_Parse3x4 fst_Parse0514 [of fl _ g fl'])
qed

text \<open>The theorem on the table whose second subtable fails: the format-4 slice that
  stays in the 3,1,4 slot is one that \<open>Parse3x4\<close> accepts.\<close>

theorem failed_parse_retains_only_accepted_slices_witness:
  "ots_cmap_parse font_3_glyphs_os2 cmap_314_then_31012_glyph_4 =
     (False, font_3_glyphs_os2\<lparr>cmap := Some (new_OpenTypeCMAP\<lparr>subtable_3_1_4 :=
        Some (take 32 (drop 20 cmap_314_then_31012_glyph_4)),
        subtable_3_10_12 := [\<lparr>start_range = 0x20, end_range = 0x20, start_glyph_id = 4\<rparr>]\<rparr>)\<rparr>) \<and>
   (\<exists>m. maxp font_3_glyphs_os2 = Some m \<and>
      fst (Parse3x4 font_3_glyphs_os2 1 (take 32 (drop 20 cmap_314_then_31012_glyph_4))
             (unat (maxp_num_glyphs m))))"
proof -
  note inst = failed_parse_retains_only_accepted_slices [OF parse_cmap_314_then_31012_glyph_4]
  have "subtable_3_1_4 (the_cmap (font_3_glyphs_os2\<lparr>cmap := Some (new_OpenTypeCMAP\<lparr>subtable_3_1_4 :=
        Some (take 32 (drop 20 cmap_314_then_31012_glyph_4)),
        subtable_3_10_12 := [\<lparr>start_range = 0x20, end_range = 0x20, start_glyph_id = 4\<rparr>]\<rparr>)\<rparr>))
      = Some (take 32 (drop 20 cmap_314_then_31012_glyph_4))"
    by (simp add: the_cmap_def)
  with inst parse_cmap_314_then_31012_glyph_4 show ?thesis by blast
qed

text \<open>Claim C4 as the spec words it fails on that table: the parse fails, and both the
  3,1,4 slice of the subtable accepted first and the group that the failing format-12
  parser had already written are still in the parsed cmap.\<close>

theorem failed_parse_retains_data_counterexample:
  "\<not> fst (ots_cmap_parse font_3_glyphs_os2 cmap_314_then_31012_glyph_4) \<and>
   subtable_3_1_4 (the_cmap (snd (ots_cmap_parse font_3_glyphs_os2 cmap_314_then_31012_glyph_4)))
     = Some (take 32 (drop 20 cmap_314_then_31012_glyph_4)) \<and>
   subtable_3_10_12 (the_cmap (snd (ots_cmap_parse font_3_glyphs_os2 cmap_314_then_31012_glyph_4)))
     = [\<lparr>start_range = 0x20, end_range = 0x20, start_glyph_id = 4\<rparr>]"
  by (simp add: parse_cmap_314_then_31012_glyph_4) (simp add: the_cmap_def)

subsection \<open>The first segment of a format-4 subtable\<close>

lemma Parse3x4_read_cmap_314_glyph_164:
  "Parse3x4_read (drop 12 cmap_314_glyph_164) =
   Some (2, [\<lparr>start_code = 0x41, end_code = 0x43, id_delta = 99, id_range_offset = 0,
               id_range_offset_offset = 28\<rparr>,
             \<lparr>start_code = 0xFFFF, end_code = 0xFFFF, id_delta = 1, id_range_offset = 0,
               id_range_offset_offset = 30\<rparr>])"
  by (simp add: cmap_314_glyph_164_def Parse3x4_simps reader_defs const_defs Let_def
      list_numeral_simps)

lemma parse_cmap_314_glyph_164:
  "ots_cmap_parse font_3_glyphs_os2 cmap_314_glyph_164 =
     (True, font_3_glyphs_os2\<lparr>cmap := Some (new_OpenTypeCMAP\<lparr>subtable_3_1_4 :=
        Some (drop 12 cmap_314_glyph_164)\<rparr>)\<rparr>)"
  by (simp add: font_3_glyphs_os2_def cmap_314_glyph_164_def reader_defs directory_simps
      const_defs Let_def Parse3x4_simps list_numeral_simps)

text \<open>
  Claim C1 asks that the lookup at every code point of every segment of an accepted
  format-4 subtable gives a glyph id below \<open>num_glyphs\<close>.  The loop of line 200 starts at
  segment 1: in a font of three glyphs the parser accepts the subtable whose segment 0 is
  \<open>[0x41, 0x43]\<close> with \<open>id_delta = 99\<close> and \<open>id_range_offset = 0\<close>, where the lookup
  of code point 0x41 gives glyph \<open>(0x41 + 99) mod 65536 = 164\<close>; the simulation of lines
  201 to 227, run on segment 0, rejects it.
\<close>

theorem Parse3x4_skips_first_segment:
  "fst (ots_cmap_parse font_3_glyphs_os2 cmap_314_glyph_164) \<and>
   subtable_3_1_4 (the_cmap (snd (ots_cmap_parse font_3_glyphs_os2 cmap_314_glyph_164)))
     = Some (drop 12 cmap_314_glyph_164) \<and>
   map_option (\<lambda>(n, rs). (n, rs ! 0)) (Parse3x4_read (drop 12 cmap_314_glyph_164))
     = Some (2, \<lparr>start_code = 0x41, end_code = 0x43, id_delta = 99, id_range_offset = 0,
                   id_range_offset_offset = 28\<rparr>) \<and>
   nat ((int 0x41 + 99) mod 65536) = 164 \<and> \<not> (164 :: nat) < unat (3 :: 16 word) \<and>
   \<not> simulate_segment 0x41 \<lparr>start_code = 0x41, end_code = 0x43, id_delta = 99,
        id_range_offset = 0, id_range_offset_offset = 28\<rparr> (drop 12 cmap_314_glyph_164) 3"
  by (simp add: parse_cmap_314_glyph_164 Parse3x4_read_cmap_314_glyph_164)
     (simp add: the_cmap_def simulate_segment.simps)

subsection \<open>Offsets and lengths of exactly 1 GB\<close>

lemma parse_directory_cmap_offset_1GB:
  "parse_directory font_3_glyphs cmap_offset_1GB =
   Some (1, [\<lparr>platform = 2, encoding = 0, hoffset = 1073741824, format = 0, hlength = 0\<rparr>], 3)"
  by (simp add: font_3_glyphs_def cmap_offset_1GB_def reader_defs directory_simps const_defs
      Let_def nth_append)

lemma parse_directory_cmap_length_1GB:
  "parse_directory font_3_glyphs cmap_length_1GB =
   Some (1, [\<lparr>platform = 2, encoding = 0, hoffset = 12, format = 14, hlength = 1073741824\<rparr>], 3)"
  by (simp add: font_3_glyphs_def cmap_length_1GB_def reader_defs directory_simps const_defs
      Let_def nth_append)

text \<open>
  Claim C6 asks that a record whose offset or recovered length is \<open>2 ^ 30\<close> or more be
  rejected, in particular one that is exactly \<open>2 ^ 30\<close>.  Lines 564 and 621 compare with
  \<open>>\<close>: on a table longer than 1 GB the directory checks accept a record at offset
  \<open>2 ^ 30\<close> and a record of length \<open>2 ^ 30\<close>, and the whole parse succeeds.
\<close>

theorem directory_accepts_exactly_1GB:
  "parse_directory font_3_glyphs cmap_offset_1GB =
     Some (1, [\<lparr>platform = 2, encoding = 0, hoffset = 2 ^ 30, format = 0, hlength = 0\<rparr>], 3) \<and>
   fst (ots_cmap_parse font_3_glyphs cmap_offset_1GB) \<and>
   parse_directory font_3_glyphs cmap_length_1GB =
     Some (1, [\<lparr>platform = 2, encoding = 0, hoffset = 12, format = 14, hlength = 2 ^ 30\<rparr>], 3) \<and>
   fst (ots_cmap_parse font_3_glyphs cmap_length_1GB)"
  by (simp add: ots_cmap_parse_def parse_directory_cmap_offset_1GB
      parse_directory_cmap_length_1GB parse_subtables.simps parse_subtable_def)

subsection \<open>The bytes written by the serialiser\<close>

lemma length_u16_bytes [simp]: "length (u16_bytes v) = 2"
  by (simp add: u16_bytes_def)

lemma length_u32_bytes [simp]: "length (u32_bytes v) = 4"
  by (simp add: u32_bytes_def)

lemma length_format0_bytes [simp]: "length (format0_bytes g) = kFormat0ArraySize"
  by (simp add: format0_bytes_def min_def)

lemma format0_bytes_full: "length g = kFormat0ArraySize \<Longrightarrow> format0_bytes g = g"
  by (simp add: format0_bytes_def)

lemma length_record_bytes [simp]: "length (record_bytes p e off) = 8"
  by (simp add: record_bytes_def)

lemma length_directory_records: "length (directory_records c) = count_subtables c"
  by (simp add: directory_records_def count_subtables_def)

lemma length_concat_record_bytes:
  "length (concat (map (\<lambda>(p, e, off). record_bytes p e off) rs)) = 8 * length rs"
  by (induction rs) auto

lemma directory_eq:
  "directory c =
     (if subtable_0_5_14 c \<noteq> None then record_bytes 0 5 (offset_0514 c) else []) @
     (if subtable_1_0_0 c \<noteq> [] then record_bytes 1 0 (offset_100 c) else []) @
     (if subtable_3_0_4 c \<noteq> None then record_bytes 3 0 (offset_304 c) else []) @
     (if subtable_3_0_4 c = None \<and> subtable_3_1_4 c \<noteq> None
      then record_bytes 3 1 (offset_314 c) else []) @
     (if subtable_3_10_12 c \<noteq> [] then record_bytes 3 10 (offset_31012 c) else []) @
     (if subtable_3_10_13 c \<noteq> [] then record_bytes 3 10 (offset_31013 c) else [])"
  by (auto simp: directory_def directory_records_def)

lemma length_directory: "length (directory c) = 8 * count_subtables c"
  by (simp add: directory_def length_concat_record_bytes length_directory_records)

lemma Write_Some:
  "Write bs s = Some s' \<longleftrightarrow> position s + length bs \<le> limit s \<and>
     s' = s\<lparr>contents := take (position s) (contents s) @ bs @
                          drop (position s + length bs) (contents s),
             position := position s + length bs,
             chksum_input := chksum_input s @ bs\<rparr>"
  by (auto simp: Write_def)

lemma Write_ok:
  assumes "Write bs s = Some s'" and "stream_ok s"
  shows "stream_ok s'" and "position s' = position s + length bs"
    and "position s' \<le> limit s'" and "limit s' = limit s"
  using assms by (auto simp: Write_Some stream_ok_def)

lemma Write_Write:
  assumes "Write a s = Some s1" and "Write b s1 = Some s2" and "stream_ok s"
  shows "Write (a @ b) s = Some s2"
proof -
  let ?p = "position s" and ?c = "contents s"
  from assms(3) have p: "?p \<le> length ?c" by (simp add: stream_ok_def)
  have s1: "s1 = s\<lparr>contents := take ?p ?c @ a @ drop (?p + length a) ?c,
             position := ?p + length a, chksum_input := chksum_input s @ a\<rparr>"
    and l1: "?p + length a \<le> limit s"
    using assms(1) by (simp_all add: Write_Some)
  have l2: "?p + length a + length b \<le> limit s"
    using assms(2) s1 by (simp add: Write_Some)
  have t: "take (?p + length a) (take ?p ?c @ a @ drop (?p + length a) ?c) = take ?p ?c @ a"
    using p by simp
  have d: "drop (?p + length a + length b) (take ?p ?c @ a @ drop (?p + length a) ?c)
      = drop (?p + length a + length b) ?c"
    using p by (simp add: add.commute add.left_commute)
  from assms(2) show ?thesis
    unfolding s1 Write_Some using l2 t d by (simp add: add.assoc)
qed

lemma Write_Nil: "position s \<le> limit s \<Longrightarrow> stream_ok s \<Longrightarrow> Write [] s = Some s"
  by (simp add: Write_Some stream_ok_def)

lemma Write_Write_if:
  assumes "Write a s = Some s1" and "(if h then Write b s1 else Some s1) = Some s2"
    and "stream_ok s"
  shows "Write (a @ (if h then b else [])) s = Some s2"
  using assms Write_Write [of a s s1 b s2] by (auto split: if_splits)

lemma write_groups_Write:
  assumes "write_groups i n gs s = Some s'" and "n \<le> length gs" and "stream_ok s"
    and "position s \<le> limit s"
  shows "Write (concat (map group_bytes (drop i (take n gs)))) s = Some s'"
  using assms
proof (induction "n - i" arbitrary: i s)
  case 0
  then have "\<not> i < n" by simp
  with "0.prems" show ?case by (simp add: write_groups.simps Write_Nil)
next
  case (Suc k)
  then have lt: "i < n" and k: "k = n - (i + 1)" by simp_all
  from Suc.prems(1) lt obtain o1 o2 o3 where
    w1: "Write (u32_bytes (start_range (gs ! i))) s = Some o1" and
    w2: "Write (u32_bytes (end_range (gs ! i))) o1 = Some o2" and
    w3: "Write (u32_bytes (start_glyph_id (gs ! i))) o2 = Some o3" and
    rec: "write_groups (i + 1) n gs o3 = Some s'"
    by (subst (asm) write_groups.simps) (auto simp: WriteU32_def bind_eq_Some_conv)
  note ok1 = Write_ok [OF w1 Suc.prems(3)]
  note ok2 = Write_ok [OF w2 ok1(1)]
  note ok3 = Write_ok [OF w3 ok2(1)]
  have w12: "Write (u32_bytes (start_range (gs ! i)) @ u32_bytes (end_range (gs ! i))) s = Some o2"
    by (rule Write_Write [OF w1 w2 Suc.prems(3)])
  have w123: "Write (group_bytes (gs ! i)) s = Some o3"
    using Write_Write [OF w12 w3 Suc.prems(3)] by (simp add: group_bytes_def)
  have r: "Write (concat (map group_bytes (drop (i + 1) (take n gs)))) o3 = Some s'"
    by (rule Suc.hyps(1) [OF k rec Suc.prems(2) ok3(1) ok3(3)])
  have "drop i (take n gs) = gs ! i # drop (i + 1) (take n gs)"
    using lt Suc.prems(2) by (simp add: Cons_nth_drop_Suc [symmetric])
  with Write_Write [OF w123 r Suc.prems(3)] show ?case by simp
qed

lemma write_subtable_100_Write:
  assumes "write_subtable_100 g s = Some s'" and "stream_ok s"
  shows "Write (u16_bytes 0 @ u16_bytes (6 + kFormat0ArraySize) @ u16_bytes 0 @
                format0_bytes g) s = Some s'"
proof -
  from assms(1) obtain a1 a2 a3 where
    w1: "Write (u16_bytes 0) s = Some a1" and
    w2: "Write (u16_bytes (6 + kFormat0ArraySize)) a1 = Some a2" and
    w3: "Write (u16_bytes 0) a2 = Some a3" and
    w4: "Write (format0_bytes g) a3 = Some s'"
    by (auto simp: write_subtable_100_def WriteU16_def bind_eq_Some_conv)
  note w12 = Write_Write [OF w1 w2 assms(2)]
  note w123 = Write_Write [OF w12 w3 assms(2)]
  from Write_Write [OF w123 w4 assms(2)] show ?thesis by simp
qed

lemma write_record_Write:
  assumes "write_record p e off s = Some s'" and "stream_ok s"
  shows "Write (record_bytes p e off) s = Some s'"
proof -
  from assms(1) obtain a1 a2 where
    w1: "Write (u16_bytes p) s = Some a1" and
    w2: "Write (u16_bytes e) a1 = Some a2" and
    w3: "Write (u32_bytes off) a2 = Some s'"
    by (auto simp: write_record_def WriteU16_def WriteU32_def bind_eq_Some_conv)
  note w12 = Write_Write [OF w1 w2 assms(2)]
  from Write_Write [OF w12 w3 assms(2)] show ?thesis by (simp add: record_bytes_def)
qed

lemma write_groups_block:
  assumes w1: "Write (u16_bytes fmt) s = Some a1"
    and w2: "Write (u16_bytes 0) a1 = Some a2"
    and w3: "Write (u32_bytes (length gs mod 2 ^ 32 * 12 + extra)) a2 = Some a3"
    and w4: "Write (u32_bytes 0) a3 = Some a4"
    and w5: "Write (u32_bytes (length gs mod 2 ^ 32)) a4 = Some a5"
    and w6: "write_groups 0 (length gs mod 2 ^ 32) gs a5 = Some s'"
    and ok: "stream_ok s" and ne: "gs \<noteq> []"
  shows "Write (groups_body fmt extra gs) s = Some s'"
proof -
  note w12 = Write_Write [OF w1 w2 ok]
  note w123 = Write_Write [OF w12 w3 ok]
  note w1234 = Write_Write [OF w123 w4 ok]
  note w12345 = Write_Write [OF w1234 w5 ok]
  note ok5 = Write_ok [OF w12345 ok]
  have "length gs mod 2 ^ 32 \<le> length gs" by simp
  from write_groups_Write [OF w6 this ok5(1) ok5(3)]
  have "Write (concat (map group_bytes (take (length gs mod 2 ^ 32) gs))) a5 = Some s'" by simp
  from Write_Write [OF w12345 this ok] ne show ?thesis by (simp add: groups_body_def)
qed

lemma write_subtable_31012_Write:
  assumes "write_subtable_31012 gs s = Some s'" and "stream_ok s" and "gs \<noteq> []"
  shows "Write (groups_body 12 16 gs) s = Some s'"
proof -
  from assms(1) obtain a1 a2 a3 a4 a5 where
    "Write (u16_bytes 12) s = Some a1" "Write (u16_bytes 0) a1 = Some a2"
    "Write (u32_bytes (length gs mod 2 ^ 32 * 12 + 16)) a2 = Some a3"
    "Write (u32_bytes 0) a3 = Some a4"
    "Write (u32_bytes (length gs mod 2 ^ 32)) a4 = Some a5"
    "write_groups 0 (length gs mod 2 ^ 32) gs a5 = Some s'"
    by (auto simp: write_subtable_31012_def WriteU16_def WriteU32_def bind_eq_Some_conv Let_def)
  then show ?thesis using assms(2,3) by (rule write_groups_block)
qed

lemma write_subtable_31013_Write:
  assumes "write_subtable_31013 gs s = Some s'" and "stream_ok s" and "gs \<noteq> []"
  shows "Write (groups_body 13 14 gs) s = Some s'"
proof -
  from assms(1) obtain a1 a2 a3 a4 a5 where
    "Write (u16_bytes 13) s = Some a1" "Write (u16_bytes 0) a1 = Some a2"
    "Write (u32_bytes (length gs mod 2 ^ 32 * 12 + 14)) a2 = Some a3"
    "Write (u32_bytes 0) a3 = Some a4"
    "Write (u32_bytes (length gs mod 2 ^ 32)) a4 = Some a5"
    "write_groups 0 (length gs mod 2 ^ 32) gs a5 = Some s'"
    by (auto simp: write_subtable_31013_def WriteU16_def WriteU32_def bind_eq_Some_conv Let_def)
  then show ?thesis using assms(2,3) by (rule write_groups_block)
qed

lemma ots_cmap_serialise_steps:
  assumes ser: "ots_cmap_serialise out fl = Some out'" and c: "cmap fl = Some c"
  shows "\<exists>o1 o2 o3 o4 o5 o6 o7 o8 o9 o11 o12 o13 o14 o15 o16 o17 o18.
    (subtable_3_0_4 c \<noteq> None \<or> subtable_3_1_4 c \<noteq> None) \<and>
    Write (u16_bytes 0) out = Some o1 \<and>
    Write (u16_bytes (count_subtables c)) o1 = Some o2 \<and>
    Write (replicate (count_subtables c * 8) 0) o2 = Some o3 \<and>
    (if subtable_1_0_0 c \<noteq> [] then write_subtable_100 (subtable_1_0_0 c) o3 else Some o3) = Some o4 \<and>
    (if subtable_3_0_4 c \<noteq> None then Write (slot_data (subtable_3_0_4 c)) o4 else Some o4) = Some o5 \<and>
    (if subtable_3_0_4 c = None \<and> subtable_3_1_4 c \<noteq> None
     then Write (slot_data (subtable_3_1_4 c)) o5 else Some o5) = Some o6 \<and>
    (if subtable_3_10_12 c \<noteq> [] then write_subtable_31012 (subtable_3_10_12 c) o6 else Some o6) = Some o7 \<and>
    (if subtable_3_10_13 c \<noteq> [] then write_subtable_31013 (subtable_3_10_13 c) o7 else Some o7) = Some o8 \<and>
    (if subtable_0_5_14 c \<noteq> None then Write (slot_data (subtable_0_5_14 c)) o8 else Some o8) = Some o9 \<and>
    Seek (position o2) (ResetChecksum o9) = Some o11 \<and>
    (if subtable_0_5_14 c \<noteq> None then write_record 0 5 (position o8 - position out) o11
     else Some o11) = Some o12 \<and>
    (if subtable_1_0_0 c \<noteq> [] then write_record 1 0 (position o3 - position out) o12
     else Some o12) = Some o13 \<and>
    (if subtable_3_0_4 c \<noteq> None then write_record 3 0 (position o4 - position out) o13
     else Some o13) = Some o14 \<and>
    (if subtable_3_0_4 c = None \<and> subtable_3_1_4 c \<noteq> None
     then write_record 3 1 (position o5 - position out) o14 else Some o14) = Some o15 \<and>
    (if subtable_3_10_12 c \<noteq> [] then write_record 3 10 (position o6 - position out) o15
     else Some o15) = Some o16 \<and>
    (if subtable_3_10_13 c \<noteq> [] then write_record 3 10 (position o7 - position out) o16
     else Some o16) = Some o17 \<and>
    Seek (position o9) o17 = Some o18 \<and>
    out' = RestoreChecksum (chksum_input o9) o18"
proof -
  have h: "subtable_3_0_4 c \<noteq> None \<or> subtable_3_1_4 c \<noteq> None"
    using ser c by (auto simp: ots_cmap_serialise_def Let_def split: if_splits)
  then have h': "\<not> (\<not> subtable_3_0_4 c \<noteq> None \<and>
      \<not> (\<not> subtable_3_0_4 c \<noteq> None \<and> subtable_3_1_4 c \<noteq> None))" by blast
  from ser show ?thesis
    unfolding ots_cmap_serialise_def c option.case Let_def if_not_P [OF h']
      Tell_def Pad_def WriteU16_def SaveChecksumState_def bind_eq_Some_conv
      count_subtables_def length_0_conv
    using h by (simp only: not_not simp_thms) blast
qed

lemma Write_contents:
  assumes "Write bs s = Some s'" and "stream_ok s"
  shows "contents s' = take (position s) (contents s) @ bs @ drop (position s + length bs) (contents s)"
  using assms by (simp add: Write_Some)

lemma ots_cmap_serialise_layout:
  assumes ser: "ots_cmap_serialise out fl = Some out'" and c: "cmap fl = Some c"
    and ok: "stream_ok out"
  shows "contents out' = take (position out) (contents out) @ cmap_table c @
           drop (position out + length (cmap_table c)) (contents out)"
    and "position out' = position out + length (cmap_table c)"
    and "subtable_3_0_4 c \<noteq> None \<or> subtable_3_1_4 c \<noteq> None"
proof -
  let ?p = "position out" and ?k = "count_subtables c"
  let ?H = "u16_bytes 0 @ u16_bytes ?k" and ?P = "replicate (?k * 8) (0 :: byte)"
  from ots_cmap_serialise_steps [OF ser c]
  obtain o1 o2 o3 o4 o5 o6 o7 o8 o9 o11 o12 o13 o14 o15 o16 o17 o18 where
    h: "subtable_3_0_4 c \<noteq> None \<or> subtable_3_1_4 c \<noteq> None" and
    s1: "Write (u16_bytes 0) out = Some o1" and
    s2: "Write (u16_bytes ?k) o1 = Some o2" and
    s3: "Write ?P o2 = Some o3" and
    s4: "(if subtable_1_0_0 c \<noteq> [] then write_subtable_100 (subtable_1_0_0 c) o3 else Some o3) = Some o4" and
    s5: "(if subtable_3_0_4 c \<noteq> None then Write (slot_data (subtable_3_0_4 c)) o4 else Some o4) = Some o5" and
    s6: "(if subtable_3_0_4 c = None \<and> subtable_3_1_4 c \<noteq> None
     then Write (slot_data (subtable_3_1_4 c)) o5 else Some o5) = Some o6" and
    s7: "(if subtable_3_10_12 c \<noteq> [] then write_subtable_31012 (subtable_3_10_12 c) o6 else Some o6) = Some o7" and
    s8: "(if subtable_3_10_13 c \<noteq> [] then write_subtable_31013 (subtable_3_10_13 c) o7 else Some o7) = Some o8" and
    s9: "(if subtable_0_5_14 c \<noteq> None then Write (slot_data (subtable_0_5_14 c)) o8 else Some o8) = Some o9" and
    s11: "Seek (position o2) (ResetChecksum o9) = Some o11" and
    s12: "(if subtable_0_5_14 c \<noteq> None then write_record 0 5 (position o8 - position out) o11
     else Some o11) = Some o12" and
    s13: "(if subtable_1_0_0 c \<noteq> [] then write_record 1 0 (position o3 - position out) o12
     else Some o12) = Some o13" and
    s14: "(if subtable_3_0_4 c \<noteq> None then write_record 3 0 (position o4 - position out) o13
     else Some o13) = Some o14" and
    s15: "(if subtable_3_0_4 c = None \<and> subtable_3_1_4 c \<noteq> None
     then write_record 3 1 (position o5 - position out) o14 else Some o14) = Some o15" and
    s16: "(if subtable_3_10_12 c \<noteq> [] then write_record 3 10 (position o6 - position out) o15
     else Some o15) = Some o16" and
    s17: "(if subtable_3_10_13 c \<noteq> [] then write_record 3 10 (position o7 - position out) o16
     else Some o16) = Some o17" and
    s18: "Seek (position o9) o17 = Some o18" and
    res: "out' = RestoreChecksum (chksum_input o9) o18"
    by blast
  \<comment> \<open>the bodies, as one write from the start of the table\<close>
  note a2 = Write_Write [OF s1 s2 ok]
  note a3 = Write_Write [OF a2 s3 ok]
  note ok3 = Write_ok [OF a3 ok]
  have b4: "(if subtable_1_0_0 c \<noteq> [] then
       Write (u16_bytes 0 @ u16_bytes (6 + kFormat0ArraySize) @ u16_bytes 0 @
              format0_bytes (subtable_1_0_0 c)) o3 else Some o3) = Some o4"
    using s4 write_subtable_100_Write [OF _ ok3(1)] by (auto split: if_splits)
  have a4: "Write ((?H @ ?P) @ body_100 c) out = Some o4"
    using Write_Write_if [OF a3 b4 ok] by (auto simp: body_100_def split: if_splits)
  note ok4 = Write_ok [OF a4 ok]
  have b5: "(if subtable_3_0_4 c \<noteq> None then Write (slot_data (subtable_3_0_4 c)) o4
       else Some o4) = Some o5" by (rule s5)
  have a5: "Write ((?H @ ?P) @ body_100 c @ body_304 c) out = Some o5"
    using Write_Write_if [OF a4 b5 ok] by (auto simp: body_304_def slot_data_def split: if_splits)
  note ok5 = Write_ok [OF a5 ok]
  have a6: "Write ((?H @ ?P) @ body_100 c @ body_304 c @ body_314 c) out = Some o6"
    using Write_Write_if [OF a5 s6 ok] by (auto simp: body_314_def slot_data_def split: if_splits)
  note ok6 = Write_ok [OF a6 ok]
  have b7: "(if subtable_3_10_12 c \<noteq> [] then Write (groups_body 12 16 (subtable_3_10_12 c)) o6
       else Some o6) = Some o7"
    using s7 write_subtable_31012_Write [OF _ ok6(1)] by (auto split: if_splits)
  have a7: "Write ((?H @ ?P) @ body_100 c @ body_304 c @ body_314 c @ body_31012 c) out = Some o7"
    using Write_Write_if [OF a6 b7 ok] by (auto simp: body_31012_def groups_body_def split: if_splits)
  note ok7 = Write_ok [OF a7 ok]
  have b8: "(if subtable_3_10_13 c \<noteq> [] then Write (groups_body 13 14 (subtable_3_10_13 c)) o7
       else Some o7) = Some o8"
    using s8 write_subtable_31013_Write [OF _ ok7(1)] by (auto split: if_splits)
  have a8: "Write ((?H @ ?P) @ body_100 c @ body_304 c @ body_314 c @ body_31012 c @
       body_31013 c) out = Some o8"
    using Write_Write_if [OF a7 b8 ok] by (auto simp: body_31013_def groups_body_def split: if_splits)
  note ok8 = Write_ok [OF a8 ok]
  have a9: "Write ((?H @ ?P) @ bodies c) out = Some o9"
    using Write_Write_if [OF a8 s9 ok] by (auto simp: bodies_def body_0514_def slot_data_def split: if_splits)
  note ok9 = Write_ok [OF a9 ok]
  note ok2 = Write_ok [OF a2 ok]
  \<comment> \<open>the offsets that the directory records\<close>
  have off: "position o3 - ?p = offset_100 c" "position o4 - ?p = offset_304 c"
    "position o5 - ?p = offset_314 c" "position o6 - ?p = offset_31012 c"
    "position o7 - ?p = offset_31013 c" "position o8 - ?p = offset_0514 c"
    using ok3(2) ok4(2) ok5(2) ok6(2) ok7(2) ok8(2)
    by (simp_all add: offset_100_def offset_304_def offset_314_def offset_31012_def
        offset_31013_def offset_0514_def)
  \<comment> \<open>the directory, as one write from the position of the padding\<close>
  have o11: "o11 = (ResetChecksum o9)\<lparr>position := ?p + 4\<rparr>"
    using s11 ok2(2) by (simp add: Seek_def split: if_splits)
  have ok11: "stream_ok o11" "position o11 \<le> limit o11"
    using s11 ok2 ok9 by (auto simp: Seek_def ResetChecksum_def stream_ok_def split: if_splits)
  have d0: "Write [] o11 = Some o11" using ok11 by (simp add: Write_Nil)
  have r12: "(if subtable_0_5_14 c \<noteq> None then Write (record_bytes 0 5 (offset_0514 c)) o11
       else Some o11) = Some o12"
    using s12 write_record_Write [OF _ ok11(1)] by (auto simp: off split: if_splits)
  note d12 = Write_Write_if [OF d0 r12 ok11(1)]
  note k12 = Write_ok [OF d12 ok11(1)]
  have r13: "(if subtable_1_0_0 c \<noteq> [] then Write (record_bytes 1 0 (offset_100 c)) o12
       else Some o12) = Some o13"
    using s13 write_record_Write [OF _ k12(1)] by (auto simp: off split: if_splits)
  note d13 = Write_Write_if [OF d12 r13 ok11(1)]
  note k13 = Write_ok [OF d13 ok11(1)]
  have r14: "(if subtable_3_0_4 c \<noteq> None then Write (record_bytes 3 0 (offset_304 c)) o13
       else Some o13) = Some o14"
    using s14 write_record_Write [OF _ k13(1)] by (auto simp: off split: if_splits)
  note d14 = Write_Write_if [OF d13 r14 ok11(1)]
  note k14 = Write_ok [OF d14 ok11(1)]
  have r15: "(if subtable_3_0_4 c = None \<and> subtable_3_1_4 c \<noteq> None
       then Write (record_bytes 3 1 (offset_314 c)) o14 else Some o14) = Some o15"
    using s15 write_record_Write [OF _ k14(1)] by (auto simp: off split: if_splits)
  note d15 = Write_Write_if [OF d14 r15 ok11(1)]
  note k15 = Write_ok [OF d15 ok11(1)]
  have r16: "(if subtable_3_10_12 c \<noteq> [] then Write (record_bytes 3 10 (offset_31012 c)) o15
       else Some o15) = Some o16"
    using s16 write_record_Write [OF _ k15(1)] by (auto simp: off split: if_splits)
  note d16 = Write_Write_if [OF d15 r16 ok11(1)]
  note k16 = Write_ok [OF d16 ok11(1)]
  have r17: "(if subtable_3_10_13 c \<noteq> [] then Write (record_bytes 3 10 (offset_31013 c)) o16
       else Some o16) = Some o17"
    using s17 write_record_Write [OF _ k16(1)] by (auto simp: off split: if_splits)
  note d17 = Write_Write_if [OF d16 r17 ok11(1)]
  have dir: "Write (directory c) o11 = Some o17"
    using d17 unfolding directory_eq by simp
  \<comment> \<open>the bytes of the stream at the end\<close>
  let ?c0 = "contents out"
  have p: "?p \<le> length ?c0" using ok by (simp add: stream_ok_def)
  have c9: "contents o9 = take ?p ?c0 @ ((?H @ ?P) @ bodies c) @
      drop (?p + length ((?H @ ?P) @ bodies c)) ?c0"
    by (rule Write_contents [OF a9 ok])
  have c11: "contents o11 = contents o9" "position o11 = ?p + 4"
    by (simp_all add: o11 ResetChecksum_def)
  have c17: "contents o17 = take (?p + 4) (contents o9) @ directory c @
      drop (?p + 4 + length (directory c)) (contents o9)"
    using Write_contents [OF dir ok11(1)] by (simp add: c11)
  have t: "take (?p + 4) (contents o9) = take ?p ?c0 @ ?H"
    unfolding c9 using p by simp
  have d: "drop (?p + 4 + length (directory c)) (contents o9) =
      bodies c @ drop (?p + length ((?H @ ?P) @ bodies c)) ?c0"
    unfolding c9 using p by (simp add: length_directory mult.commute)
  have len: "length (cmap_table c) = length ((?H @ ?P) @ bodies c)"
    by (simp add: cmap_table_def length_directory mult.commute)
  have out': "contents out' = contents o17" "position out' = position o9"
    using s18 res by (auto simp: Seek_def RestoreChecksum_def split: if_splits)
  show "contents out' = take ?p ?c0 @ cmap_table c @ drop (?p + length (cmap_table c)) ?c0"
    unfolding out' c17 t d len by (simp add: cmap_table_def)
  show "position out' = ?p + length (cmap_table c)"
    unfolding out' len using ok9(2) by simp
  show "subtable_3_0_4 c \<noteq> None \<or> subtable_3_1_4 c \<noteq> None" by (rule h)
qed

lemma ots_cmap_serialise_table_bytes:
  assumes "ots_cmap_serialise out fl = Some out'" and "cmap fl = Some c" and "stream_ok out"
  shows "table_bytes out out' = cmap_table c"
proof -
  note l = ots_cmap_serialise_layout [OF assms]
  have "position out \<le> length (contents out)" using assms(3) by (simp add: stream_ok_def)
  then show ?thesis unfolding table_bytes_def l(1) l(2) by simp
qed

lemma unat_byte_of_nat: "unat (of_nat n :: byte) = n mod 256"
  by (simp add: unat_of_nat)

lemma u16_split: "v div 256 mod 256 * 256 + v mod 256 = (v mod 65536 :: nat)"
  using mod_mult2_eq [of v 256 256] by simp

lemma u32_split:
  "v div 16777216 mod 256 * 16777216 + v div 65536 mod 256 * 65536 +
   v div 256 mod 256 * 256 + v mod 256 = (v mod 4294967296 :: nat)"
proof -
  have d2: "v div 256 div 256 = v div 65536" by (simp add: div_mult2_eq [symmetric])
  have d3: "v div 65536 div 256 = v div 16777216" by (simp add: div_mult2_eq [symmetric])
  have 1: "v mod 4294967296 = 256 * (v div 256 mod 16777216) + v mod 256"
    using mod_mult2_eq [of v 256 16777216] by simp
  have 2: "v div 256 mod 16777216 = 256 * (v div 65536 mod 65536) + v div 256 mod 256"
    using mod_mult2_eq [of "v div 256" 256 65536] by (simp add: d2)
  have 3: "v div 65536 mod 65536 = 256 * (v div 16777216 mod 256) + v div 65536 mod 256"
    using mod_mult2_eq [of "v div 65536" 256 256] by (simp add: d3)
  show ?thesis unfolding 1 2 3 by simp
qed

lemma be16_u16_bytes: "be16 (u16_bytes v @ r) 0 = v mod 65536"
  using u16_split [of v] by (simp add: be16_def u16_bytes_def unat_byte_of_nat)

lemma be32_u32_bytes: "be32 (u32_bytes v @ r) 0 = v mod 4294967296"
  using u32_split [of v] by (simp add: be32_def u32_bytes_def unat_byte_of_nat)

text \<open>Reading at an offset is reading at the start of the rest.\<close>

lemma be16_drop: "p + q + 2 \<le> length d \<Longrightarrow> be16 d (p + q) = be16 (drop p d) q"
  by (simp add: be16_def add.assoc)

lemma be32_drop: "p + q + 4 \<le> length d \<Longrightarrow> be32 d (p + q) = be32 (drop p d) q"
  by (simp add: be32_def add.assoc)

lemma be16_append: "be16 (xs @ ys) (length xs + q) = be16 ys q"
  by (simp add: be16_def nth_append)

lemma be32_append: "be32 (xs @ ys) (length xs + q) = be32 ys q"
  by (simp add: be32_def nth_append)

lemma read_subtable_headers_eq:
  assumes "i \<le> n" and "offset b \<le> length (buffer b)"
  shows "read_subtable_headers i n b acc =
     (if offset b + 8 * (n - i) \<le> length (buffer b)
      then Some (acc @ map (\<lambda>j. header_at (buffer b) (offset b + 8 * j)) [0..<n - i],
                 b\<lparr>offset := offset b + 8 * (n - i)\<rparr>)
      else None)"
  using assms
proof (induction "n - i" arbitrary: i b acc)
  case 0
  then show ?case by (simp add: read_subtable_headers.simps)
next
  case (Suc k)
  then have lt: "i < n" and k: "k = n - (i + 1)" and le: "i + 1 \<le> n" by simp_all
  have nk: "n - i = Suc k" using Suc.hyps(2) by simp
  note ih = Suc.hyps(1) [OF k le]
  show ?case
  proof (cases "offset b + 8 \<le> length (buffer b)")
    case False
    then have "read_subtable_headers i n b acc = None"
      using lt by (subst read_subtable_headers.simps)
        (auto simp: ReadU16_def ReadU32_def bind_eq_None_conv split: if_splits)
    with False nk show ?thesis by simp
  next
    case True
    let ?b = "b\<lparr>offset := offset b + 8\<rparr>"
    have step: "read_subtable_headers i n b acc =
        read_subtable_headers (i + 1) n ?b (acc @ [header_at (buffer b) (offset b)])"
      using lt True by (subst read_subtable_headers.simps)
        (simp add: ReadU16_def ReadU32_def header_at_def numeral_eq_Suc)
    have m: "map (\<lambda>j. header_at (buffer b) (offset b + 8 * j)) [0..<Suc k] =
        header_at (buffer b) (offset b) #
        map (\<lambda>j. header_at (buffer b) (offset b + 8 + 8 * j)) [0..<k]"
      by (simp add: upt_conv_Cons map_Suc_upt [symmetric] add.assoc del: upt_Suc)
    have "offset ?b \<le> length (buffer ?b)" using True by simp
    note ih' = ih [OF this]
    show ?thesis
      unfolding step ih' nk k [symmetric] m using True by (simp add: add.assoc)
  qed
qed

lemma header_at_append: "header_at (xs @ ys) (length xs + q) = header_at ys q"
  using be16_append [of xs ys q] be16_append [of xs ys "q + 2"] be32_append [of xs ys "q + 4"]
  by (simp add: header_at_def add.assoc)

lemma be16_skip: "length xs = k \<Longrightarrow> be16 (xs @ ys) k = be16 ys 0"
  using be16_append [of xs ys 0] by simp

lemma be32_skip: "length xs = k \<Longrightarrow> be32 (xs @ ys) k = be32 ys 0"
  using be32_append [of xs ys 0] by simp

lemma header_at_record_bytes:
  "header_at (record_bytes p e off @ r) 0 = header_of (p, e, off)"
proof -
  have 1: "be16 (record_bytes p e off @ r) 0 = p mod 65536"
    by (simp add: record_bytes_def be16_u16_bytes)
  have "be16 (u16_bytes p @ (u16_bytes e @ u32_bytes off @ r)) 2 =
      be16 (u16_bytes e @ u32_bytes off @ r) 0"
    by (rule be16_skip) simp
  then have 2: "be16 (record_bytes p e off @ r) 2 = e mod 65536"
    by (simp only: record_bytes_def append_assoc be16_u16_bytes)
  have "be32 ((u16_bytes p @ u16_bytes e) @ (u32_bytes off @ r)) 4 = be32 (u32_bytes off @ r) 0"
    by (rule be32_skip) simp
  then have 3: "be32 (record_bytes p e off @ r) 4 = off mod 4294967296"
    by (simp only: record_bytes_def append_assoc be32_u32_bytes)
  show ?thesis
    unfolding header_at_def header_of_def by (simp only: add_0 1 2 3 prod.case)
qed

lemma header_at_records:
  "j < length rs \<Longrightarrow>
   header_at (pre @ concat (map (\<lambda>(p, e, off). record_bytes p e off) rs) @ post)
     (length pre + 8 * j) = header_of (rs ! j)"
proof (induction rs arbitrary: j pre)
  case Nil
  then show ?case by simp
next
  case (Cons r rs)
  obtain p e off where r: "r = (p, e, off)" by (cases r)
  show ?case
  proof (cases j)
    case 0
    have "header_at (pre @ record_bytes p e off @
        concat (map (\<lambda>(p, e, off). record_bytes p e off) rs) @ post) (length pre + 0)
        = header_of (p, e, off)"
      unfolding header_at_append by (rule header_at_record_bytes)
    with 0 r show ?thesis by simp
  next
    case (Suc j')
    with Cons.prems have j': "j' < length rs" by simp
    have "header_at ((pre @ record_bytes p e off) @
        concat (map (\<lambda>(p, e, off). record_bytes p e off) rs) @ post)
        (length (pre @ record_bytes p e off) + 8 * j') = header_of (rs ! j')"
      by (rule Cons.IH [OF j'])
    with Suc r show ?thesis by (simp add: add.assoc)
  qed
qed

lemma read_back_directory:
  "read_subtable_headers 0 (count_subtables c) \<lparr>buffer = cmap_table c, offset = 4\<rparr> [] =
     Some (map header_of (directory_records c),
           \<lparr>buffer = cmap_table c, offset = 4 + 8 * count_subtables c\<rparr>)"
proof -
  let ?k = "count_subtables c" and ?b = "\<lparr>buffer = cmap_table c, offset = 4\<rparr>"
  have len: "4 + 8 * ?k \<le> length (cmap_table c)"
    by (simp add: cmap_table_def length_directory)
  have at: "header_at (cmap_table c) (4 + 8 * j) = header_of (directory_records c ! j)"
    if "j < ?k" for j
    using header_at_records [of j "directory_records c" "u16_bytes 0 @ u16_bytes ?k" "bodies c"]
      that
    by (simp add: cmap_table_def directory_def length_directory_records)
  have "map (\<lambda>j. header_at (cmap_table c) (4 + 8 * j)) [0..<?k] =
      map header_of (directory_records c)"
    by (rule nth_equalityI) (simp_all add: length_directory_records at)
  with read_subtable_headers_eq [of 0 ?k ?b "[]"] len show ?thesis by simp
qed

lemma be16_cmap_table_2: "be16 (cmap_table c) 2 = count_subtables c"
proof -
  have "count_subtables c \<le> 6" by (simp add: count_subtables_def)
  then have "count_subtables c mod 65536 = count_subtables c" by simp
  then show ?thesis
    using be16_skip [of "u16_bytes 0" 2 "u16_bytes (count_subtables c) @ directory c @ bodies c"]
    by (simp add: cmap_table_def be16_u16_bytes)
qed

text \<open>
  Claim C7.  The serialised table never has both a (3, 0) and a (3, 1) record: the
  records read back from the output contain (3, 0) exactly when the 3,0,4 slot is set, and
  (3, 1) exactly when the 3,1,4 slot is set and the 3,0,4 slot is not.  The table consists
  of the header, the records and the six bodies in payload order, where the format-0 body
  has 262 bytes when the format-0 vector is not empty and none otherwise, the 3,0,4 body is
  the slice of the slot and the 3,1,4 body is empty when the 3,0,4 slot is set.
\<close>

theorem serialise_304_suppresses_314:
  assumes "ots_cmap_serialise out fl = Some out'" and "cmap fl = Some c" and "stream_ok out"
  shows "(\<exists>hs b. read_subtable_headers 0 (be16 (table_bytes out out') 2)
              \<lparr>buffer = table_bytes out out', offset = 4\<rparr> [] = Some (hs, b) \<and>
          ((\<exists>h \<in> set hs. platform h = 3 \<and> encoding h = 0) \<longleftrightarrow> subtable_3_0_4 c \<noteq> None) \<and>
          ((\<exists>h \<in> set hs. platform h = 3 \<and> encoding h = 1) \<longleftrightarrow>
             subtable_3_0_4 c = None \<and> subtable_3_1_4 c \<noteq> None) \<and>
          \<not> ((\<exists>h \<in> set hs. platform h = 3 \<and> encoding h = 0) \<and>
             (\<exists>h \<in> set hs. platform h = 3 \<and> encoding h = 1))) \<and>
         (\<exists>b100. length b100 = (if subtable_1_0_0 c = [] then 0 else 6 + kFormat0ArraySize) \<and>
            table_bytes out out' =
              u16_bytes 0 @ u16_bytes (count_subtables c) @ directory c @ b100 @
              body_304 c @ body_314 c @ body_31012 c @ body_31013 c @ body_0514 c) \<and>
         body_304 c = slot_data (subtable_3_0_4 c) \<and>
         body_314 c = (if subtable_3_0_4 c = None then slot_data (subtable_3_1_4 c) else [])"
proof -
  have tb: "table_bytes out out' = cmap_table c"
    using assms by (rule ots_cmap_serialise_table_bytes)
  have l100: "length (body_100 c) = (if subtable_1_0_0 c = [] then 0 else 6 + kFormat0ArraySize)"
    by (simp add: body_100_def)
  have lay: "\<exists>b100. length b100 = (if subtable_1_0_0 c = [] then 0 else 6 + kFormat0ArraySize) \<and>
      table_bytes out out' =
        u16_bytes 0 @ u16_bytes (count_subtables c) @ directory c @ b100 @
        body_304 c @ body_314 c @ body_31012 c @ body_31013 c @ body_0514 c"
    by (rule exI [of _ "body_100 c"]) (simp add: l100 tb cmap_table_def bodies_def)
  let ?hs = "map header_of (directory_records c)"
  have rd: "read_subtable_headers 0 (be16 (table_bytes out out') 2)
      \<lparr>buffer = table_bytes out out', offset = 4\<rparr> [] =
      Some (?hs, \<lparr>buffer = cmap_table c, offset = 4 + 8 * count_subtables c\<rparr>)"
    unfolding tb be16_cmap_table_2 by (rule read_back_directory)
  have a: "(\<exists>h \<in> set ?hs. platform h = 3 \<and> encoding h = 0) \<longleftrightarrow> subtable_3_0_4 c \<noteq> None"
    by (auto simp: directory_records_def header_of_def split: if_splits)
  have b: "(\<exists>h \<in> set ?hs. platform h = 3 \<and> encoding h = 1) \<longleftrightarrow>
      subtable_3_0_4 c = None \<and> subtable_3_1_4 c \<noteq> None"
    by (auto simp: directory_records_def header_of_def split: if_splits)
  have n: "\<not> ((\<exists>h \<in> set ?hs. platform h = 3 \<and> encoding h = 0) \<and>
             (\<exists>h \<in> set ?hs. platform h = 3 \<and> encoding h = 1))"
    unfolding a b by (cases "subtable_3_0_4 c") auto
  from rd a b n have "\<exists>hs b. read_subtable_headers 0 (be16 (table_bytes out out') 2)
              \<lparr>buffer = table_bytes out out', offset = 4\<rparr> [] = Some (hs, b) \<and>
          ((\<exists>h \<in> set hs. platform h = 3 \<and> encoding h = 0) \<longleftrightarrow> subtable_3_0_4 c \<noteq> None) \<and>
          ((\<exists>h \<in> set hs. platform h = 3 \<and> encoding h = 1) \<longleftrightarrow>
             subtable_3_0_4 c = None \<and> subtable_3_1_4 c \<noteq> None) \<and>
          \<not> ((\<exists>h \<in> set hs. platform h = 3 \<and> encoding h = 0) \<and>
             (\<exists>h \<in> set hs. platform h = 3 \<and> encoding h = 1))"
    by blast
  with lay show ?thesis
    by (simp add: body_304_def body_314_def)
qed

lemma cmap_table_at_31012:
  "\<exists>pre. cmap_table c = pre @ body_31012 c @ body_31013 c @ body_0514 c \<and>
     length pre = offset_31012 c"
  by (rule exI [of _ "u16_bytes 0 @ u16_bytes (count_subtables c) @ directory c @
        body_100 c @ body_304 c @ body_314 c"])
     (simp add: cmap_table_def bodies_def offset_31012_def offset_314_def offset_304_def
        offset_100_def length_directory)

lemma cmap_table_at_31013:
  "\<exists>pre. cmap_table c = pre @ body_31013 c @ body_0514 c \<and> length pre = offset_31013 c"
  by (rule exI [of _ "u16_bytes 0 @ u16_bytes (count_subtables c) @ directory c @
        body_100 c @ body_304 c @ body_314 c @ body_31012 c"])
     (simp add: cmap_table_def bodies_def offset_31013_def offset_31012_def offset_314_def
        offset_304_def offset_100_def length_directory)

lemma groups_body_header:
  assumes "gs \<noteq> []" and "length gs * 12 + extra < 2 ^ 32" and "fmt < 65536"
  shows "be16 (groups_body fmt extra gs @ r) 0 = fmt"
    and "be32 (groups_body fmt extra gs @ r) 4 = length gs * 12 + extra"
    and "be32 (groups_body fmt extra gs @ r) 12 = length gs"
proof -
  let ?n = "length gs"
  have n: "?n mod 4294967296 = ?n" using assms(2) by simp
  let ?rest = "concat (map group_bytes gs) @ r"
  have body: "groups_body fmt extra gs @ r =
      u16_bytes fmt @ u16_bytes 0 @ u32_bytes (?n * 12 + extra) @ u32_bytes 0 @
      u32_bytes ?n @ ?rest"
    using assms(1) by (simp add: groups_body_def n)
  show "be16 (groups_body fmt extra gs @ r) 0 = fmt"
    unfolding body using assms(3) by (simp add: be16_u16_bytes)
  have "be32 ((u16_bytes fmt @ u16_bytes 0) @
        (u32_bytes (?n * 12 + extra) @ u32_bytes 0 @ u32_bytes ?n @ ?rest)) 4 =
      be32 (u32_bytes (?n * 12 + extra) @ u32_bytes 0 @ u32_bytes ?n @ ?rest) 0"
    by (rule be32_skip) simp
  then show "be32 (groups_body fmt extra gs @ r) 4 = ?n * 12 + extra"
    unfolding body using assms(2) by (simp only: append_assoc be32_u32_bytes) simp
  have "be32 ((u16_bytes fmt @ u16_bytes 0 @ u32_bytes (?n * 12 + extra) @ u32_bytes 0) @
        (u32_bytes ?n @ ?rest)) 12 = be32 (u32_bytes ?n @ ?rest) 0"
    by (rule be32_skip) simp
  then show "be32 (groups_body fmt extra gs @ r) 12 = ?n"
    unfolding body using assms(2) by (simp only: append_assoc be32_u32_bytes) simp
qed

text \<open>
  Claim C9.  When the serialiser emits a format-13 subtable of \<open>N\<close> groups, the table
  has, at the offset of its (3, 10) record, the format 13, the length field
  \<open>14 + 12 * N\<close> and the count \<open>N\<close>; for a format-12 subtable of \<open>N\<close> groups the
  length field is \<open>16 + 12 * N\<close>.  Both counts are taken small enough for the u32 fields
  (the parser stores at most 0xFFFF groups).
\<close>

theorem serialise_group_length_fields:
  assumes "ots_cmap_serialise out fl = Some out'" and "cmap fl = Some c" and "stream_ok out"
    and "length (subtable_3_10_12 c) * 12 + 16 < 2 ^ 32"
    and "length (subtable_3_10_13 c) * 12 + 16 < 2 ^ 32"
  shows "(subtable_3_10_13 c \<noteq> [] \<longrightarrow>
            (3, 10, offset_31013 c) \<in> set (directory_records c) \<and>
            be16 (table_bytes out out') (offset_31013 c) = 13 \<and>
            be32 (table_bytes out out') (offset_31013 c + 4) =
              14 + 12 * length (subtable_3_10_13 c) \<and>
            be32 (table_bytes out out') (offset_31013 c + 12) = length (subtable_3_10_13 c)) \<and>
         (subtable_3_10_12 c \<noteq> [] \<longrightarrow>
            (3, 10, offset_31012 c) \<in> set (directory_records c) \<and>
            be16 (table_bytes out out') (offset_31012 c) = 12 \<and>
            be32 (table_bytes out out') (offset_31012 c + 4) =
              16 + 12 * length (subtable_3_10_12 c) \<and>
            be32 (table_bytes out out') (offset_31012 c + 12) = length (subtable_3_10_12 c))"
proof -
  have tb: "table_bytes out out' = cmap_table c"
    using assms(1-3) by (rule ots_cmap_serialise_table_bytes)
  from cmap_table_at_31013 obtain p13 where
    p13: "cmap_table c = p13 @ body_31013 c @ body_0514 c" "length p13 = offset_31013 c"
    by blast
  from cmap_table_at_31012 obtain p12 where
    p12: "cmap_table c = p12 @ body_31012 c @ body_31013 c @ body_0514 c"
      "length p12 = offset_31012 c"
    by blast
  have r13: "be16 (cmap_table c) (offset_31013 c + q) = be16 (body_31013 c @ body_0514 c) q"
    "be32 (cmap_table c) (offset_31013 c + q) = be32 (body_31013 c @ body_0514 c) q" for q
    using be16_append [of p13 _ q] be32_append [of p13 _ q] p13 by simp_all
  have r12: "be16 (cmap_table c) (offset_31012 c + q) =
      be16 (body_31012 c @ body_31013 c @ body_0514 c) q"
    "be32 (cmap_table c) (offset_31012 c + q) =
      be32 (body_31012 c @ body_31013 c @ body_0514 c) q" for q
    using be16_append [of p12 _ q] be32_append [of p12 _ q] p12 by simp_all
  have a13: "14 + 12 * length (subtable_3_10_13 c) < 2 ^ 32" using assms(5) by simp
  show ?thesis
  proof (intro conjI impI)
    assume ne: "subtable_3_10_13 c \<noteq> []"
    then show "(3, 10, offset_31013 c) \<in> set (directory_records c)"
      by (simp add: directory_records_def)
    have l: "length (subtable_3_10_13 c) * 12 + 14 < 2 ^ 32" using assms(5) by simp
    show "be16 (table_bytes out out') (offset_31013 c) = 13"
      using r13(1) [of 0] groups_body_header(1) [OF ne l, of 13] by (simp add: tb body_31013_def)
    show "be32 (table_bytes out out') (offset_31013 c + 4) = 14 + 12 * length (subtable_3_10_13 c)"
      using r13(2) [of 4] groups_body_header(2) [OF ne l, of 13] by (simp add: tb body_31013_def)
    show "be32 (table_bytes out out') (offset_31013 c + 12) = length (subtable_3_10_13 c)"
      using r13(2) [of 12] groups_body_header(3) [OF ne l, of 13] by (simp add: tb body_31013_def)
  next
    assume ne: "subtable_3_10_12 c \<noteq> []"
    then show "(3, 10, offset_31012 c) \<in> set (directory_records c)"
      by (simp add: directory_records_def)
    note l = assms(4)
    show "be16 (table_bytes out out') (offset_31012 c) = 12"
      using r12(1) [of 0] groups_body_header(1) [OF ne l, of 12] by (simp add: tb body_31012_def)
    show "be32 (table_bytes out out') (offset_31012 c + 4) = 16 + 12 * length (subtable_3_10_12 c)"
      using r12(2) [of 4] groups_body_header(2) [OF ne l, of 12] by (simp add: tb body_31012_def)
    show "be32 (table_bytes out out') (offset_31012 c + 12) = length (subtable_3_10_12 c)"
      using r12(2) [of 12] groups_body_header(3) [OF ne l, of 12] by (simp add: tb body_31012_def)
  qed
qed

lemmas serialise_simps = ots_cmap_serialise_def write_subtable_100_def write_subtable_31012_def
  write_subtable_31013_def write_record_def write_groups.simps slot_data_def
  Write_def WriteU16_def WriteU32_def Pad_def Tell_def Seek_def SaveChecksumState_def
  ResetChecksum_def RestoreChecksum_def u16_bytes_def u32_bytes_def

lemma serialise_parsed_cmap_example: "ots_cmap_serialise empty_stream font_parsed_example \<noteq> None"
  by (simp add: serialise_simps empty_stream_def font_parsed_example_def parsed_cmap_example_def
      subtable_4_two_segments_def kFormat0ArraySize_def Let_def)

lemma cmap_font_parsed_example: "cmap font_parsed_example = Some parsed_cmap_example"
  by (simp add: font_parsed_example_def)

lemma stream_ok_empty_stream: "stream_ok empty_stream"
  by (simp add: stream_ok_def empty_stream_def)

lemma layout_parsed_cmap_example:
  "offset_304 parsed_cmap_example = 298" "offset_31012 parsed_cmap_example = 330"
  "offset_31013 parsed_cmap_example = 370" "length (cmap_table parsed_cmap_example) = 398"
  by (simp_all add: cmap_table_def bodies_def length_directory offset_31013_def offset_31012_def
        offset_314_def offset_304_def offset_100_def count_subtables_def body_100_def
        body_304_def body_314_def body_31012_def body_31013_def body_0514_def groups_body_def
        group_bytes_def slot_data_def parsed_cmap_example_def subtable_4_two_segments_def
        kFormat0ArraySize_def)

text \<open>The theorem on the parsed cmap that holds both slots: a (3, 0) record and no
  (3, 1) record, and an empty 3,1,4 body.  The format-0 vector has four entries; the
  table has 398 bytes, of which 262 are the format-0 body, and the 3,0,4 body starts at
  offset 298.\<close>

theorem serialise_304_suppresses_314_witness:
  "ots_cmap_serialise empty_stream font_parsed_example \<noteq> None \<and>
   cmap font_parsed_example = Some parsed_cmap_example \<and> stream_ok empty_stream \<and>
   subtable_3_0_4 parsed_cmap_example \<noteq> None \<and>
   subtable_3_1_4 parsed_cmap_example \<noteq> None \<and>
   body_314 parsed_cmap_example = [] \<and>
   length (subtable_1_0_0 parsed_cmap_example) = 4 \<and>
   length (table_bytes empty_stream (the (ots_cmap_serialise empty_stream font_parsed_example)))
     = 398 \<and>
   offset_304 parsed_cmap_example = 298 \<and>
   (\<exists>hs b. read_subtable_headers 0
        (be16 (table_bytes empty_stream (the (ots_cmap_serialise empty_stream font_parsed_example))) 2)
        \<lparr>buffer = table_bytes empty_stream
                     (the (ots_cmap_serialise empty_stream font_parsed_example)),
         offset = 4\<rparr> [] = Some (hs, b) \<and>
      (\<exists>h \<in> set hs. platform h = 3 \<and> encoding h = 0) \<and>
      \<not> (\<exists>h \<in> set hs. platform h = 3 \<and> encoding h = 1))"
proof -
  from serialise_parsed_cmap_example obtain out' where
    ser: "ots_cmap_serialise empty_stream font_parsed_example = Some out'" by blast
  have s: "subtable_3_0_4 parsed_cmap_example \<noteq> None"
    "subtable_3_1_4 parsed_cmap_example \<noteq> None"
    by (simp_all add: parsed_cmap_example_def)
  have t: "length (table_bytes empty_stream out') = 398"
    using ots_cmap_serialise_table_bytes [OF ser cmap_font_parsed_example stream_ok_empty_stream]
    by (simp add: layout_parsed_cmap_example)
  have g: "length (subtable_1_0_0 parsed_cmap_example) = 4"
    by (simp add: parsed_cmap_example_def)
  from serialise_304_suppresses_314 [OF ser cmap_font_parsed_example stream_ok_empty_stream] s ser
    cmap_font_parsed_example stream_ok_empty_stream t g layout_parsed_cmap_example(1)
  show ?thesis
    by (auto simp: body_314_def)
qed

text \<open>The theorem on the parsed cmap with two format-12 groups and one format-13
  group, whose subtables start at the offsets 330 and 370, after the 262 bytes of the
  format-0 body and the 32 bytes of the 3,0,4 body.\<close>

theorem serialise_group_length_fields_witness:
  "ots_cmap_serialise empty_stream font_parsed_example \<noteq> None \<and>
   cmap font_parsed_example = Some parsed_cmap_example \<and> stream_ok empty_stream \<and>
   length (subtable_3_10_12 parsed_cmap_example) = 2 \<and>
   length (subtable_3_10_13 parsed_cmap_example) = 1 \<and>
   offset_31012 parsed_cmap_example = 330 \<and> offset_31013 parsed_cmap_example = 370 \<and>
   be32 (table_bytes empty_stream (the (ots_cmap_serialise empty_stream font_parsed_example)))
     (offset_31013 parsed_cmap_example + 4) = 14 + 12 * 1 \<and>
   be32 (table_bytes empty_stream (the (ots_cmap_serialise empty_stream font_parsed_example)))
     (offset_31012 parsed_cmap_example + 4) = 16 + 12 * 2"
proof -
  from serialise_parsed_cmap_example obtain out' where
    ser: "ots_cmap_serialise empty_stream font_parsed_example = Some out'" by blast
  have l: "length (subtable_3_10_12 parsed_cmap_example) = 2"
    "length (subtable_3_10_13 parsed_cmap_example) = 1"
    by (simp_all add: parsed_cmap_example_def)
  have b: "length (subtable_3_10_12 parsed_cmap_example) * 12 + 16 < 2 ^ 32"
    "length (subtable_3_10_13 parsed_cmap_example) * 12 + 16 < 2 ^ 32"
    by (simp_all add: l)
  have ne: "subtable_3_10_12 parsed_cmap_example \<noteq> []" "subtable_3_10_13 parsed_cmap_example \<noteq> []"
    using l by auto
  from serialise_group_length_fields [OF ser cmap_font_parsed_example stream_ok_empty_stream b] ne l
    ser cmap_font_parsed_example stream_ok_empty_stream
  show ?thesis
    by (simp add: layout_parsed_cmap_example)
qed

subsection \<open>Closed forms of the directory checks\<close>

lemma all_from_split:
  fixes i n :: nat
  assumes "i < n"
  shows "(\<forall>j. i \<le> j \<and> j < n \<longrightarrow> P j) \<longleftrightarrow> P i \<and> (\<forall>j. i + 1 \<le> j \<and> j < n \<longrightarrow> P j)"
proof
  assume l: "\<forall>j. i \<le> j \<and> j < n \<longrightarrow> P j"
  have "P i" using l [THEN spec, of i] assms by simp
  moreover have "P j" if "i + 1 \<le> j \<and> j < n" for j
    using l [THEN spec, of j] that by simp
  ultimately show "P i \<and> (\<forall>j. i + 1 \<le> j \<and> j < n \<longrightarrow> P j)" by blast
next
  assume r: "P i \<and> (\<forall>j. i + 1 \<le> j \<and> j < n \<longrightarrow> P j)"
  show "\<forall>j. i \<le> j \<and> j < n \<longrightarrow> P j"
  proof (intro allI impI)
    fix j assume j: "i \<le> j \<and> j < n"
    show "P j"
    proof (cases "j = i")
      case True
      with r show ?thesis by simp
    next
      case False
      with j have "i + 1 \<le> j" by simp
      with r j show ?thesis by simp
    qed
  qed
qed

lemma all_from_split_next:
  fixes i n :: nat
  shows "(\<forall>j. i \<le> j \<and> j + 1 < n \<longrightarrow> Q j) \<longleftrightarrow>
     (i + 1 < n \<longrightarrow> Q i) \<and> (\<forall>j. i + 1 \<le> j \<and> j + 1 < n \<longrightarrow> Q j)"
proof
  assume l: "\<forall>j. i \<le> j \<and> j + 1 < n \<longrightarrow> Q j"
  have "Q i" if "i + 1 < n" using l [THEN spec, of i] that by simp
  moreover have "Q j" if "i + 1 \<le> j \<and> j + 1 < n" for j
    using l [THEN spec, of j] that by simp
  ultimately show "(i + 1 < n \<longrightarrow> Q i) \<and> (\<forall>j. i + 1 \<le> j \<and> j + 1 < n \<longrightarrow> Q j)" by blast
next
  assume r: "(i + 1 < n \<longrightarrow> Q i) \<and> (\<forall>j. i + 1 \<le> j \<and> j + 1 < n \<longrightarrow> Q j)"
  show "\<forall>j. i \<le> j \<and> j + 1 < n \<longrightarrow> Q j"
  proof (intro allI impI)
    fix j assume j: "i \<le> j \<and> j + 1 < n"
    show "Q j"
    proof (cases "j = i")
      case True
      with r j show ?thesis by simp
    next
      case False
      with j have "i + 1 \<le> j" by simp
      with r j show ?thesis by simp
    qed
  qed
qed

lemma check_offsets_iff:
  "check_offsets i n hs doff len lid \<longleftrightarrow>
     (\<forall>j. i \<le> j \<and> j < n \<longrightarrow> offset_ok doff len (hs ! j)) \<and>
     (i < n \<and> i \<noteq> 0 \<longrightarrow> lid < header_id (hs ! i)) \<and>
     (\<forall>j. i \<le> j \<and> j + 1 < n \<longrightarrow> header_id (hs ! j) < header_id (hs ! (j + 1)))"
proof (induction "n - i" arbitrary: i lid)
  case 0
  then show ?case by (auto simp: check_offsets.simps)
next
  case (Suc k)
  then have lt: "i < n" and k: "k = n - (i + 1)" by simp_all
  note ih = Suc.hyps(1) [OF k, of "header_id (hs ! i)"]
  have unfolded: "check_offsets i n hs doff len lid \<longleftrightarrow>
      offset_ok doff len (hs ! i) \<and> (i \<noteq> 0 \<longrightarrow> lid < header_id (hs ! i)) \<and>
      check_offsets (i + 1) n hs doff len (header_id (hs ! i))"
    using lt by (subst check_offsets.simps) (auto simp: Let_def offset_ok_def header_id_def)
  show ?case
    unfolding unfolded ih
    by (subst all_from_split [OF lt], subst all_from_split_next) (use lt in auto)
qed

lemma check_offsets_list:
  "check_offsets 0 (length hs) hs doff len 0 \<longleftrightarrow>
     (\<forall>h \<in> set hs. offset_ok doff len h) \<and> sorted_wrt (<) (map header_id hs)"
proof -
  have "transp ((<) :: nat \<Rightarrow> nat \<Rightarrow> bool)" by (rule transpI) simp
  from sorted_wrt_iff_nth_Suc_transp [OF this, of "map header_id hs"]
  have s: "sorted_wrt (<) (map header_id hs) \<longleftrightarrow>
      (\<forall>j. j + 1 < length hs \<longrightarrow> header_id (hs ! j) < header_id (hs ! (j + 1)))"
    by simp
  show ?thesis
    unfolding check_offsets_iff s all_set_conv_all_nth by simp
qed

lemma read_formats_step:
  assumes "i < n" and "i < length hs" and "buffer t = d"
  shows "\<exists>t'. buffer t' = d \<and>
     read_formats i n t hs =
       (if readable d (hs ! i) then read_formats (i + 1) n t' (hs[i := set_format d (hs ! i)])
        else None)"
proof -
  define h where "h = hs ! i"
  define fmt where "fmt = be16 d (hoffset h)"
  consider (a) "fmt = 0 \<or> fmt = 4" | (b) "fmt = 12 \<or> fmt = 13" | (c) "fmt = 14"
    | (d) "\<not> (fmt = 0 \<or> fmt = 4 \<or> fmt = 12 \<or> fmt = 13 \<or> fmt = 14)" by blast
  then show ?thesis
  proof cases
    case a
    show ?thesis
      apply (rule exI [of _ "t\<lparr>offset := hoffset h + 2 + 2\<rparr>"])
      apply (subst read_formats.simps)
      using assms a
      apply (auto simp: h_def [symmetric] fmt_def [symmetric] readable_def set_format_def Let_def
               ReadU16_def set_offset_def)
      done
  next
    case b
    show ?thesis
      apply (rule exI [of _ "t\<lparr>offset := hoffset h + 2 + 2 + 4\<rparr>"])
      apply (subst read_formats.simps)
      using assms b
      apply (auto simp: h_def [symmetric] fmt_def [symmetric] readable_def set_format_def Let_def
               ReadU16_def ReadU32_def Skip_def set_offset_def)
      apply (simp_all add: numeral_eq_Suc)
      done
  next
    case c
    show ?thesis
      apply (rule exI [of _ "t\<lparr>offset := hoffset h + 2 + 4\<rparr>"])
      apply (subst read_formats.simps)
      using assms c
      apply (auto simp: h_def [symmetric] fmt_def [symmetric] readable_def set_format_def Let_def
               ReadU16_def ReadU32_def set_offset_def)
      done
  next
    case d
    show ?thesis
      apply (rule exI [of _ "t\<lparr>offset := hoffset h + 2\<rparr>"])
      apply (subst read_formats.simps)
      using assms d
      apply (auto simp: h_def [symmetric] fmt_def [symmetric] readable_def set_format_def Let_def
               ReadU16_def set_offset_def)
      done
  qed
qed

lemma read_formats_nth:
  assumes "buffer t = d" and "n \<le> length hs"
  shows "if (\<forall>j. i \<le> j \<and> j < n \<longrightarrow> readable d (hs ! j))
         then (\<exists>hs'. read_formats i n t hs = Some hs' \<and> length hs' = length hs \<and>
                (\<forall>j<length hs. hs' ! j =
                   (if i \<le> j \<and> j < n then set_format d (hs ! j) else hs ! j)))
         else read_formats i n t hs = None"
  using assms
proof (induction "n - i" arbitrary: i t hs)
  case 0
  then have "\<not> i < n" by simp
  then have "read_formats i n t hs = Some hs" by (subst read_formats.simps) simp
  with \<open>\<not> i < n\<close> show ?case by auto
next
  case (Suc k)
  then have lt: "i < n" and k: "k = n - (i + 1)" by simp_all
  with Suc.prems have il: "i < length hs" by simp
  define hs1 where "hs1 = hs[i := set_format d (hs ! i)]"
  from read_formats_step [OF lt il Suc.prems(1)] obtain t' where
    t': "buffer t' = d" and
    step: "read_formats i n t hs =
      (if readable d (hs ! i) then read_formats (i + 1) n t' hs1 else None)"
    unfolding hs1_def by blast
  have len1: "length hs1 = length hs" by (simp add: hs1_def)
  have nth1: "hs1 ! j = (if j = i then set_format d (hs ! i) else hs ! j)" if "j < length hs" for j
    using that by (simp add: hs1_def nth_list_update)
  have n1: "n \<le> length hs1" using Suc.prems(2) len1 by simp
  note ih = Suc.hyps(1) [OF k t' n1]
  have same: "(\<forall>j. i + 1 \<le> j \<and> j < n \<longrightarrow> readable d (hs1 ! j)) \<longleftrightarrow>
      (\<forall>j. i + 1 \<le> j \<and> j < n \<longrightarrow> readable d (hs ! j))"
  proof -
    have "hs1 ! j = hs ! j" if "i + 1 \<le> j \<and> j < n" for j
      using that nth1 [of j] Suc.prems(2) by simp
    then show ?thesis by auto
  qed
  have cond: "(\<forall>j. i \<le> j \<and> j < n \<longrightarrow> readable d (hs ! j)) \<longleftrightarrow>
     readable d (hs ! i) \<and> (\<forall>j. i + 1 \<le> j \<and> j < n \<longrightarrow> readable d (hs1 ! j))"
    unfolding same by (rule all_from_split [OF lt])
  show ?case
  proof (cases "\<forall>j. i \<le> j \<and> j < n \<longrightarrow> readable d (hs ! j)")
    case True
    with cond have r: "readable d (hs ! i)"
      and c1: "\<forall>j. i + 1 \<le> j \<and> j < n \<longrightarrow> readable d (hs1 ! j)" by simp_all
    from ih [unfolded if_P [OF c1]] obtain hs' where h1: "read_formats (i + 1) n t' hs1 = Some hs'"
      and h2: "length hs' = length hs1"
      and h3: "\<forall>j<length hs1. hs' ! j =
         (if i + 1 \<le> j \<and> j < n then set_format d (hs1 ! j) else hs1 ! j)"
      by blast
    have "hs' ! j = (if i \<le> j \<and> j < n then set_format d (hs ! j) else hs ! j)"
      if j: "j < length hs" for j
    proof (cases "j = i")
      case True
      with h3 [rule_format, of j] j len1 nth1 [OF j] lt show ?thesis by simp
    next
      case False
      with h3 [rule_format, of j] j len1 nth1 [OF j] lt show ?thesis by auto
    qed
    with True step r h1 h2 len1 show ?thesis by simp
  next
    case False
    show ?thesis
    proof (cases "readable d (hs ! i)")
      case True
      with False cond have nc: "\<not> (\<forall>j. i + 1 \<le> j \<and> j < n \<longrightarrow> readable d (hs1 ! j))" by simp
      from ih [unfolded if_not_P [OF nc]] have "read_formats (i + 1) n t' hs1 = None" .
      with False step True show ?thesis by simp
    next
      case r: False
      with False step show ?thesis by simp
    qed
  qed
qed

lemma read_formats_list:
  assumes "buffer t = d"
  shows "read_formats 0 (length hs) t hs =
     (if \<forall>h \<in> set hs. readable d h then Some (map (set_format d) hs) else None)"
proof (cases "\<forall>h \<in> set hs. readable d h")
  case True
  then have c: "\<forall>j. 0 \<le> j \<and> j < length hs \<longrightarrow> readable d (hs ! j)" by simp
  from read_formats_nth [where i = 0 and hs = hs and n = "length hs", OF assms order_refl,
      unfolded if_P [OF c]]
  obtain hs' where
    h: "read_formats 0 (length hs) t hs = Some hs'" "length hs' = length hs"
       "\<forall>j<length hs. hs' ! j =
          (if 0 \<le> j \<and> j < length hs then set_format d (hs ! j) else hs ! j)"
    by blast
  have "hs' = map (set_format d) hs"
    by (rule nth_equalityI) (use h in simp_all)
  with h True show ?thesis by simp
next
  case False
  then have c: "\<not> (\<forall>j. 0 \<le> j \<and> j < length hs \<longrightarrow> readable d (hs ! j))"
    by (auto simp: in_set_conv_nth)
  from read_formats_nth [where i = 0 and hs = hs and n = "length hs", OF assms order_refl,
      unfolded if_not_P [OF c]]
  have "read_formats 0 (length hs) t hs = None" .
  with False show ?thesis by simp
qed

lemma check_lengths_iff:
  "check_lengths i n hs len \<longleftrightarrow> (\<forall>j. i \<le> j \<and> j < n \<longrightarrow> length_ok len (hs ! j))"
proof (induction "n - i" arbitrary: i)
  case 0
  then show ?case by (auto simp: check_lengths.simps)
next
  case (Suc k)
  then have lt: "i < n" and k: "k = n - (i + 1)" by simp_all
  note ih = Suc.hyps(1) [OF k]
  have unfolded: "check_lengths i n hs len \<longleftrightarrow>
      length_ok len (hs ! i) \<and> check_lengths (i + 1) n hs len"
    using lt by (subst check_lengths.simps) (auto simp: Let_def length_ok_def)
  show ?case
    unfolding unfolded ih by (subst all_from_split [OF lt]) simp
qed

lemma check_lengths_list:
  "check_lengths 0 (length hs) hs len \<longleftrightarrow> (\<forall>h \<in> set hs. length_ok len h)"
  unfolding check_lengths_iff all_set_conv_all_nth by simp

lemma events_Cons: "events ((a, b) # xs) = (a, 1) # (b, 0) # events xs"
  by (simp add: events_def)

lemma events_Nil: "events [] = []"
  by (simp add: events_def)

lemma events_append: "events (xs @ ys) = events xs @ events ys"
  by (simp add: events_def)

lemma collect_extents_distinct:
  assumes "n \<le> length hs"
    and "\<forall>j k. j < k \<and> k < n \<longrightarrow> extent (hs ! j) \<noteq> extent (hs ! k)"
    and "uniq = {extent (hs ! j) | j. j < i}" and "i \<le> n"
  shows "collect_extents i n hs uniq acc = acc @ events (map extent (drop i (take n hs)))"
  using assms(3,4)
proof (induction "n - i" arbitrary: i uniq acc)
  case 0
  then have "i = n" by simp
  then show ?case by (subst collect_extents.simps) (simp add: events_Nil)
next
  case (Suc k)
  then have lt: "i < n" and k: "k = n - (i + 1)" and le: "i + 1 \<le> n" by simp_all
  have notin: "extent (hs ! i) \<notin> uniq"
  proof
    assume "extent (hs ! i) \<in> uniq"
    with Suc.prems(1) obtain j where j: "j < i" "extent (hs ! i) = extent (hs ! j)" by auto
    with assms(2) [rule_format, of j i] lt show False by simp
  qed
  have u: "insert (extent (hs ! i)) uniq = {extent (hs ! j) | j. j < i + 1}"
    using Suc.prems(1) by (auto simp: less_Suc_eq)
  have d: "drop i (take n hs) = hs ! i # drop (i + 1) (take n hs)"
    using Cons_nth_drop_Suc [of i "take n hs"] lt assms(1) by simp
  have "collect_extents i n hs uniq acc =
      collect_extents (i + 1) n hs (insert (extent (hs ! i)) uniq)
        (acc @ [(hoffset (hs ! i), 1), (snd (extent (hs ! i)), 0)])"
    using lt notin by (subst collect_extents.simps) (simp add: Let_def extent_def)
  also have "\<dots> = (acc @ [(hoffset (hs ! i), 1), (snd (extent (hs ! i)), 0)]) @
      events (map extent (drop (i + 1) (take n hs)))"
    by (rule Suc.hyps(1) [OF k u le])
  also have "\<dots> = acc @ events (map extent (drop i (take n hs)))"
    unfolding d by (simp add: events_def extent_def)
  finally show ?case .
qed

lemma collect_extents_list:
  assumes "distinct (map extent hs)"
  shows "collect_extents 0 (length hs) hs {} [] = events (map extent hs)"
proof -
  have "\<forall>j k. j < k \<and> k < length hs \<longrightarrow> extent (hs ! j) \<noteq> extent (hs ! k)"
    using assms by (auto simp: distinct_conv_nth)
  from collect_extents_distinct [OF order_refl this, of "{}" 0 "[]"] show ?thesis by simp
qed

lemma count_overlap_Suc: "count_overlap (Suc i) (x # xs) c = count_overlap i xs c"
proof (induction "length xs - i" arbitrary: i c)
  case 0
  then show ?case by (subst count_overlap.simps, subst (2) count_overlap.simps) simp
next
  case (Suc k)
  then have lt: "i < length xs" and k: "k = length xs - (i + 1)" by simp_all
  from Suc.hyps(1) [OF k] have ih: "count_overlap (Suc (Suc i)) (x # xs) c' =
      count_overlap (Suc i) xs c'" for c' by simp
  show ?case
    using lt by (subst count_overlap.simps, subst (2) count_overlap.simps) (simp add: Let_def ih)
qed

lemma count_overlap_Nil: "count_overlap 0 [] c"
  by (subst count_overlap.simps) simp

lemma count_overlap_Cons:
  "count_overlap 0 (x # xs) c \<longleftrightarrow>
     \<not> c + (if snd x \<noteq> 0 then 1 else - 1) > 1 \<and>
     count_overlap 0 xs (c + (if snd x \<noteq> 0 then 1 else - 1))"
  by (subst count_overlap.simps) (simp add: Let_def count_overlap_Suc)

lemma count_overlap_events: "count_overlap 0 (events xs) 0"
proof (induction xs)
  case Nil
  show ?case by (simp add: events_Nil count_overlap_Nil)
next
  case (Cons x xs)
  obtain a b where x: "x = (a, b)" by (cases x)
  show ?case unfolding x events_Cons using Cons by (simp add: count_overlap_Cons)
qed

lemma chained_lower: "chained p xs \<Longrightarrow> e \<in> set (events xs) \<Longrightarrow> p \<le> fst e"
proof (induction xs arbitrary: p)
  case Nil
  then show ?case by (simp add: events_Nil)
next
  case (Cons x xs)
  obtain a b where x: "x = (a, b)" by (cases x)
  from Cons.prems have c: "p \<le> a" "a < b" "chained b xs" by (simp_all add: x)
  from Cons.prems(2) consider "e = (a, 1)" | "e = (b, 0)" | "e \<in> set (events xs)"
    by (auto simp: x events_Cons)
  then show ?case
  proof cases
    case 3
    from Cons.IH [OF c(3) 3] c show ?thesis by simp
  qed (use c in simp_all)
qed

lemma sorted_events: "chained p xs \<Longrightarrow> sorted (events xs)"
proof (induction xs arbitrary: p)
  case Nil
  show ?case by (simp add: events_Nil)
next
  case (Cons x xs)
  obtain a b where x: "x = (a, b)" by (cases x)
  from Cons.prems have c: "p \<le> a" "a < b" "chained b xs" by (simp_all add: x)
  have low: "b \<le> fst e" if "e \<in> set (events xs)" for e
    using chained_lower [OF c(3) that] .
  have "(a, 1) \<le> e \<and> (b, 0) \<le> e" if "e \<in> set (events xs)" for e
    using low [OF that] c(2) by (cases e) auto
  with Cons.IH [OF c(3)] c show ?case
    by (auto simp: x events_Cons)
qed

lemma mset_events:
  "mset (events xs) = (\<Sum>x\<in>#mset xs. {#(fst x, 1 :: nat), (snd x, 0)#})"
  by (induction xs) (auto simp: events_def)

lemma chained_fst: "chained p xs \<Longrightarrow> x \<in> set xs \<Longrightarrow> p \<le> fst x"
proof (induction xs arbitrary: p)
  case Nil
  then show ?case by simp
next
  case (Cons y ys)
  obtain a b where y: "y = (a, b)" by (cases y)
  from Cons.prems have c: "p \<le> a" "a < b" "chained b ys" by (simp_all add: y)
  show ?case
  proof (cases "x = y")
    case True
    with c y show ?thesis by simp
  next
    case False
    with Cons.prems have "x \<in> set ys" by simp
    from Cons.IH [OF c(3) this] c show ?thesis by simp
  qed
qed

lemma chained_distinct: "chained p xs \<Longrightarrow> distinct xs"
proof (induction xs arbitrary: p)
  case Nil
  show ?case by simp
next
  case (Cons y ys)
  obtain a b where y: "y = (a, b)" by (cases y)
  from Cons.prems have c: "p \<le> a" "a < b" "chained b ys" by (simp_all add: y)
  have "y \<notin> set ys"
  proof
    assume "y \<in> set ys"
    from chained_fst [OF c(3) this] c y show False by simp
  qed
  with Cons.IH [OF c(3)] show ?case by simp
qed

lemma no_overlap_chained:
  assumes "chained p ys" and "mset ys = mset (map extent hs)"
  shows "count_overlap 0 (sort (collect_extents 0 (length hs) hs {} [])) 0"
proof -
  from chained_distinct [OF assms(1)] assms(2) have "distinct (map extent hs)"
    by (metis mset_eq_imp_distinct_iff)
  then have c: "collect_extents 0 (length hs) hs {} [] = events (map extent hs)"
    by (rule collect_extents_list)
  have "mset (events ys) = mset (events (map extent hs))"
    unfolding mset_events assms(2) ..
  from properties_for_sort [OF this sorted_events [OF assms(1)]]
  show ?thesis unfolding c by (simp add: count_overlap_events)
qed

lemma length_dir_headers [simp]: "length (dir_headers d n) = n"
  by (simp add: dir_headers_def)

lemma parse_directory_eq:
  "parse_directory fl data =
     (if directory_ok data \<and> maxp fl \<noteq> None
      then Some (be16 data 2, map (set_format data) (dir_headers data (be16 data 2)),
                 unat (maxp_num_glyphs (the (maxp fl))))
      else None)"
proof -
  define n where "n = be16 data 2"
  define hs0 where "hs0 = dir_headers data n"
  have len: "length hs0 = n" by (simp add: hs0_def)
  have r: "read_subtable_headers 0 n \<lparr>buffer = data, offset = 4\<rparr> [] =
      (if 4 + 8 * n \<le> length data then Some (hs0, \<lparr>buffer = data, offset = 4 + 8 * n\<rparr>) else None)"
    if "4 \<le> length data"
    using read_subtable_headers_eq [of 0 n "\<lparr>buffer = data, offset = 4\<rparr>" "[]"] that
    by (simp add: hs0_def dir_headers_def)
  have co: "check_offsets 0 n hs0 p q 0 \<longleftrightarrow>
      (\<forall>h \<in> set hs0. offset_ok p q h) \<and> sorted_wrt (<) (map header_id hs0)" for p q
    using check_offsets_list [of hs0 p q] len by simp
  have rf: "read_formats 0 n \<lparr>buffer = data, offset = p\<rparr> hs0 =
      (if \<forall>h \<in> set hs0. readable data h then Some (map (set_format data) hs0) else None)" for p
    using read_formats_list [of "\<lparr>buffer = data, offset = p\<rparr>" data hs0] len by simp
  have cl: "check_lengths 0 n (map (set_format data) hs0) q \<longleftrightarrow>
      (\<forall>h \<in> set (map (set_format data) hs0). length_ok q h)" for q
    using check_lengths_list [of "map (set_format data) hs0" q] len by simp
  show ?thesis
  proof (cases "4 \<le> length data")
    case False
    then show ?thesis
      by (auto simp: parse_directory_def directory_ok_def Let_def ReadU16_def new_Buffer_def)
  next
    case True
    have rd1: "ReadU16 (new_Buffer data) = Some (be16 data 0, \<lparr>buffer = data, offset = 2\<rparr>)"
      using True by (simp add: ReadU16_def new_Buffer_def)
    have rd2: "ReadU16 \<lparr>buffer = data, offset = 2\<rparr> = Some (n, \<lparr>buffer = data, offset = 4\<rparr>)"
      using True by (simp add: ReadU16_def n_def)
    show ?thesis
      unfolding parse_directory_def directory_ok_def Let_def n_def [symmetric] hs0_def [symmetric]
      using True
      by (auto simp: rd1 rd2 failure_if_def r co rf cl)
  qed
qed

subsection \<open>Invariants of a successful parse\<close>

lemma parse_subtables_list:
  "parse_subtables i (length hs) hs d g fl = parse_list (drop i hs) d g fl"
proof (induction "length hs - i" arbitrary: i fl)
  case 0
  then show ?case by (subst parse_subtables.simps) simp
next
  case (Suc k)
  then have lt: "i < length hs" and k: "k = length hs - (i + 1)" by simp_all
  have d: "drop i hs = hs ! i # drop (i + 1) hs"
    using Cons_nth_drop_Suc [OF lt] by simp
  show ?case
    unfolding d using lt Suc.hyps(1) [OF k]
    by (subst parse_subtables.simps) (simp split: prod.splits)
qed

lemma parse_list_append:
  "parse_list xs d g fl = (True, fl') \<Longrightarrow> parse_list (xs @ ys) d g fl = parse_list ys d g fl'"
  by (induction xs arbitrary: fl) (auto split: prod.splits if_splits)

lemma length_slice: "off + len \<le> length d \<Longrightarrow> length (slice d off len) = len"
  by (simp add: slice_def)

lemma length_slice_le: "length (slice d off len) \<le> len"
  by (simp add: slice_def)

lemma be16_slice:
  "q + 2 \<le> len \<Longrightarrow> off + len \<le> length d \<Longrightarrow> be16 (slice d off len) q = be16 d (off + q)"
  by (simp add: slice_def be16_def add.assoc)

lemma be32_slice:
  "q + 4 \<le> len \<Longrightarrow> off + len \<le> length d \<Longrightarrow> be32 (slice d off len) q = be32 d (off + q)"
  by (simp add: slice_def be32_def add.assoc)

lemma parse_subtable_format_cases:
  assumes "P (True, fl)"
    and "\<And>e. format h = 4 \<Longrightarrow> e = 0 \<or> e = 1 \<Longrightarrow>
           P (Parse3x4 fl e (slice d (hoffset h) (hlength h)) g)"
    and "format h = 12 \<Longrightarrow> P (Parse31012 fl (slice d (hoffset h) (hlength h)) g)"
    and "format h = 12 \<Longrightarrow> P (Parse31012 (upd_cmap (\<lambda>c. c\<lparr>subtable_3_10_12 := []\<rparr>) fl)
              (slice d (hoffset h) (hlength h)) g)"
    and "format h = 13 \<Longrightarrow> P (Parse31013 (upd_cmap (\<lambda>c. c\<lparr>subtable_3_10_13 := []\<rparr>) fl)
              (slice d (hoffset h) (hlength h)) g)"
    and "format h = 14 \<Longrightarrow> P (Parse0514 fl (slice d (hoffset h) (hlength h)) g)"
    and "format h = 0 \<Longrightarrow> platform h = 1 \<Longrightarrow> encoding h = 0 \<Longrightarrow>
           P (Parse100 fl (slice d (hoffset h) (hlength h)))"
  shows "P (parse_subtable h d g fl)"
  unfolding parse_subtable_def Let_def using assms by simp

lemma Parse3x4_read_length: "Parse3x4_read s = Some r \<Longrightarrow> 6 \<le> length s"
  unfolding Parse3x4_read_def
  by (auto simp: Skip_def ReadU16_def new_Buffer_def split: Option.bind_splits if_splits)

lemma accepts_3x4_length: "accepts_3x4 e s g \<Longrightarrow> 6 \<le> length s"
  using Parse3x4_read_length [of s] by (auto simp: accepts_3x4_def split: option.splits)

lemma Parse0514_length: "fst (Parse0514 fl s g) \<Longrightarrow> 10 \<le> length s"
  unfolding Parse0514_def
  by (auto simp: Skip_def ReadU32_def new_Buffer_def split: Option.bind_splits if_splits option.splits)

lemma read_glyph_ids_length:
  "read_glyph_ids i b acc = (True, gl) \<Longrightarrow> i \<le> kFormat0ArraySize \<Longrightarrow>
   length gl = length acc + (kFormat0ArraySize - i)"
proof (induction "kFormat0ArraySize - i" arbitrary: i b acc)
  case 0
  then show ?case by (subst (asm) read_glyph_ids.simps) simp
next
  case (Suc k)
  then have lt: "i < kFormat0ArraySize" and k: "k = kFormat0ArraySize - (i + 1)" by simp_all
  from Suc.prems(1) lt obtain v b' where
    r: "read_glyph_ids (i + 1) b' (acc @ [of_nat v]) = (True, gl)"
    by (subst (asm) read_glyph_ids.simps) (auto split: option.splits)
  from Suc.hyps(1) [OF k r] lt show ?case by simp
qed

lemma set_format_fields [simp]:
  "hoffset (set_format d h) = hoffset h"
  "platform (set_format d h) = platform h"
  "encoding (set_format d h) = encoding h"
  "format (set_format d h) = be16 d (hoffset h)"
  by (simp_all add: set_format_def Let_def)

lemma header_id_set_format [simp]: "header_id (set_format d h) = header_id h"
  by (simp add: header_id_def)

lemma hlength_set_format:
  "hlength (set_format d h) =
     (if be16 d (hoffset h) = 0 \<or> be16 d (hoffset h) = 4 then be16 d (hoffset h + 2)
      else if be16 d (hoffset h) = 12 \<or> be16 d (hoffset h) = 13 then be32 d (hoffset h + 4)
      else if be16 d (hoffset h) = 14 then be32 d (hoffset h + 2)
      else 0)"
  by (simp add: set_format_def Let_def)

text \<open>The slice of a header that passed the directory checks, when it is long enough to
  have been parsed: its length is the length field, and it starts with its format.\<close>

lemma slice_fits:
  assumes "\<not> hoffset h > 1024 * 1024 * 1024" and "length_ok (length d) h"
    and "1 \<le> length (slice d (hoffset h) (hlength h))"
  shows "hoffset h + hlength h \<le> length d" and "\<not> hlength h > 1024 * 1024 * 1024"
    and "length (slice d (hoffset h) (hlength h)) = hlength h"
proof -
  from assms(3) length_slice_le [of d "hoffset h" "hlength h"] have "hlength h \<noteq> 0" by auto
  with assms(2) have l: "\<not> hlength h > 1024 * 1024 * 1024"
    and e: "\<not> (hoffset h + hlength h) mod 2 ^ 32 > length d"
    by (auto simp: length_ok_def)
  from l assms(1) have "hoffset h + hlength h < 2 ^ 32" by simp
  with e show "hoffset h + hlength h \<le> length d" by simp
  then show "length (slice d (hoffset h) (hlength h)) = hlength h" by (rule length_slice)
  show "\<not> hlength h > 1024 * 1024 * 1024" by (rule l)
qed

lemma slice_4_ok:
  assumes h: "h = set_format d h0" and f: "format h = 4"
    and o: "\<not> hoffset h > 1024 * 1024 * 1024" and l: "length_ok (length d) h"
    and n: "6 \<le> length (slice d (hoffset h) (hlength h))"
  shows "slot_ok_4 (slice d (hoffset h) (hlength h))"
proof -
  from n have "1 \<le> length (slice d (hoffset h) (hlength h))" by simp
  note fit = slice_fits [OF o l this]
  from f h have f0: "be16 d (hoffset h) = 4" by simp
  with h have len: "hlength h = be16 d (hoffset h + 2)" by (simp add: hlength_set_format)
  from n fit(3) have n': "6 \<le> hlength h" by simp
  have "be16 (slice d (hoffset h) (hlength h)) 0 = be16 d (hoffset h + 0)"
    by (rule be16_slice) (use n' fit in simp_all)
  moreover have "be16 (slice d (hoffset h) (hlength h)) 2 = be16 d (hoffset h + 2)"
    by (rule be16_slice) (use n' fit in simp_all)
  ultimately show ?thesis using f0 len fit(3) n' by (simp add: slot_ok_4_def)
qed

lemma slice_14_ok:
  assumes h: "h = set_format d h0" and f: "format h = 14"
    and o: "\<not> hoffset h > 1024 * 1024 * 1024" and l: "length_ok (length d) h"
    and n: "10 \<le> length (slice d (hoffset h) (hlength h))"
  shows "slot_ok_14 (slice d (hoffset h) (hlength h))"
proof -
  from n have "1 \<le> length (slice d (hoffset h) (hlength h))" by simp
  note fit = slice_fits [OF o l this]
  from f h have f0: "be16 d (hoffset h) = 14" by simp
  with h have len: "hlength h = be32 d (hoffset h + 2)" by (simp add: hlength_set_format)
  from n fit(3) have n': "10 \<le> hlength h" by simp
  have "be16 (slice d (hoffset h) (hlength h)) 0 = be16 d (hoffset h + 0)"
    by (rule be16_slice) (use n' fit in simp_all)
  moreover have "be32 (slice d (hoffset h) (hlength h)) 2 = be32 d (hoffset h + 2)"
    by (rule be32_slice) (use n' fit in simp_all)
  ultimately show ?thesis using f0 len fit n' by (simp add: slot_ok_14_def)
qed

lemma slots_ok_upd_cmap:
  assumes "slots_ok fl"
    and "\<forall>s. subtable_3_0_4 (f (the_cmap fl)) = Some s \<longrightarrow> slot_ok_4 s"
    and "\<forall>s. subtable_3_1_4 (f (the_cmap fl)) = Some s \<longrightarrow> slot_ok_4 s"
    and "\<forall>s. subtable_0_5_14 (f (the_cmap fl)) = Some s \<longrightarrow> slot_ok_14 s"
    and "length (subtable_3_10_12 (f (the_cmap fl))) \<le> kMaxCMAPGroups"
  shows "slots_ok (upd_cmap f fl)"
  using assms by (simp add: slots_ok_def the_cmap_upd_cmap)

lemma slots_ok_parse_subtable:
  assumes inv: "slots_ok fl" and h: "h = set_format d h0"
    and o: "\<not> hoffset h > 1024 * 1024 * 1024" and l: "length_ok (length d) h"
    and p: "parse_subtable h d g fl = (True, fl')"
  shows "slots_ok fl'"
proof -
  let ?sub = "slice d (hoffset h) (hlength h)"
  have c: "cmap fl \<noteq> None" using inv by (simp add: slots_ok_def)
  have groups: "slots_ok (upd_cmap (\<lambda>c. c\<lparr>subtable_3_10_12 := gs\<rparr>) fl1)"
    if "slots_ok fl1" "length gs \<le> kMaxCMAPGroups" for gs fl1
    using that(1) by (rule slots_ok_upd_cmap) (use that in \<open>simp_all add: slots_ok_def\<close>)
  have groups13: "slots_ok (upd_cmap (\<lambda>c. c\<lparr>subtable_3_10_13 := gs\<rparr>) fl1)"
    if "slots_ok fl1" for gs fl1
    using that by (rule slots_ok_upd_cmap) (use that in \<open>simp_all add: slots_ok_def\<close>)
  have glyphs: "slots_ok (upd_cmap (\<lambda>c. c\<lparr>subtable_1_0_0 := gs\<rparr>) fl1)"
    if "slots_ok fl1" for gs fl1
    using that by (rule slots_ok_upd_cmap) (use that in \<open>simp_all add: slots_ok_def\<close>)
  have p12: "slots_ok fl'" if "slots_ok fl1" "Parse31012 fl1 ?sub g = (True, fl')" for fl1
    using Parse31012_result [OF that(2)] groups [OF that(1)] by auto
  have "parse_subtable h d g fl = (True, fl') \<longrightarrow> slots_ok fl'"
  proof (rule parse_subtable_format_cases)
    show "(True, fl) = (True, fl') \<longrightarrow> slots_ok fl'" using inv by auto
  next
    fix e :: nat
    assume f: "format h = 4" and e: "e = 0 \<or> e = 1"
    show "Parse3x4 fl e ?sub g = (True, fl') \<longrightarrow> slots_ok fl'"
    proof
      assume q: "Parse3x4 fl e ?sub g = (True, fl')"
      from Parse3x4_effect [OF q] have acc: "accepts_3x4 e ?sub g"
        and cm: "cmap fl' = map_option (\<lambda>c. if e = 0 then c\<lparr>subtable_3_0_4 := Some ?sub\<rparr>
                                              else c\<lparr>subtable_3_1_4 := Some ?sub\<rparr>) (cmap fl)"
        by simp_all
      from slice_4_ok [OF h f o l accepts_3x4_length [OF acc]] have ok: "slot_ok_4 ?sub" .
      from c obtain c0 where c0: "cmap fl = Some c0" by auto
      with inv cm ok show "slots_ok fl'"
        by (auto simp: slots_ok_def the_cmap_def)
    qed
  next
    show "Parse31012 fl ?sub g = (True, fl') \<longrightarrow> slots_ok fl'"
      using p12 [OF inv] by blast
  next
    have "slots_ok (upd_cmap (\<lambda>c. c\<lparr>subtable_3_10_12 := []\<rparr>) fl)"
      by (rule groups [OF inv]) simp
    from p12 [OF this]
    show "Parse31012 (upd_cmap (\<lambda>c. c\<lparr>subtable_3_10_12 := []\<rparr>) fl) ?sub g = (True, fl') \<longrightarrow>
        slots_ok fl'" by blast
  next
    show "Parse31013 (upd_cmap (\<lambda>c. c\<lparr>subtable_3_10_13 := []\<rparr>) fl) ?sub g = (True, fl') \<longrightarrow>
        slots_ok fl'"
      using groups13 [OF groups13 [OF inv]] groups13 [OF inv] by (auto dest!: Parse31013_frame)
  next
    assume f: "format h = 14"
    show "Parse0514 fl ?sub g = (True, fl') \<longrightarrow> slots_ok fl'"
    proof
      assume q: "Parse0514 fl ?sub g = (True, fl')"
      then have "fst (Parse0514 fl ?sub g)" by simp
      from slice_14_ok [OF h f o l Parse0514_length [OF this]] have ok: "slot_ok_14 ?sub" .
      from Parse0514_effect [OF q] have "fl' = upd_cmap (\<lambda>c. c\<lparr>subtable_0_5_14 := Some ?sub\<rparr>) fl"
        by simp
      moreover have "slots_ok (upd_cmap (\<lambda>c. c\<lparr>subtable_0_5_14 := Some ?sub\<rparr>) fl)"
        using inv by (rule slots_ok_upd_cmap) (use inv ok in \<open>simp_all add: slots_ok_def\<close>)
      ultimately show "slots_ok fl'" by simp
    qed
  next
    show "Parse100 fl ?sub = (True, fl') \<longrightarrow> slots_ok fl'"
      using inv glyphs [OF inv] by (auto dest!: Parse100_frame)
  qed
  with p show ?thesis by simp
qed

lemma glyphs_ok_frame:
  assumes "glyphs_ok j hs fl" and "cmap fl' \<noteq> None"
    and "subtable_1_0_0 (the_cmap fl') = subtable_1_0_0 (the_cmap fl)"
  shows "glyphs_ok (j + 1) hs fl'"
  using assms by (auto simp: glyphs_ok_def less_Suc_eq)

lemma glyphs_ok_parse_subtable:
  assumes inv: "glyphs_ok j hs fl" and s: "sorted_wrt (<) (map header_id hs)"
    and j: "j < length hs" and p: "parse_subtable (hs ! j) d g fl = (True, fl')"
  shows "glyphs_ok (j + 1) hs fl'"
proof -
  let ?h = "hs ! j"
  let ?sub = "slice d (hoffset ?h) (hlength ?h)"
  have c: "cmap fl \<noteq> None" using inv by (simp add: glyphs_ok_def)
  let ?f12 = "upd_cmap (\<lambda>c. c\<lparr>subtable_3_10_12 := []\<rparr>) fl"
  let ?f13 = "upd_cmap (\<lambda>c. c\<lparr>subtable_3_10_13 := []\<rparr>) fl"
  have c12: "cmap ?f12 \<noteq> None" and c13: "cmap ?f13 \<noteq> None" using c by simp_all
  have g12: "subtable_1_0_0 (the_cmap ?f12) = subtable_1_0_0 (the_cmap fl)"
    and g13: "subtable_1_0_0 (the_cmap ?f13) = subtable_1_0_0 (the_cmap fl)"
    using c by (simp_all add: the_cmap_upd_cmap)
  have "parse_subtable ?h d g fl = (True, fl') \<longrightarrow> glyphs_ok (j + 1) hs fl'"
  proof (rule parse_subtable_format_cases)
    show "(True, fl) = (True, fl') \<longrightarrow> glyphs_ok (j + 1) hs fl'"
      using glyphs_ok_frame [OF inv c] by auto
  next
    fix e :: nat
    show "Parse3x4 fl e ?sub g = (True, fl') \<longrightarrow> glyphs_ok (j + 1) hs fl'"
    proof
      assume q: "Parse3x4 fl e ?sub g = (True, fl')"
      from Parse3x4_keeps_cmap [OF c, of e ?sub g] q have "cmap fl' \<noteq> None" by simp
      with cmap_Parse3x4 [OF c q] show "glyphs_ok (j + 1) hs fl'"
        by (intro glyphs_ok_frame [OF inv]) simp_all
    qed
  next
    show "Parse31012 fl ?sub g = (True, fl') \<longrightarrow> glyphs_ok (j + 1) hs fl'"
    proof
      assume q: "Parse31012 fl ?sub g = (True, fl')"
      from Parse31012_keeps_cmap [OF c, of ?sub g] q have "cmap fl' \<noteq> None" by simp
      with cmap_Parse31012 [OF c q] show "glyphs_ok (j + 1) hs fl'"
        by (intro glyphs_ok_frame [OF inv]) simp_all
    qed
  next
    show "Parse31012 ?f12 ?sub g = (True, fl') \<longrightarrow> glyphs_ok (j + 1) hs fl'"
    proof
      assume q: "Parse31012 ?f12 ?sub g = (True, fl')"
      from Parse31012_keeps_cmap [OF c12, of ?sub g] q have "cmap fl' \<noteq> None" by simp
      with cmap_Parse31012 [OF c12 q] g12 show "glyphs_ok (j + 1) hs fl'"
        by (intro glyphs_ok_frame [OF inv]) simp_all
    qed
  next
    show "Parse31013 ?f13 ?sub g = (True, fl') \<longrightarrow> glyphs_ok (j + 1) hs fl'"
    proof
      assume q: "Parse31013 ?f13 ?sub g = (True, fl')"
      from Parse31013_keeps_cmap [OF c13, of ?sub g] q have "cmap fl' \<noteq> None" by simp
      with cmap_Parse31013 [OF c13 q] g13 show "glyphs_ok (j + 1) hs fl'"
        by (intro glyphs_ok_frame [OF inv]) simp_all
    qed
  next
    show "Parse0514 fl ?sub g = (True, fl') \<longrightarrow> glyphs_ok (j + 1) hs fl'"
    proof
      assume q: "Parse0514 fl ?sub g = (True, fl')"
      from Parse0514_keeps_cmap [OF c, of ?sub g] q have "cmap fl' \<noteq> None" by simp
      with cmap_Parse0514 [OF c q] show "glyphs_ok (j + 1) hs fl'"
        by (intro glyphs_ok_frame [OF inv]) simp_all
    qed
  next
    assume pe: "platform ?h = 1" "encoding ?h = 0"
    then have id: "header_id ?h = 65536" by (simp add: header_id_def)
    have none: "header_id (hs ! k) \<noteq> 65536" if "k < j" for k
    proof -
      from that j have "k < length hs" by simp
      with sorted_wrt_nth_less [OF s that] j id show ?thesis by simp
    qed
    with inv have empty: "subtable_1_0_0 (the_cmap fl) = []" by (auto simp: glyphs_ok_def)
    show "Parse100 fl ?sub = (True, fl') \<longrightarrow> glyphs_ok (j + 1) hs fl'"
    proof
      assume q: "Parse100 fl ?sub = (True, fl')"
      then obtain b gl where r: "read_glyph_ids 0 b (subtable_1_0_0 (the_cmap fl)) = (True, gl)"
        and f: "fl' = upd_cmap (\<lambda>c. c\<lparr>subtable_1_0_0 := gl\<rparr>) fl"
        unfolding Parse100_def by (auto split: option.splits prod.splits)
      from read_glyph_ids_length [OF r] empty have "length gl = kFormat0ArraySize" by simp
      with f c id j show "glyphs_ok (j + 1) hs fl'"
        by (auto simp: glyphs_ok_def the_cmap_upd_cmap)
    qed
  qed
  with p show ?thesis by simp
qed

lemma set_format_idem: "set_format d (set_format d h) = set_format d h"
  by (simp add: set_format_def Let_def)

lemma first_parse_facts:
  assumes "ots_cmap_parse fl data = (True, fl1)"
  shows "\<exists>m. maxp fl = Some m \<and> slots_ok fl1 \<and>
     (subtable_1_0_0 (the_cmap fl1) = [] \<or>
      length (subtable_1_0_0 (the_cmap fl1)) = kFormat0ArraySize) \<and>
     opaque_accepted fl (unat (maxp_num_glyphs m)) fl1 \<and>
     groups_ok_31012 (unat (maxp_num_glyphs m)) (subtable_3_10_12 (the_cmap fl1))"
proof -
  let ?fl = "fl\<lparr>cmap := Some new_OpenTypeCMAP\<rparr>"
  from assms obtain n hs g where dir: "parse_directory ?fl data = Some (n, hs, g)"
    and sub: "parse_subtables 0 n hs data g ?fl = (True, fl1)"
    unfolding ots_cmap_parse_def Let_def by (auto split: option.splits)
  from parse_directory_num_glyphs [OF dir] obtain m where
    m: "maxp fl = Some m" "g = unat (maxp_num_glyphs m)" by auto
  define hs0 where "hs0 = dir_headers data n"
  from dir have ok: "directory_ok data" and n: "n = be16 data 2"
    and hs: "hs = map (set_format data) hs0"
    unfolding parse_directory_eq hs0_def by (auto split: if_splits)
  have len: "length hs = n" by (simp add: hs hs0_def)
  from ok n have off: "\<forall>h \<in> set hs0. offset_ok (4 + 8 * n) (length data) h"
    and srt: "sorted_wrt (<) (map header_id hs0)"
    and lok: "\<forall>h \<in> set hs. length_ok (length data) h"
    unfolding directory_ok_def Let_def hs hs0_def by simp_all
  have srt': "sorted_wrt (<) (map header_id hs)"
    using srt by (simp add: hs comp_def)
  have hd: "hs ! j = set_format data (hs0 ! j)" "\<not> hoffset (hs ! j) > 1024 * 1024 * 1024"
      "length_ok (length data) (hs ! j)" if "j < n" for j
  proof -
    from that len have j: "j < length hs0" by (simp add: hs)
    then show "hs ! j = set_format data (hs0 ! j)" by (simp add: hs)
    from j off have "offset_ok (4 + 8 * n) (length data) (hs0 ! j)" by simp
    with j show "\<not> hoffset (hs ! j) > 1024 * 1024 * 1024" by (simp add: hs offset_ok_def)
    from that len lok show "length_ok (length data) (hs ! j)" by simp
  qed
  have init1: "slots_ok ?fl"
    by (simp add: slots_ok_def the_cmap_def new_OpenTypeCMAP_def)
  have "(True \<longrightarrow> slots_ok fl1) \<and> (\<not> True \<longrightarrow> True)"
  proof (rule parse_subtables_induct [where I = "\<lambda>_. slots_ok" and F = "\<lambda>_. True",
          OF init1 _ _ sub])
    fix j f ok f'
    assume j: "j < n" and inv: "slots_ok f" and p: "parse_subtable (hs ! j) data g f = (ok, f')"
    show "(ok \<longrightarrow> slots_ok f') \<and> (\<not> ok \<longrightarrow> True)"
    proof (cases ok)
      case True
      with p have "parse_subtable (hs ! j) data g f = (True, f')" by simp
      from slots_ok_parse_subtable [OF inv hd(1) [OF j] hd(2) [OF j] hd(3) [OF j] this] True
      show ?thesis by simp
    qed simp
  qed simp
  then have r1: "slots_ok fl1" by simp
  have init2: "glyphs_ok 0 hs ?fl"
    by (simp add: glyphs_ok_def the_cmap_def new_OpenTypeCMAP_def)
  have "(True \<longrightarrow> glyphs_ok n hs fl1) \<and> (\<not> True \<longrightarrow> True)"
  proof (rule parse_subtables_induct [where I = "\<lambda>j. glyphs_ok j hs" and F = "\<lambda>_. True",
          OF init2 _ _ sub])
    fix j f ok f'
    assume j: "j < n" and inv: "glyphs_ok j hs f"
      and p: "parse_subtable (hs ! j) data g f = (ok, f')"
    show "(ok \<longrightarrow> glyphs_ok (j + 1) hs f') \<and> (\<not> ok \<longrightarrow> True)"
    proof (cases ok)
      case True
      with p have q: "parse_subtable (hs ! j) data g f = (True, f')" by simp
      from j len have "j < length hs" by simp
      from glyphs_ok_parse_subtable [OF inv srt' this q] True show ?thesis by simp
    qed simp
  qed simp
  then have r2: "subtable_1_0_0 (the_cmap fl1) = [] \<or>
      length (subtable_1_0_0 (the_cmap fl1)) = kFormat0ArraySize"
    by (auto simp: glyphs_ok_def)
  have init3: "opaque_accepted fl g ?fl"
    by (simp add: opaque_accepted_def the_cmap_def new_OpenTypeCMAP_def)
  have "(True \<longrightarrow> opaque_accepted fl g fl1) \<and> (\<not> True \<longrightarrow> True)"
    by (rule parse_subtables_induct [where I = "\<lambda>_. opaque_accepted fl g" and F = "\<lambda>_. True",
          OF init3 _ _ sub])
       (auto intro: opaque_accepted_parse_subtable)
  then have r3: "opaque_accepted fl g fl1" by simp
  from ots_cmap_parse_inv_31012 [OF assms m(1)] r1 r2 r3 m show ?thesis by auto
qed

subsection \<open>The directory of a serialised table\<close>

lemma byte_lt: "unat (x :: byte) < 256"
  using unsigned_less [of x] by simp

lemma be16_lt: "be16 d p < 65536"
  using byte_lt [of "d ! p"] byte_lt [of "d ! (p + 1)"] by (simp add: be16_def)

lemma be16_slice_at:
  assumes "slice T off (length body) = body" and "off + length body \<le> length T"
    and "q + 2 \<le> length body"
  shows "be16 T (off + q) = be16 body q"
  using be16_slice [OF assms(3,2)] assms(1) by simp

lemma be32_slice_at:
  assumes "slice T off (length body) = body" and "off + length body \<le> length T"
    and "q + 4 \<le> length body"
  shows "be32 T (off + q) = be32 body q"
  using be32_slice [OF assms(3,2)] assms(1) by simp

lemma slot_header:
  assumes s: "slice T off (length body) = body" and fit: "off + length body \<le> length T"
    and b: "body_ok fmt body" and o: "\<not> off > 1024 * 1024 * 1024"
    and p: "p < 65536" and e: "e < 65536"
  shows "set_format T (header_of (p, e, off)) =
           \<lparr>platform = p, encoding = e, hoffset = off, format = fmt, hlength = length body\<rparr>"
    and "readable T (header_of (p, e, off))"
    and "length_ok (length T)
           \<lparr>platform = p, encoding = e, hoffset = off, format = fmt, hlength = length body\<rparr>"
    and "extent \<lparr>platform = p, encoding = e, hoffset = off, format = fmt, hlength = length body\<rparr>
           = (off, off + length body)"
proof -
  have h: "header_of (p, e, off) =
      \<lparr>platform = p, encoding = e, hoffset = off, format = 0, hlength = 0\<rparr>"
    using o p e by (simp add: header_of_def)
  from b have l: "\<not> length body > 1024 * 1024 * 1024" and two: "2 \<le> length body"
    by (auto simp: body_ok_def)
  have f: "be16 T off = be16 body 0"
    using be16_slice_at [OF s fit, of 0] two by simp
  from b have f0: "be16 body 0 = fmt" by (auto simp: body_ok_def)
  have len: "(if fmt = 0 \<or> fmt = 4 then be16 T (off + 2)
      else if fmt = 12 \<or> fmt = 13 then be32 T (off + 4)
      else if fmt = 14 then be32 T (off + 2) else 0) = length body"
    using b be16_slice_at [OF s fit, of 2] be32_slice_at [OF s fit, of 4]
      be32_slice_at [OF s fit, of 2]
    by (auto simp: body_ok_def)
  have sf: "set_format T \<lparr>platform = p, encoding = e, hoffset = off, format = 0, hlength = 0\<rparr> =
      \<lparr>platform = p, encoding = e, hoffset = off, format = be16 T off,
       hlength = (if be16 T off = 0 \<or> be16 T off = 4 then be16 T (off + 2)
          else if be16 T off = 12 \<or> be16 T off = 13 then be32 T (off + 4)
          else if be16 T off = 14 then be32 T (off + 2) else 0)\<rparr>"
    by (simp add: set_format_def Let_def)
  show "set_format T (header_of (p, e, off)) =
      \<lparr>platform = p, encoding = e, hoffset = off, format = fmt, hlength = length body\<rparr>"
    unfolding h sf f f0 len by (rule refl)
  show "readable T (header_of (p, e, off))"
    unfolding h readable_def Let_def using f f0 b fit by (auto simp: body_ok_def)
  from o l have "off + length body < 2 ^ 32" by simp
  then have m: "(off + length body) mod 2 ^ 32 = off + length body" by simp
  show "length_ok (length T)
      \<lparr>platform = p, encoding = e, hoffset = off, format = fmt, hlength = length body\<rparr>"
    using l fit m by (simp add: length_ok_def)
  show "extent \<lparr>platform = p, encoding = e, hoffset = off, format = fmt, hlength = length body\<rparr>
      = (off, off + length body)"
    using m by (simp add: extent_def)
qed

lemma length_concat_group_bytes: "length (concat (map group_bytes gs)) = 12 * length gs"
  by (induction gs) (simp_all add: group_bytes_def)

lemma length_groups_body:
  assumes "gs \<noteq> []" and "length gs \<le> kMaxCMAPGroups"
  shows "length (groups_body fmt extra gs) = 16 + 12 * length gs"
proof -
  from assms(2) have "length gs mod 2 ^ 32 = length gs" by (simp add: kMaxCMAPGroups_def)
  with assms(1) show ?thesis
    by (simp add: groups_body_def length_concat_group_bytes)
qed

lemma body_ok_100:
  assumes "length gl = kFormat0ArraySize"
  shows "body_ok 0 (u16_bytes 0 @ u16_bytes (6 + kFormat0ArraySize) @ u16_bytes 0 @
           format0_bytes gl)"
proof -
  have "be16 (u16_bytes 0 @ r) 0 = 0" for r :: "byte list"
    using be16_u16_bytes [of 0 r] by simp
  moreover have "be16 (u16_bytes 0 @ u16_bytes (6 + kFormat0ArraySize) @ r) 2 = 262"
    for r :: "byte list"
    using be16_append [of "u16_bytes 0" "u16_bytes (6 + kFormat0ArraySize) @ r" 0]
      be16_u16_bytes [of "6 + kFormat0ArraySize" r]
    by (simp add: kFormat0ArraySize_def)
  ultimately show ?thesis using assms by (simp add: body_ok_def kFormat0ArraySize_def)
qed

lemma body_ok_groups:
  assumes "gs \<noteq> []" and "length gs \<le> kMaxCMAPGroups"
  shows "body_ok 12 (groups_body 12 16 gs)"
proof -
  from assms(2) have b: "length gs * 12 + 16 < 2 ^ 32" by (simp add: kMaxCMAPGroups_def)
  from groups_body_header [OF assms(1) b, of 12 "[]"] length_groups_body [OF assms] assms(2)
  show ?thesis by (simp add: body_ok_def kMaxCMAPGroups_def)
qed

lemma body_ok_4: "slot_ok_4 s \<Longrightarrow> body_ok 4 s"
  using be16_lt [of s 2] by (simp add: body_ok_def slot_ok_4_def)

lemma body_ok_14: "slot_ok_14 s \<Longrightarrow> body_ok 14 s"
  by (simp add: body_ok_def slot_ok_14_def)

lemma placed_header:
  assumes pl: "placed T doff off fmt body" and p: "p < 65536" and e: "e < 65536"
  shows "set_format T (header_of (p, e, off)) =
           \<lparr>platform = p, encoding = e, hoffset = off, format = fmt, hlength = length body\<rparr>"
    and "readable T (header_of (p, e, off))"
    and "length_ok (length T)
           \<lparr>platform = p, encoding = e, hoffset = off, format = fmt, hlength = length body\<rparr>"
    and "extent \<lparr>platform = p, encoding = e, hoffset = off, format = fmt, hlength = length body\<rparr>
           = (off, off + length body)"
    and "offset_ok doff (length T) (header_of (p, e, off))"
    and "header_id (header_of (p, e, off)) = p * 65536 + e"
proof -
  from pl have s: "slice T off (length body) = body" and fit: "off + length body \<le> length T"
    and b: "body_ok fmt body" and o: "\<not> off > 1024 * 1024 * 1024" and d: "doff \<le> off"
    by (simp_all add: placed_def)
  note sh = slot_header [OF s fit b o p e]
  show "set_format T (header_of (p, e, off)) =
      \<lparr>platform = p, encoding = e, hoffset = off, format = fmt, hlength = length body\<rparr>"
    by (rule sh(1))
  show "readable T (header_of (p, e, off))" by (rule sh(2))
  show "length_ok (length T)
      \<lparr>platform = p, encoding = e, hoffset = off, format = fmt, hlength = length body\<rparr>"
    by (rule sh(3))
  show "extent \<lparr>platform = p, encoding = e, hoffset = off, format = fmt, hlength = length body\<rparr>
      = (off, off + length body)"
    by (rule sh(4))
  from b have "2 \<le> length body" by (auto simp: body_ok_def)
  with fit o d p e show "offset_ok doff (length T) (header_of (p, e, off))"
    by (simp add: offset_ok_def header_of_def)
  from p e show "header_id (header_of (p, e, off)) = p * 65536 + e"
    by (simp add: header_id_def header_of_def)
qed

lemma slice_mid:
  assumes "length pre = off"
  shows "slice (pre @ body @ post) off (length body) = body"
    and "off + length body \<le> length (pre @ body @ post)"
  using assms by (auto simp: slice_def)

lemma count_subtables_le: "count_subtables c \<le> 6"
  by (simp add: count_subtables_def)

lemma layout_lengths:
  assumes "layout_ok c"
  shows "length (body_100 c) \<le> 262" and "length (body_304 c) \<le> 65535"
    and "length (body_314 c) \<le> 65535" and "length (body_31012 c) \<le> 786436"
    and "body_31013 c = []"
proof -
  show "length (body_100 c) \<le> 262"
    by (simp add: body_100_def kFormat0ArraySize_def)
  have four: "length s \<le> 65535" if "slot_ok_4 s" for s
    using that be16_lt [of s 2] by (simp add: slot_ok_4_def)
  from assms four show "length (body_304 c) \<le> 65535"
    by (cases "subtable_3_0_4 c") (auto simp: body_304_def slot_data_def layout_ok_def)
  from assms four show "length (body_314 c) \<le> 65535"
    by (cases "subtable_3_1_4 c") (auto simp: body_314_def slot_data_def layout_ok_def)
  from assms have l: "length (subtable_3_10_12 c) \<le> kMaxCMAPGroups" by (simp add: layout_ok_def)
  show "length (body_31012 c) \<le> 786436"
  proof (cases "subtable_3_10_12 c = []")
    case True
    then show ?thesis by (simp add: body_31012_def groups_body_def)
  next
    case False
    from length_groups_body [OF False l] l show ?thesis
      by (simp add: body_31012_def kMaxCMAPGroups_def)
  qed
  from assms show "body_31013 c = []" by (simp add: body_31013_def groups_body_def layout_ok_def)
qed

lemma layout_offsets:
  assumes "layout_ok c"
  shows "offset_100 c = 4 + 8 * count_subtables c"
    and "offset_100 c \<le> offset_304 c" and "offset_304 c \<le> offset_314 c"
    and "offset_314 c \<le> offset_31012 c" and "offset_31012 c \<le> offset_0514 c"
    and "offset_31013 c = offset_0514 c"
    and "offset_0514 c \<le> 917826"
  using layout_lengths [OF assms] count_subtables_le [of c]
  by (simp_all add: offset_100_def offset_304_def offset_314_def offset_31012_def
        offset_31013_def offset_0514_def)

lemma cmap_table_slices:
  shows "slice (cmap_table c) (offset_100 c) (length (body_100 c)) = body_100 c"
    and "offset_100 c + length (body_100 c) \<le> length (cmap_table c)"
    and "slice (cmap_table c) (offset_304 c) (length (body_304 c)) = body_304 c"
    and "offset_304 c + length (body_304 c) \<le> length (cmap_table c)"
    and "slice (cmap_table c) (offset_314 c) (length (body_314 c)) = body_314 c"
    and "offset_314 c + length (body_314 c) \<le> length (cmap_table c)"
    and "slice (cmap_table c) (offset_31012 c) (length (body_31012 c)) = body_31012 c"
    and "offset_31012 c + length (body_31012 c) \<le> length (cmap_table c)"
    and "slice (cmap_table c) (offset_0514 c) (length (body_0514 c)) = body_0514 c"
    and "offset_0514 c + length (body_0514 c) \<le> length (cmap_table c)"
proof -
  define hdr where "hdr = u16_bytes 0 @ u16_bytes (count_subtables c) @ directory c"
  have lh: "length hdr = offset_100 c"
    by (simp add: hdr_def offset_100_def length_directory)
  have t1: "cmap_table c = hdr @ body_100 c @
      (body_304 c @ body_314 c @ body_31012 c @ body_31013 c @ body_0514 c)"
    by (simp add: cmap_table_def bodies_def hdr_def)
  show "slice (cmap_table c) (offset_100 c) (length (body_100 c)) = body_100 c"
    and "offset_100 c + length (body_100 c) \<le> length (cmap_table c)"
    unfolding t1 by (rule slice_mid(1) [OF lh], rule slice_mid(2) [OF lh])
  have t2: "cmap_table c = (hdr @ body_100 c) @ body_304 c @
      (body_314 c @ body_31012 c @ body_31013 c @ body_0514 c)"
    by (simp add: t1)
  have l2: "length (hdr @ body_100 c) = offset_304 c" by (simp add: lh offset_304_def)
  show "slice (cmap_table c) (offset_304 c) (length (body_304 c)) = body_304 c"
    and "offset_304 c + length (body_304 c) \<le> length (cmap_table c)"
    unfolding t2 by (rule slice_mid(1) [OF l2], rule slice_mid(2) [OF l2])
  have t3: "cmap_table c = (hdr @ body_100 c @ body_304 c) @ body_314 c @
      (body_31012 c @ body_31013 c @ body_0514 c)"
    by (simp add: t1)
  have l3: "length (hdr @ body_100 c @ body_304 c) = offset_314 c"
    by (simp add: lh offset_304_def offset_314_def)
  show "slice (cmap_table c) (offset_314 c) (length (body_314 c)) = body_314 c"
    and "offset_314 c + length (body_314 c) \<le> length (cmap_table c)"
    unfolding t3 by (rule slice_mid(1) [OF l3], rule slice_mid(2) [OF l3])
  have t4: "cmap_table c = (hdr @ body_100 c @ body_304 c @ body_314 c) @ body_31012 c @
      (body_31013 c @ body_0514 c)"
    by (simp add: t1)
  have l4: "length (hdr @ body_100 c @ body_304 c @ body_314 c) = offset_31012 c"
    by (simp add: lh offset_304_def offset_314_def offset_31012_def)
  show "slice (cmap_table c) (offset_31012 c) (length (body_31012 c)) = body_31012 c"
    and "offset_31012 c + length (body_31012 c) \<le> length (cmap_table c)"
    unfolding t4 by (rule slice_mid(1) [OF l4], rule slice_mid(2) [OF l4])
  have t5: "cmap_table c = (hdr @ body_100 c @ body_304 c @ body_314 c @ body_31012 c @
      body_31013 c) @ body_0514 c @ []"
    by (simp add: t1)
  have l5: "length (hdr @ body_100 c @ body_304 c @ body_314 c @ body_31012 c @ body_31013 c) =
      offset_0514 c"
    by (simp add: lh offset_304_def offset_314_def offset_31012_def offset_31013_def
          offset_0514_def)
  show "slice (cmap_table c) (offset_0514 c) (length (body_0514 c)) = body_0514 c"
    and "offset_0514 c + length (body_0514 c) \<le> length (cmap_table c)"
    unfolding t5 by (rule slice_mid(1) [OF l5], rule slice_mid(2) [OF l5])
qed

lemma placed_slots:
  assumes l: "layout_ok c"
  shows "subtable_1_0_0 c \<noteq> [] \<Longrightarrow>
           placed (cmap_table c) (4 + 8 * count_subtables c) (offset_100 c) 0 (body_100 c)"
    and "subtable_3_0_4 c \<noteq> None \<Longrightarrow>
           placed (cmap_table c) (4 + 8 * count_subtables c) (offset_304 c) 4 (body_304 c)"
    and "subtable_3_0_4 c = None \<and> subtable_3_1_4 c \<noteq> None \<Longrightarrow>
           placed (cmap_table c) (4 + 8 * count_subtables c) (offset_314 c) 4 (body_314 c)"
    and "subtable_3_10_12 c \<noteq> [] \<Longrightarrow>
           placed (cmap_table c) (4 + 8 * count_subtables c) (offset_31012 c) 12 (body_31012 c)"
    and "subtable_0_5_14 c \<noteq> None \<Longrightarrow>
           placed (cmap_table c) (4 + 8 * count_subtables c) (offset_0514 c) 14 (body_0514 c)"
proof -
  note o = layout_offsets [OF l]
  note sl = cmap_table_slices [of c]
  {
    assume a: "subtable_1_0_0 c \<noteq> []"
    with l have "length (subtable_1_0_0 c) = kFormat0ArraySize" by (simp add: layout_ok_def)
    from body_ok_100 [OF this] a have "body_ok 0 (body_100 c)" by (simp add: body_100_def)
    with sl(1,2) o show "placed (cmap_table c) (4 + 8 * count_subtables c) (offset_100 c) 0
        (body_100 c)"
      by (simp add: placed_def)
  }
  {
    assume a: "subtable_3_0_4 c \<noteq> None"
    with l have "body_ok 4 (body_304 c)"
      by (auto simp: layout_ok_def body_304_def slot_data_def intro: body_ok_4)
    with sl(3,4) o show "placed (cmap_table c) (4 + 8 * count_subtables c) (offset_304 c) 4
        (body_304 c)"
      by (simp add: placed_def)
  }
  {
    assume a: "subtable_3_0_4 c = None \<and> subtable_3_1_4 c \<noteq> None"
    with l have "body_ok 4 (body_314 c)"
      by (auto simp: layout_ok_def body_314_def slot_data_def intro: body_ok_4)
    with sl(5,6) o show "placed (cmap_table c) (4 + 8 * count_subtables c) (offset_314 c) 4
        (body_314 c)"
      by (simp add: placed_def)
  }
  {
    assume a: "subtable_3_10_12 c \<noteq> []"
    from l have "length (subtable_3_10_12 c) \<le> kMaxCMAPGroups" by (simp add: layout_ok_def)
    from body_ok_groups [OF a this] have "body_ok 12 (body_31012 c)" by (simp add: body_31012_def)
    with sl(7,8) o show "placed (cmap_table c) (4 + 8 * count_subtables c) (offset_31012 c) 12
        (body_31012 c)"
      by (simp add: placed_def)
  }
  {
    assume a: "subtable_0_5_14 c \<noteq> None"
    with l have "body_ok 14 (body_0514 c)"
      by (auto simp: layout_ok_def body_0514_def slot_data_def intro: body_ok_14)
    with sl(9,10) o show "placed (cmap_table c) (4 + 8 * count_subtables c) (offset_0514 c) 14
        (body_0514 c)"
      by (simp add: placed_def)
  }
qed

lemma dir_headers_cmap_table:
  "dir_headers (cmap_table c) (count_subtables c) = map header_of (directory_records c)"
proof (rule nth_equalityI)
  show "length (dir_headers (cmap_table c) (count_subtables c)) =
      length (map header_of (directory_records c))"
    by (simp add: length_directory_records)
next
  fix j assume "j < length (dir_headers (cmap_table c) (count_subtables c))"
  then have j: "j < count_subtables c" by simp
  then have j': "j < length (directory_records c)" by (simp add: length_directory_records)
  have t: "cmap_table c = (u16_bytes 0 @ u16_bytes (count_subtables c)) @
      concat (map (\<lambda>(p, e, off). record_bytes p e off) (directory_records c)) @ bodies c"
    by (simp add: cmap_table_def directory_def)
  have "header_at (cmap_table c) (length (u16_bytes 0 @ u16_bytes (count_subtables c)) + 8 * j) =
      header_of (directory_records c ! j)"
    unfolding t by (rule header_at_records [OF j'])
  with j j' show "dir_headers (cmap_table c) (count_subtables c) ! j =
      map header_of (directory_records c) ! j"
    by (simp add: dir_headers_def)
qed

lemma chained_mono: "chained q xs \<Longrightarrow> p \<le> q \<Longrightarrow> chained p xs"
proof (cases xs)
  case Nil
  then show ?thesis by simp
next
  case (Cons x xs')
  assume a: "chained q xs" "p \<le> q"
  obtain a b where x: "x = (a, b)" by (cases x)
  from a show ?thesis by (simp add: Cons x)
qed

lemma chained_seg:
  assumes "chained q xs" and "A \<Longrightarrow> p \<le> a \<and> a < q" and "\<not> A \<Longrightarrow> p \<le> q"
  shows "chained p ((if A then [(a, q)] else []) @ xs)"
proof (cases A)
  case True
  with assms show ?thesis by simp
next
  case False
  with assms chained_mono [of q xs p] show ?thesis by simp
qed

lemma ball_if_single: "(\<forall>h \<in> set (if A then [x] else []). P h) = (A \<longrightarrow> P x)"
  by (cases A) simp_all

lemma map_if_single: "map f (if A then [x] else []) = (if A then [f x] else [])"
  by simp

lemma if_single_cong: "(A \<Longrightarrow> x = y) \<Longrightarrow> (if A then [x] else []) = (if A then [y] else [])"
  by simp

lemma reparse_directory:
  assumes l: "layout_ok c"
  shows "directory_ok (cmap_table c)"
    and "be16 (cmap_table c) 2 = count_subtables c"
    and "map (set_format (cmap_table c)) (dir_headers (cmap_table c) (count_subtables c)) =
           headers c"
    and "length (headers c) = count_subtables c"
proof -
  let ?T = "cmap_table c"
  let ?n = "count_subtables c"
  let ?d = "4 + 8 * ?n"
  note pl = placed_slots [OF l]
  note o = layout_offsets [OF l]
  from l have no13: "subtable_3_10_13 c = []" by (simp add: layout_ok_def)
  from l have n0: "?n \<noteq> 0" by (auto simp: layout_ok_def count_subtables_def)
  have a0514: "subtable_0_5_14 c \<noteq> None \<Longrightarrow> placed ?T ?d (offset_0514 c) 14 (body_0514 c)"
    by (rule pl(5))
  have lt: "(0::nat) < 65536" "(1::nat) < 65536" "(3::nat) < 65536" "(5::nat) < 65536"
    "(10::nat) < 65536" by simp_all
  note h100 = placed_header [OF pl(1) lt(2) lt(1)]
  note h304 = placed_header [OF pl(2) lt(3) lt(1)]
  note h314 = placed_header [OF pl(3) lt(3) lt(2)]
  note h12 = placed_header [OF pl(4) lt(3) lt(5)]
  note h14 = placed_header [OF pl(5) lt(1) lt(4)]
  show n: "be16 ?T 2 = ?n" by (rule be16_cmap_table_2)
  have dh: "dir_headers ?T ?n = map header_of (directory_records c)"
    by (rule dir_headers_cmap_table)
  have recs: "map header_of (directory_records c) =
      (if subtable_0_5_14 c \<noteq> None then [header_of (0, 5, offset_0514 c)] else []) @
      (if subtable_1_0_0 c \<noteq> [] then [header_of (1, 0, offset_100 c)] else []) @
      (if subtable_3_0_4 c \<noteq> None then [header_of (3, 0, offset_304 c)] else []) @
      (if subtable_3_0_4 c = None \<and> subtable_3_1_4 c \<noteq> None
       then [header_of (3, 1, offset_314 c)] else []) @
      (if subtable_3_10_12 c \<noteq> [] then [header_of (3, 10, offset_31012 c)] else [])"
    by (simp add: directory_records_def no13)
  show hs: "map (set_format ?T) (dir_headers ?T ?n) = headers c"
    unfolding dh recs headers_def map_append map_if_single
    by (intro arg_cong2 [where f = "(@)"] if_single_cong)
       (erule h14(1) h100(1) h304(1) h314(1) h12(1))+
  show len: "length (headers c) = ?n"
    by (simp add: headers_def count_subtables_def no13)
  have off: "\<forall>h \<in> set (map header_of (directory_records c)). offset_ok ?d (length ?T) h"
    unfolding recs set_append ball_Un ball_if_single
    using h14(5) h100(5) h304(5) h314(5) h12(5) by simp
  have rd: "\<forall>h \<in> set (map header_of (directory_records c)). readable ?T h"
    unfolding recs set_append ball_Un ball_if_single
    using h14(2) h100(2) h304(2) h314(2) h12(2) by simp
  have lo: "\<forall>h \<in> set (headers c). length_ok (length ?T) h"
    unfolding headers_def set_append ball_Un ball_if_single
    using h14(3) h100(3) h304(3) h314(3) h12(3) by simp
  have srt: "sorted_wrt (<) (map header_id (map header_of (directory_records c)))"
    unfolding recs
    by (auto simp: sorted_wrt_append header_id_def header_of_def)
  define ys where "ys =
      (if subtable_1_0_0 c \<noteq> [] then [(offset_100 c, offset_304 c)] else []) @
      (if subtable_3_0_4 c \<noteq> None then [(offset_304 c, offset_314 c)] else []) @
      (if subtable_3_0_4 c = None \<and> subtable_3_1_4 c \<noteq> None
       then [(offset_314 c, offset_31012 c)] else []) @
      (if subtable_3_10_12 c \<noteq> [] then [(offset_31012 c, offset_0514 c)] else []) @
      (if subtable_0_5_14 c \<noteq> None
       then [(offset_0514 c, offset_0514 c + length (body_0514 c))] else []) @ []"
  have o12: "offset_0514 c = offset_31012 c + length (body_31012 c)"
    using layout_lengths(5) [OF l] by (simp add: offset_0514_def offset_31013_def)
  have e100: "subtable_1_0_0 c \<noteq> [] \<Longrightarrow>
      extent \<lparr>platform = 1, encoding = 0, hoffset = offset_100 c, format = 0,
        hlength = length (body_100 c)\<rparr> = (offset_100 c, offset_304 c)"
    unfolding offset_304_def by (rule h100(4))
  have e304: "subtable_3_0_4 c \<noteq> None \<Longrightarrow>
      extent \<lparr>platform = 3, encoding = 0, hoffset = offset_304 c, format = 4,
        hlength = length (body_304 c)\<rparr> = (offset_304 c, offset_314 c)"
    unfolding offset_314_def by (rule h304(4))
  have e314: "subtable_3_0_4 c = None \<and> subtable_3_1_4 c \<noteq> None \<Longrightarrow>
      extent \<lparr>platform = 3, encoding = 1, hoffset = offset_314 c, format = 4,
        hlength = length (body_314 c)\<rparr> = (offset_314 c, offset_31012 c)"
    unfolding offset_31012_def by (rule h314(4))
  have e12: "subtable_3_10_12 c \<noteq> [] \<Longrightarrow>
      extent \<lparr>platform = 3, encoding = 10, hoffset = offset_31012 c, format = 12,
        hlength = length (body_31012 c)\<rparr> = (offset_31012 c, offset_0514 c)"
    unfolding o12 by (rule h12(4))
  have ext: "map extent (headers c) =
      (if subtable_0_5_14 c \<noteq> None
       then [(offset_0514 c, offset_0514 c + length (body_0514 c))] else []) @
      (if subtable_1_0_0 c \<noteq> [] then [(offset_100 c, offset_304 c)] else []) @
      (if subtable_3_0_4 c \<noteq> None then [(offset_304 c, offset_314 c)] else []) @
      (if subtable_3_0_4 c = None \<and> subtable_3_1_4 c \<noteq> None
       then [(offset_314 c, offset_31012 c)] else []) @
      (if subtable_3_10_12 c \<noteq> [] then [(offset_31012 c, offset_0514 c)] else [])"
    unfolding headers_def map_append map_if_single
    by (intro arg_cong2 [where f = "(@)"] if_single_cong)
       (erule h14(4) e100 e304 e314 e12)+
  have ms: "mset ys = mset (map extent (headers c))"
    unfolding ext ys_def by (simp add: ac_simps)
  have pos: "0 < length body" if "body_ok fmt body" for fmt body
    using that by (auto simp: body_ok_def)
  have ne100: "subtable_1_0_0 c \<noteq> [] \<Longrightarrow> offset_100 c < offset_304 c"
    using pos pl(1) by (auto simp: placed_def offset_304_def)
  have ne304: "subtable_3_0_4 c \<noteq> None \<Longrightarrow> offset_304 c < offset_314 c"
    using pos pl(2) by (auto simp: placed_def offset_314_def)
  have ne314: "subtable_3_0_4 c = None \<and> subtable_3_1_4 c \<noteq> None \<Longrightarrow>
      offset_314 c < offset_31012 c"
    using pos pl(3) by (auto simp: placed_def offset_31012_def)
  have ne12: "subtable_3_10_12 c \<noteq> [] \<Longrightarrow> offset_31012 c < offset_0514 c"
    using pos pl(4) by (auto simp: placed_def offset_31013_def o(6) [symmetric])
  have ne14: "subtable_0_5_14 c \<noteq> None \<Longrightarrow>
      offset_0514 c < offset_0514 c + length (body_0514 c)"
    using pos pl(5) by (auto simp: placed_def)
  have c5: "chained (offset_0514 c)
      ((if subtable_0_5_14 c \<noteq> None
        then [(offset_0514 c, offset_0514 c + length (body_0514 c))] else []) @ [])"
    by (rule chained_seg) (use ne14 in auto)
  have c4: "chained (offset_31012 c)
      ((if subtable_3_10_12 c \<noteq> [] then [(offset_31012 c, offset_0514 c)] else []) @
       (if subtable_0_5_14 c \<noteq> None
        then [(offset_0514 c, offset_0514 c + length (body_0514 c))] else []) @ [])"
    by (rule chained_seg [OF c5]) (use ne12 o(5) in auto)
  have c3: "chained (offset_314 c)
      ((if subtable_3_0_4 c = None \<and> subtable_3_1_4 c \<noteq> None
        then [(offset_314 c, offset_31012 c)] else []) @
       (if subtable_3_10_12 c \<noteq> [] then [(offset_31012 c, offset_0514 c)] else []) @
       (if subtable_0_5_14 c \<noteq> None
        then [(offset_0514 c, offset_0514 c + length (body_0514 c))] else []) @ [])"
    by (rule chained_seg [OF c4]) (use ne314 o(4) in auto)
  have c2: "chained (offset_304 c)
      ((if subtable_3_0_4 c \<noteq> None then [(offset_304 c, offset_314 c)] else []) @
       (if subtable_3_0_4 c = None \<and> subtable_3_1_4 c \<noteq> None
        then [(offset_314 c, offset_31012 c)] else []) @
       (if subtable_3_10_12 c \<noteq> [] then [(offset_31012 c, offset_0514 c)] else []) @
       (if subtable_0_5_14 c \<noteq> None
        then [(offset_0514 c, offset_0514 c + length (body_0514 c))] else []) @ [])"
    by (rule chained_seg [OF c3]) (use ne304 o(3) in auto)
  have ch: "chained (offset_100 c) ys"
    unfolding ys_def by (rule chained_seg [OF c2]) (use ne100 o(2) in auto)
  have ov: "count_overlap 0 (sort (collect_extents 0 ?n (headers c) {} [])) 0"
    using no_overlap_chained [OF ch ms] by (simp add: len)
  have four: "4 \<le> length ?T" by (simp add: cmap_table_def)
  have zero: "be16 ?T 0 = 0"
    using be16_u16_bytes [of 0] by (simp add: cmap_table_def)
  have dl: "?d \<le> length ?T" by (simp add: cmap_table_def length_directory)
  have hs': "map (set_format ?T) (map header_of (directory_records c)) = headers c"
    using hs unfolding dh .
  show "directory_ok ?T"
    unfolding directory_ok_def Let_def n dh hs'
    using four zero n0 dl off srt rd lo ov by simp
qed

subsection \<open>The subtables of a serialised table\<close>

lemma read_u32_at:
  assumes "buffer b = xs @ u32_bytes v @ ys" and "offset b = length xs" and "v < 4294967296"
  shows "ReadU32 b = Some (v, b\<lparr>offset := length xs + 4\<rparr>)"
proof -
  have "be32 (buffer b) (length xs + 0) = be32 (u32_bytes v @ ys) 0"
    unfolding assms(1) by (rule be32_append)
  with be32_u32_bytes [of v ys] assms(3) have "be32 (buffer b) (offset b) = v"
    by (simp add: assms(2))
  then show ?thesis using assms(1,2) by (simp add: ReadU32_def)
qed

lemma read_u16_at:
  assumes "buffer b = xs @ u16_bytes v @ ys" and "offset b = length xs" and "v < 65536"
  shows "ReadU16 b = Some (v, b\<lparr>offset := length xs + 2\<rparr>)"
proof -
  have "be16 (buffer b) (length xs + 0) = be16 (u16_bytes v @ ys) 0"
    unfolding assms(1) by (rule be16_append)
  with be16_u16_bytes [of v ys] assms(3) have "be16 (buffer b) (offset b) = v"
    by (simp add: assms(2))
  then show ?thesis using assms(1,2) by (simp add: ReadU16_def)
qed

lemma read_glyph_ids_bytes:
  assumes "buffer b = pre @ gl" and "offset b = length pre + i"
    and "length gl = kFormat0ArraySize" and "i \<le> kFormat0ArraySize"
  shows "read_glyph_ids i b acc = (True, acc @ drop i gl)"
  using assms
proof (induction "kFormat0ArraySize - i" arbitrary: i b acc)
  case 0
  then have "i = kFormat0ArraySize" by simp
  with "0.prems" show ?case by (subst read_glyph_ids.simps) simp
next
  case (Suc k)
  then have lt: "i < kFormat0ArraySize" and k: "k = kFormat0ArraySize - (i + 1)" by simp_all
  from lt Suc.prems(3) have il: "i < length gl" by simp
  have rd: "ReadU8 b = Some (unat (gl ! i), b\<lparr>offset := length pre + (i + 1)\<rparr>)"
    using Suc.prems(1,2) il by (simp add: ReadU8_def nth_append)
  have d: "drop i gl = gl ! i # drop (i + 1) gl"
    using Cons_nth_drop_Suc [OF il] by simp
  have "read_glyph_ids i b acc =
      read_glyph_ids (i + 1) (b\<lparr>offset := length pre + (i + 1)\<rparr>) (acc @ [gl ! i])"
    using lt rd by (subst read_glyph_ids.simps) simp
  also have "\<dots> = (True, (acc @ [gl ! i]) @ drop (i + 1) gl)"
    by (rule Suc.hyps(1) [OF k]) (use Suc.prems lt in simp_all)
  finally show ?case by (simp add: d)
qed

lemma Parse100_body:
  assumes "length gl = kFormat0ArraySize" and "subtable_1_0_0 (the_cmap fl) = []"
  shows "Parse100 fl (u16_bytes 0 @ u16_bytes (6 + kFormat0ArraySize) @ u16_bytes 0 @ gl) =
     (True, upd_cmap (\<lambda>c. c\<lparr>subtable_1_0_0 := gl\<rparr>) fl)"
proof -
  let ?pre = "u16_bytes 0 @ u16_bytes (6 + kFormat0ArraySize) @ u16_bytes 0"
  let ?body = "?pre @ gl"
  have s: "Skip 4 (new_Buffer ?body) = Some \<lparr>buffer = ?body, offset = 4\<rparr>"
    by (simp add: Skip_def new_Buffer_def)
  have r: "ReadU16 \<lparr>buffer = ?body, offset = 4\<rparr> =
      Some (0, \<lparr>buffer = ?body, offset = 6\<rparr>)"
    using read_u16_at [of "\<lparr>buffer = ?body, offset = 4\<rparr>"
        "u16_bytes 0 @ u16_bytes (6 + kFormat0ArraySize)" 0 gl]
    by simp
  have g: "read_glyph_ids 0 \<lparr>buffer = ?body, offset = 6\<rparr> [] = (True, [] @ drop 0 gl)"
    by (rule read_glyph_ids_bytes [where pre = ?pre]) (use assms in simp_all)
  show ?thesis
    unfolding Parse100_def using s r g assms(2) by simp
qed

lemma group_bytes_at:
  assumes "i < length gs"
  shows "\<exists>A B. concat (map group_bytes gs) = A @ group_bytes (gs ! i) @ B \<and> length A = 12 * i"
proof -
  from id_take_nth_drop [OF assms]
  have "concat (map group_bytes gs) =
      concat (map group_bytes (take i gs @ gs ! i # drop (Suc i) gs))" by simp
  also have "\<dots> = concat (map group_bytes (take i gs)) @ group_bytes (gs ! i) @
      concat (map group_bytes (drop (Suc i) gs))" by simp
  finally have e: "concat (map group_bytes gs) = concat (map group_bytes (take i gs)) @
      group_bytes (gs ! i) @ concat (map group_bytes (drop (Suc i) gs))" .
  have "length (concat (map group_bytes (take i gs))) = 12 * i"
    using assms by (simp add: length_concat_group_bytes)
  with e show ?thesis by blast
qed

lemma group_record:
  "(r :: OpenTypeCMAPSubtableRange)\<lparr>start_range := start_range x, end_range := end_range x,
      start_glyph_id := start_glyph_id x\<rparr> = x"
  by (cases r, cases x) simp

lemma read_groups_31012_bytes:
  assumes "buffer b = pre @ concat (map group_bytes gs)" and "offset b = length pre + 12 * i"
    and "length acc = length gs" and "\<forall>j<length gs. group_ok_31012 g (gs ! j)"
  shows "read_groups_31012 i (length gs) b acc g = (True, take i acc @ drop i gs)"
  using assms(1,2,3)
proof (induction "length gs - i" arbitrary: i b acc)
  case 0
  then have "\<not> i < length gs" by simp
  with "0.prems" show ?case by (subst read_groups_31012.simps) simp
next
  case (Suc k)
  then have lt: "i < length gs" and k: "k = length gs - (i + 1)" by simp_all
  let ?x = "gs ! i"
  from assms(4) lt have ok: "group_ok_31012 g ?x" by simp
  then have bnd: "start_range ?x < 4294967296" "end_range ?x < 4294967296"
      "start_glyph_id ?x < 4294967296"
    by (simp_all add: group_ok_31012_def kUnicodeUpperLimit_def)
  from group_bytes_at [OF lt] obtain A B where
    ab: "concat (map group_bytes gs) = A @ group_bytes ?x @ B" and la: "length A = 12 * i"
    by blast
  define p where "p = length pre + 12 * i"
  have buf: "buffer b = (pre @ A) @ u32_bytes (start_range ?x) @
      (u32_bytes (end_range ?x) @ u32_bytes (start_glyph_id ?x) @ B)"
    by (simp add: Suc.prems(1) ab group_bytes_def)
  have lp: "length (pre @ A) = p" by (simp add: la p_def)
  have r1: "ReadU32 b = Some (start_range ?x, b\<lparr>offset := p + 4\<rparr>)"
    using read_u32_at [OF buf _ bnd(1)] Suc.prems(2) lp by (simp add: p_def)
  have buf2: "buffer (b\<lparr>offset := p + 4\<rparr>) =
      (pre @ A @ u32_bytes (start_range ?x)) @ u32_bytes (end_range ?x) @
      (u32_bytes (start_glyph_id ?x) @ B)"
    by (simp add: buf)
  have r2: "ReadU32 (b\<lparr>offset := p + 4\<rparr>) = Some (end_range ?x, b\<lparr>offset := p + 8\<rparr>)"
    using read_u32_at [OF buf2 _ bnd(2)] lp by simp
  have buf3: "buffer (b\<lparr>offset := p + 8\<rparr>) =
      (pre @ A @ u32_bytes (start_range ?x) @ u32_bytes (end_range ?x)) @
      u32_bytes (start_glyph_id ?x) @ B"
    by (simp add: buf)
  have r3: "ReadU32 (b\<lparr>offset := p + 8\<rparr>) = Some (start_glyph_id ?x, b\<lparr>offset := p + 12\<rparr>)"
    using read_u32_at [OF buf3 _ bnd(3)] lp by simp
  have il: "i < length acc" using lt Suc.prems(3) by simp
  have unfolded0: "read_groups_31012 i (length gs) b acc g =
     (if start_range ?x > kUnicodeUpperLimit \<or> end_range ?x > kUnicodeUpperLimit \<or>
         start_glyph_id ?x > 0xFFFF then (False, acc[i := ?x])
      else if start_range ?x \<ge> 0xD800 \<and> start_range ?x \<le> 0xDFFF then (False, acc[i := ?x])
      else if end_range ?x \<ge> 0xD800 \<and> end_range ?x \<le> 0xDFFF then (False, acc[i := ?x])
      else if start_range ?x < 0xD800 \<and> end_range ?x > 0xDFFF then (False, acc[i := ?x])
      else if end_range ?x < start_range ?x then (False, acc[i := ?x])
      else if (end_range ?x - start_range ?x) + start_glyph_id ?x > g then (False, acc[i := ?x])
      else read_groups_31012 (i + 1) (length gs) (b\<lparr>offset := p + 12\<rparr>) (acc[i := ?x]) g)"
    using lt r1 r2 r3 il
    by (subst read_groups_31012.simps) (simp add: Let_def group_record)
  have unfolded: "read_groups_31012 i (length gs) b acc g =
      read_groups_31012 (i + 1) (length gs) (b\<lparr>offset := p + 12\<rparr>) (acc[i := ?x]) g"
  proof -
    from ok have n1: "\<not> (start_range ?x > kUnicodeUpperLimit \<or> end_range ?x > kUnicodeUpperLimit \<or>
         start_glyph_id ?x > 0xFFFF)"
      and n2: "\<not> (start_range ?x \<ge> 0xD800 \<and> start_range ?x \<le> 0xDFFF)"
      and n3: "\<not> (end_range ?x \<ge> 0xD800 \<and> end_range ?x \<le> 0xDFFF)"
      and n4: "\<not> (start_range ?x < 0xD800 \<and> end_range ?x > 0xDFFF)"
      and n5: "\<not> end_range ?x < start_range ?x"
      and n6: "\<not> (end_range ?x - start_range ?x) + start_glyph_id ?x > g"
      unfolding group_ok_31012_def by blast+
    show ?thesis unfolding unfolded0 by (simp only: n1 n2 n3 n4 n5 n6 if_False)
  qed
  have "read_groups_31012 (i + 1) (length gs) (b\<lparr>offset := p + 12\<rparr>) (acc[i := ?x]) g =
      (True, take (i + 1) (acc[i := ?x]) @ drop (i + 1) gs)"
    by (rule Suc.hyps(1) [OF k]) (use Suc.prems in \<open>simp_all add: p_def\<close>)
  also have "take (i + 1) (acc[i := ?x]) @ drop (i + 1) gs = take i acc @ drop i gs"
    using il lt Cons_nth_drop_Suc [OF lt] by (simp add: take_Suc_conv_app_nth)
  finally show ?case unfolding unfolded .
qed

lemma check_groups_ok:
  assumes "\<forall>j. i \<le> j \<and> j < n \<longrightarrow>
     start_range (gs ! (j - 1)) < start_range (gs ! j) \<and>
     end_range (gs ! (j - 1)) < start_range (gs ! j)"
  shows "check_groups i n gs"
  using assms
proof (induction "n - i" arbitrary: i)
  case 0
  then show ?case by (subst check_groups.simps) simp
next
  case (Suc k)
  then have lt: "i < n" and k: "k = n - (i + 1)" by simp_all
  from Suc.prems lt have here: "start_range (gs ! (i - 1)) < start_range (gs ! i)"
      "end_range (gs ! (i - 1)) < start_range (gs ! i)" by simp_all
  have "check_groups (i + 1) n gs"
    by (rule Suc.hyps(1) [OF k]) (use Suc.prems in simp)
  with lt here show ?case by (subst check_groups.simps) simp
qed

lemma Parse31012_body:
  assumes ne: "gs \<noteq> []" and le: "length gs \<le> kMaxCMAPGroups" and ok: "groups_ok_31012 g gs"
  shows "Parse31012 fl (groups_body 12 16 gs) g =
     (True, upd_cmap (\<lambda>c. c\<lparr>subtable_3_10_12 := gs\<rparr>) fl)"
proof -
  let ?n = "length gs"
  let ?body = "groups_body 12 16 gs"
  from le have m: "?n mod 2 ^ 32 = ?n" by (simp add: kMaxCMAPGroups_def)
  have body: "?body = u16_bytes 12 @ u16_bytes 0 @ u32_bytes (?n * 12 + 16) @ u32_bytes 0 @
      u32_bytes ?n @ concat (map group_bytes gs)"
    using ne m by (simp add: groups_body_def)
  have s: "Skip 8 (new_Buffer ?body) = Some \<lparr>buffer = ?body, offset = 8\<rparr>"
    by (simp add: Skip_def new_Buffer_def body)
  have b1: "buffer \<lparr>buffer = ?body, offset = 8\<rparr> =
      (u16_bytes 12 @ u16_bytes 0 @ u32_bytes (?n * 12 + 16)) @ u32_bytes 0 @
      (u32_bytes ?n @ concat (map group_bytes gs))"
    by (simp add: body)
  have r1: "ReadU32 \<lparr>buffer = ?body, offset = 8\<rparr> = Some (0, \<lparr>buffer = ?body, offset = 12\<rparr>)"
    using read_u32_at [OF b1] by simp
  have b2: "buffer \<lparr>buffer = ?body, offset = 12\<rparr> =
      (u16_bytes 12 @ u16_bytes 0 @ u32_bytes (?n * 12 + 16) @ u32_bytes 0) @ u32_bytes ?n @
      concat (map group_bytes gs)"
    by (simp add: body)
  have nb: "?n < 4294967296" using le by (simp add: kMaxCMAPGroups_def)
  have r2: "ReadU32 \<lparr>buffer = ?body, offset = 12\<rparr> = Some (?n, \<lparr>buffer = ?body, offset = 16\<rparr>)"
    using read_u32_at [OF b2 _ nb] by simp
  have b3: "buffer \<lparr>buffer = ?body, offset = 16\<rparr> =
      (u16_bytes 12 @ u16_bytes 0 @ u32_bytes (?n * 12 + 16) @ u32_bytes 0 @ u32_bytes ?n) @
      concat (map group_bytes gs)"
    by (simp add: body)
  from ok have each: "\<forall>j<?n. group_ok_31012 g (gs ! j)" by (simp add: groups_ok_31012_def)
  have rg: "read_groups_31012 0 ?n \<lparr>buffer = ?body, offset = 16\<rparr>
      (resize ?n (subtable_3_10_12 (the_cmap fl))) g = (True, gs)"
    using read_groups_31012_bytes [OF b3 _ _ each, of 0 "resize ?n (subtable_3_10_12 (the_cmap fl))"]
    by simp
  from ok have cg: "check_groups 1 ?n gs"
    by (intro check_groups_ok) (simp add: groups_ok_31012_def)
  from ne have n0: "?n \<noteq> 0" by simp
  show ?thesis
    unfolding Parse31012_def using s r1 r2 rg cg n0 le by (simp add: failure_if_def)
qed

lemma parse_subtable_headers:
  "parse_subtable \<lparr>platform = 0, encoding = 5, hoffset = p, format = 14, hlength = n\<rparr> d g fl =
     Parse0514 fl (slice d p n) g"
  "parse_subtable \<lparr>platform = 1, encoding = 0, hoffset = p, format = 0, hlength = n\<rparr> d g fl =
     Parse100 fl (slice d p n)"
  "parse_subtable \<lparr>platform = 3, encoding = 0, hoffset = p, format = 4, hlength = n\<rparr> d g fl =
     Parse3x4 fl 0 (slice d p n) g"
  "parse_subtable \<lparr>platform = 3, encoding = 1, hoffset = p, format = 4, hlength = n\<rparr> d g fl =
     Parse3x4 fl 1 (slice d p n) g"
  "parse_subtable \<lparr>platform = 3, encoding = 10, hoffset = p, format = 12, hlength = n\<rparr> d g fl =
     Parse31012 (upd_cmap (\<lambda>c. c\<lparr>subtable_3_10_12 := []\<rparr>) fl) (slice d p n) g"
  by (simp_all add: parse_subtable_def)

lemma parse_list_single:
  "parse_subtable h d g fl = (True, fl') \<Longrightarrow> parse_list [h] d g fl = (True, fl')"
  by simp

lemma reparse_subtables:
  assumes l: "layout_ok c"
    and a304: "\<forall>s. subtable_3_0_4 c = Some s \<longrightarrow> accepts_3x4 0 s g"
    and a314: "\<forall>s. subtable_3_1_4 c = Some s \<longrightarrow> accepts_3x4 1 s g"
    and a14: "\<forall>s. subtable_0_5_14 c = Some s \<longrightarrow> fst (Parse0514 fl0 s g)"
    and a12: "groups_ok_31012 g (subtable_3_10_12 c)"
    and cm: "cmap fl = Some new_OpenTypeCMAP" and os: "os2 fl \<noteq> None"
  shows "\<exists>fl'. parse_list (headers c) (cmap_table c) g fl = (True, fl') \<and>
     cmap fl' = Some (c\<lparr>subtable_3_1_4 :=
       (if subtable_3_0_4 c = None then subtable_3_1_4 c else None)\<rparr>)"
proof -
  let ?T = "cmap_table c"
  note sl = cmap_table_slices [of c]
  define x1 where "x1 = new_OpenTypeCMAP\<lparr>subtable_0_5_14 := subtable_0_5_14 c\<rparr>"
  define x2 where "x2 = x1\<lparr>subtable_1_0_0 := subtable_1_0_0 c\<rparr>"
  define x3 where "x3 = x2\<lparr>subtable_3_0_4 := subtable_3_0_4 c\<rparr>"
  define x4 where "x4 = x3\<lparr>subtable_3_1_4 :=
      (if subtable_3_0_4 c = None then subtable_3_1_4 c else None)\<rparr>"
  define x5 where "x5 = x4\<lparr>subtable_3_10_12 := subtable_3_10_12 c\<rparr>"
  let ?h14 = "\<lparr>platform = 0, encoding = 5, hoffset = offset_0514 c, format = 14,
             hlength = length (body_0514 c)\<rparr>"
  let ?h100 = "\<lparr>platform = 1, encoding = 0, hoffset = offset_100 c, format = 0,
             hlength = length (body_100 c)\<rparr>"
  let ?h304 = "\<lparr>platform = 3, encoding = 0, hoffset = offset_304 c, format = 4,
             hlength = length (body_304 c)\<rparr>"
  let ?h314 = "\<lparr>platform = 3, encoding = 1, hoffset = offset_314 c, format = 4,
             hlength = length (body_314 c)\<rparr>"
  let ?h12 = "\<lparr>platform = 3, encoding = 10, hoffset = offset_31012 c, format = 12,
             hlength = length (body_31012 c)\<rparr>"
  let ?H14 = "if subtable_0_5_14 c \<noteq> None then [?h14] else []"
  let ?H100 = "if subtable_1_0_0 c \<noteq> [] then [?h100] else []"
  let ?H304 = "if subtable_3_0_4 c \<noteq> None then [?h304] else []"
  let ?H314 = "if subtable_3_0_4 c = None \<and> subtable_3_1_4 c \<noteq> None then [?h314] else []"
  let ?H12 = "if subtable_3_10_12 c \<noteq> [] then [?h12] else []"
  have p14: "parse_subtable ?h14 ?T g f = Parse0514 f (body_0514 c) g" for f
    by (simp only: parse_subtable_headers sl)
  have p100: "parse_subtable ?h100 ?T g f = Parse100 f (body_100 c)" for f
    by (simp only: parse_subtable_headers sl)
  have p304: "parse_subtable ?h304 ?T g f = Parse3x4 f 0 (body_304 c) g" for f
    by (simp only: parse_subtable_headers sl)
  have p314: "parse_subtable ?h314 ?T g f = Parse3x4 f 1 (body_314 c) g" for f
    by (simp only: parse_subtable_headers sl)
  have p12: "parse_subtable ?h12 ?T g f =
      Parse31012 (upd_cmap (\<lambda>c. c\<lparr>subtable_3_10_12 := []\<rparr>) f) (body_31012 c) g" for f
    by (simp only: parse_subtable_headers sl)
  obtain f1 where q1: "parse_list ?H14 ?T g fl = (True, f1)" and c1: "cmap f1 = Some x1"
    and o1: "os2 f1 \<noteq> None"
  proof (cases "subtable_0_5_14 c")
    case None
    then have "parse_list ?H14 ?T g fl = (True, fl)" by simp
    moreover have "cmap fl = Some x1" using cm None by (simp add: x1_def new_OpenTypeCMAP_def)
    ultimately show ?thesis using that os by blast
  next
    case (Some s)
    then have b: "body_0514 c = s" by (simp add: body_0514_def slot_data_def)
    from a14 Some have "fst (Parse0514 fl0 s g)" by simp
    then have ok: "fst (Parse0514 fl s g)" using fst_Parse0514 [of fl s g fl0] by simp
    obtain f' where e: "Parse0514 fl s g = (True, f')"
      using ok by (cases "Parse0514 fl s g") auto
    from Parse0514_effect [OF e] have f': "f' = upd_cmap (\<lambda>c. c\<lparr>subtable_0_5_14 := Some s\<rparr>) fl"
      by simp
    have ps: "parse_subtable ?h14 ?T g fl = (True, f')"
      unfolding p14 unfolding b by (rule e)
    have hp: "?H14 = [?h14]" using Some by simp
    have "parse_list ?H14 ?T g fl = (True, f')"
      unfolding hp by (rule parse_list_single [OF ps])
    moreover have "cmap f' = Some x1" using cm Some by (simp add: f' x1_def)
    moreover have "os2 f' \<noteq> None" using os by (simp add: f')
    ultimately show ?thesis using that by blast
  qed
  obtain f2 where q2: "parse_list ?H100 ?T g f1 = (True, f2)" and c2: "cmap f2 = Some x2"
    and o2: "os2 f2 \<noteq> None"
  proof (cases "subtable_1_0_0 c = []")
    case True
    then have "parse_list ?H100 ?T g f1 = (True, f1)" by simp
    moreover have "cmap f1 = Some x2" using c1 True by (simp add: x2_def x1_def new_OpenTypeCMAP_def)
    ultimately show ?thesis using that o1 by blast
  next
    case False
    with l have len: "length (subtable_1_0_0 c) = kFormat0ArraySize" by (simp add: layout_ok_def)
    have b: "body_100 c = u16_bytes 0 @ u16_bytes (6 + kFormat0ArraySize) @ u16_bytes 0 @
        subtable_1_0_0 c"
      using False len by (simp add: body_100_def format0_bytes_full)
    have empty: "subtable_1_0_0 (the_cmap f1) = []"
      using c1 by (simp add: the_cmap_def x1_def new_OpenTypeCMAP_def)
    let ?f' = "upd_cmap (\<lambda>x. x\<lparr>subtable_1_0_0 := subtable_1_0_0 c\<rparr>) f1"
    from Parse100_body [OF len empty] have e: "Parse100 f1 (body_100 c) = (True, ?f')"
      by (simp only: b)
    have ps: "parse_subtable ?h100 ?T g f1 = (True, ?f')"
      unfolding p100 by (rule e)
    have hp: "?H100 = [?h100]" using False by simp
    have "parse_list ?H100 ?T g f1 = (True, ?f')"
      unfolding hp by (rule parse_list_single [OF ps])
    moreover have "cmap ?f' = Some x2" using c1 by (simp add: x2_def)
    moreover have "os2 ?f' \<noteq> None" using o1 by simp
    ultimately show ?thesis using that by blast
  qed
  obtain f3 where q3: "parse_list ?H304 ?T g f2 = (True, f3)" and c3: "cmap f3 = Some x3"
    and o3: "os2 f3 \<noteq> None"
  proof (cases "subtable_3_0_4 c")
    case None
    then have "parse_list ?H304 ?T g f2 = (True, f2)" by simp
    moreover have "cmap f2 = Some x3"
      using c2 None by (simp add: x3_def x2_def x1_def new_OpenTypeCMAP_def)
    ultimately show ?thesis using that o2 by blast
  next
    case (Some s)
    then have b: "body_304 c = s" by (simp add: body_304_def slot_data_def)
    from a304 Some have acc: "accepts_3x4 0 s g" by simp
    from o2 obtain v where "os2 f2 = Some v" by auto
    from Parse3x4_Some [OF this, of 0 s g] acc obtain v' where
      e: "Parse3x4 f2 0 s g =
        (True, upd_cmap (\<lambda>c. c\<lparr>subtable_3_0_4 := Some s\<rparr>) (f2\<lparr>os2 := Some v'\<rparr>))"
      by auto
    let ?f' = "upd_cmap (\<lambda>c. c\<lparr>subtable_3_0_4 := Some s\<rparr>) (f2\<lparr>os2 := Some v'\<rparr>)"
    have ps: "parse_subtable ?h304 ?T g f2 = (True, ?f')"
      unfolding p304 unfolding b by (rule e)
    have hp: "?H304 = [?h304]" using Some by simp
    have "parse_list ?H304 ?T g f2 = (True, ?f')"
      unfolding hp by (rule parse_list_single [OF ps])
    moreover have "cmap ?f' = Some x3" using c2 Some by (simp add: x3_def)
    moreover have "os2 ?f' \<noteq> None" by simp
    ultimately show ?thesis using that by blast
  qed
  obtain f4 where q4: "parse_list ?H314 ?T g f3 = (True, f4)" and c4: "cmap f4 = Some x4"
    and o4: "os2 f4 \<noteq> None"
  proof (cases "subtable_3_0_4 c = None \<and> subtable_3_1_4 c \<noteq> None")
    case False
    have hq: "?H314 = []" by (rule if_not_P [OF False])
    have "parse_list ?H314 ?T g f3 = (True, f3)" unfolding hq by simp
    moreover have "cmap f3 = Some x4"
      using c3 False by (auto simp: x4_def x3_def x2_def x1_def new_OpenTypeCMAP_def)
    ultimately show ?thesis using that o3 by blast
  next
    case True
    then obtain s where s: "subtable_3_1_4 c = Some s" and n: "subtable_3_0_4 c = None" by auto
    then have b: "body_314 c = s" by (simp add: body_314_def slot_data_def)
    from a314 s have acc: "accepts_3x4 1 s g" by simp
    from o3 obtain v where "os2 f3 = Some v" by auto
    from Parse3x4_Some [OF this, of 1 s g] acc obtain v' where
      e: "Parse3x4 f3 1 s g =
        (True, upd_cmap (\<lambda>c. c\<lparr>subtable_3_1_4 := Some s\<rparr>) (f3\<lparr>os2 := Some v'\<rparr>))"
      by auto
    let ?f' = "upd_cmap (\<lambda>c. c\<lparr>subtable_3_1_4 := Some s\<rparr>) (f3\<lparr>os2 := Some v'\<rparr>)"
    have ps: "parse_subtable ?h314 ?T g f3 = (True, ?f')"
      unfolding p314 unfolding b by (rule e)
    have hp: "?H314 = [?h314]" using True by simp
    have "parse_list ?H314 ?T g f3 = (True, ?f')"
      unfolding hp by (rule parse_list_single [OF ps])
    moreover have "cmap ?f' = Some x4" using c3 s n by (simp add: x4_def)
    moreover have "os2 ?f' \<noteq> None" by simp
    ultimately show ?thesis using that by blast
  qed
  obtain f5 where q5: "parse_list ?H12 ?T g f4 = (True, f5)" and c5: "cmap f5 = Some x5"
  proof (cases "subtable_3_10_12 c = []")
    case True
    then have "parse_list ?H12 ?T g f4 = (True, f4)" by simp
    moreover have "cmap f4 = Some x5"
      using c4 True by (simp add: x5_def x4_def x3_def x2_def x1_def new_OpenTypeCMAP_def)
    ultimately show ?thesis using that by blast
  next
    case False
    from l have le: "length (subtable_3_10_12 c) \<le> kMaxCMAPGroups" by (simp add: layout_ok_def)
    let ?base = "upd_cmap (\<lambda>c. c\<lparr>subtable_3_10_12 := []\<rparr>) f4"
    let ?f' = "upd_cmap (\<lambda>x. x\<lparr>subtable_3_10_12 := subtable_3_10_12 c\<rparr>) ?base"
    from Parse31012_body [OF False le a12, of ?base]
    have e: "Parse31012 ?base (body_31012 c) g = (True, ?f')" by (simp only: body_31012_def)
    have ps: "parse_subtable ?h12 ?T g f4 = (True, ?f')"
      unfolding p12 by (rule e)
    have hp: "?H12 = [?h12]" using False by simp
    have "parse_list ?H12 ?T g f4 = (True, ?f')"
      unfolding hp by (rule parse_list_single [OF ps])
    moreover have "cmap ?f' = Some x5" using c4 by (simp add: x5_def)
    ultimately show ?thesis using that by blast
  qed
  have all: "parse_list (headers c) ?T g fl = (True, f5)"
    unfolding headers_def
    by (simp only: parse_list_append [OF q1] parse_list_append [OF q2] parse_list_append [OF q3]
          parse_list_append [OF q4] q5)
  from l have no13: "subtable_3_10_13 c = []" by (simp add: layout_ok_def)
  have "x5 = c\<lparr>subtable_3_1_4 := (if subtable_3_0_4 c = None then subtable_3_1_4 c else None)\<rparr>"
    using no13 by (cases c) (simp add: x5_def x4_def x3_def x2_def x1_def new_OpenTypeCMAP_def)
  with all c5 show ?thesis by blast
qed

subsection \<open>Parsing what the serialiser wrote\<close>

lemma reparse_serialised:
  assumes p: "ots_cmap_parse fl data = (True, fl1)"
    and n13: "subtable_3_10_13 (the_cmap fl1) = []"
    and ser: "ots_cmap_serialise out fl1 = Some out'" and ok: "stream_ok out"
  shows "\<exists>fl2. ots_cmap_parse fl1 (table_bytes out out') = (True, fl2) \<and>
     cmap fl2 = Some ((the_cmap fl1)\<lparr>subtable_3_1_4 :=
       (if subtable_3_0_4 (the_cmap fl1) = None then subtable_3_1_4 (the_cmap fl1) else None)\<rparr>)"
proof -
  from first_parse_facts [OF p] obtain m where m: "maxp fl = Some m"
    and so: "slots_ok fl1"
    and gl: "subtable_1_0_0 (the_cmap fl1) = [] \<or>
      length (subtable_1_0_0 (the_cmap fl1)) = kFormat0ArraySize"
    and oa: "opaque_accepted fl (unat (maxp_num_glyphs m)) fl1"
    and go: "groups_ok_31012 (unat (maxp_num_glyphs m)) (subtable_3_10_12 (the_cmap fl1))"
    by blast
  define g where "g = unat (maxp_num_glyphs m)"
  from so obtain c where c: "cmap fl1 = Some c" by (auto simp: slots_ok_def)
  then have tc: "the_cmap fl1 = c" by (simp add: the_cmap_def)
  from ots_cmap_serialise_layout(3) [OF ser c ok]
  have have4: "subtable_3_0_4 c \<noteq> None \<or> subtable_3_1_4 c \<noteq> None" .
  from ots_cmap_serialise_table_bytes [OF ser c ok]
  have T: "table_bytes out out' = cmap_table c" .
  from so gl n13 have4 have l: "layout_ok c"
    unfolding slots_ok_def layout_ok_def tc by simp
  from oa have mx: "maxp fl1 = maxp fl" and o2: "os2 fl1 = None \<longleftrightarrow> os2 fl = None"
    and a304: "\<forall>s. subtable_3_0_4 c = Some s \<longrightarrow> os2 fl \<noteq> None \<and> accepts_3x4 0 s g"
    and a314: "\<forall>s. subtable_3_1_4 c = Some s \<longrightarrow> os2 fl \<noteq> None \<and> accepts_3x4 1 s g"
    and a14: "\<forall>s. subtable_0_5_14 c = Some s \<longrightarrow> fst (Parse0514 fl s g)"
    unfolding opaque_accepted_def tc g_def by simp_all
  from have4 a304 a314 o2 have os: "os2 fl1 \<noteq> None" by auto
  let ?file = "fl1\<lparr>cmap := Some new_OpenTypeCMAP\<rparr>"
  note rd = reparse_directory [OF l]
  have dir: "parse_directory ?file (cmap_table c) = Some (count_subtables c, headers c, g)"
    unfolding parse_directory_eq using rd mx m by (simp add: g_def)
  have "\<exists>fl'. parse_list (headers c) (cmap_table c) g ?file = (True, fl') \<and>
     cmap fl' = Some (c\<lparr>subtable_3_1_4 :=
       (if subtable_3_0_4 c = None then subtable_3_1_4 c else None)\<rparr>)"
    by (rule reparse_subtables [OF l _ _ a14]) (use a304 a314 go os in \<open>simp_all add: tc g_def\<close>)
  then obtain fl2 where q: "parse_list (headers c) (cmap_table c) g ?file = (True, fl2)"
    and c2: "cmap fl2 = Some (c\<lparr>subtable_3_1_4 :=
       (if subtable_3_0_4 c = None then subtable_3_1_4 c else None)\<rparr>)"
    by blast
  have "parse_subtables 0 (count_subtables c) (headers c) (cmap_table c) g ?file = (True, fl2)"
    using parse_subtables_list [of 0 "headers c" "cmap_table c" g ?file] q rd(4) by simp
  then have "ots_cmap_parse fl1 (table_bytes out out') = (True, fl2)"
    unfolding ots_cmap_parse_def Let_def T dir by simp
  with c2 show ?thesis unfolding tc by blast
qed

lemma parse_cmap_304_and_314:
  "ots_cmap_parse font_3_glyphs_os2 cmap_304_and_314 = (True, font_parsed_304_314)"
  by (simp add: font_3_glyphs_os2_def cmap_304_and_314_def font_parsed_304_314_def
      subtable_4_two_segments_def reader_defs directory_simps
      const_defs Let_def Parse3x4_simps list_numeral_simps)

lemma serialise_font_parsed_304_314:
  "ots_cmap_serialise empty_stream font_parsed_304_314 \<noteq> None"
  by (simp add: serialise_simps empty_stream_def font_parsed_304_314_def font_3_glyphs_os2_def
      new_OpenTypeCMAP_def subtable_4_two_segments_def Let_def)

lemma table_font_parsed_304_314:
  "table_bytes empty_stream (the (ots_cmap_serialise empty_stream font_parsed_304_314)) =
     cmap_304_serialised"
proof -
  from serialise_font_parsed_304_314 obtain out' where
    ser: "ots_cmap_serialise empty_stream font_parsed_304_314 = Some out'" by blast
  have c: "cmap font_parsed_304_314 = Some (new_OpenTypeCMAP\<lparr>
     subtable_3_0_4 := Some subtable_4_two_segments,
     subtable_3_1_4 := Some subtable_4_two_segments\<rparr>)"
    by (simp add: font_parsed_304_314_def)
  have "cmap_table (new_OpenTypeCMAP\<lparr>
     subtable_3_0_4 := Some subtable_4_two_segments,
     subtable_3_1_4 := Some subtable_4_two_segments\<rparr>) = cmap_304_serialised"
    by (simp add: cmap_table_def bodies_def directory_def directory_records_def record_bytes_def
        count_subtables_def offset_304_def offset_100_def body_100_def body_304_def body_314_def
        body_31012_def body_31013_def body_0514_def groups_body_def slot_data_def
        new_OpenTypeCMAP_def subtable_4_two_segments_def cmap_304_serialised_def
        u16_bytes_def u32_bytes_def)
  with ots_cmap_serialise_table_bytes [OF ser c stream_ok_empty_stream] ser show ?thesis by simp
qed

lemma parse_cmap_304_serialised:
  "ots_cmap_parse font_parsed_304_314 cmap_304_serialised =
     (True, font_3_glyphs_os2\<lparr>cmap := Some (new_OpenTypeCMAP\<lparr>
        subtable_3_0_4 := Some subtable_4_two_segments\<rparr>)\<rparr>)"
  by (simp add: font_3_glyphs_os2_def cmap_304_serialised_def font_parsed_304_314_def
      subtable_4_two_segments_def reader_defs directory_simps
      const_defs Let_def Parse3x4_simps list_numeral_simps)

lemma serialise_cmap_31012_glyph_3:
  "ots_cmap_serialise empty_stream (font_3_glyphs\<lparr>cmap := Some (new_OpenTypeCMAP\<lparr>subtable_3_10_12 :=
        [\<lparr>start_range = 0x20, end_range = 0x20, start_glyph_id = 3\<rparr>]\<rparr>)\<rparr>) = None"
  by (simp add: ots_cmap_serialise_def font_3_glyphs_def new_OpenTypeCMAP_def Let_def)

lemma parse_cmap_314_then_31012_5_glyphs:
  "ots_cmap_parse font_5_glyphs_os2 cmap_314_then_31012_glyph_4 = (True, font_parsed_314_31012)"
  by (simp add: font_5_glyphs_os2_def cmap_314_then_31012_glyph_4_def font_parsed_314_31012_def
      subtable_4_two_segments_def reader_defs directory_simps
      const_defs Let_def Parse3x4_simps list_numeral_simps Parse31012_def
      read_groups_31012.simps check_groups.simps)

lemma serialise_font_parsed_314_31012:
  "ots_cmap_serialise empty_stream font_parsed_314_31012 \<noteq> None"
  by (simp add: serialise_simps empty_stream_def font_parsed_314_31012_def font_5_glyphs_os2_def
      new_OpenTypeCMAP_def subtable_4_two_segments_def Let_def)

text \<open>
  Claim C3, as the code has it.  Let the parser accept a table and leave no format-13
  groups, and let the serialiser succeed on the parsed cmap (it refuses a cmap with neither
  a 3,0,4 nor a 3,1,4 slice, and the stream can refuse a write).  Then the parser, run on
  the same font object with the bytes that the serialiser wrote, succeeds, and it yields the
  same 3,0,4 slice, 0,5,14 slice, format-12 groups and format-0 array, and no format-13
  groups; the 3,1,4 slice is the same when there is no 3,0,4 slice, and is absent otherwise.
\<close>

theorem reparse_of_serialised_cmap:
  assumes "ots_cmap_parse fl data = (True, fl1)"
    and "subtable_3_10_13 (the_cmap fl1) = []"
    and "ots_cmap_serialise out fl1 = Some out'" and "stream_ok out"
  shows "\<exists>fl2. ots_cmap_parse fl1 (table_bytes out out') = (True, fl2) \<and>
     subtable_3_0_4 (the_cmap fl2) = subtable_3_0_4 (the_cmap fl1) \<and>
     subtable_3_1_4 (the_cmap fl2) =
       (if subtable_3_0_4 (the_cmap fl1) = None then subtable_3_1_4 (the_cmap fl1) else None) \<and>
     subtable_0_5_14 (the_cmap fl2) = subtable_0_5_14 (the_cmap fl1) \<and>
     subtable_3_10_12 (the_cmap fl2) = subtable_3_10_12 (the_cmap fl1) \<and>
     subtable_3_10_13 (the_cmap fl2) = [] \<and>
     subtable_1_0_0 (the_cmap fl2) = subtable_1_0_0 (the_cmap fl1)"
proof -
  from reparse_serialised [OF assms] obtain fl2 where
    p: "ots_cmap_parse fl1 (table_bytes out out') = (True, fl2)"
    and c: "cmap fl2 = Some ((the_cmap fl1)\<lparr>subtable_3_1_4 :=
       (if subtable_3_0_4 (the_cmap fl1) = None then subtable_3_1_4 (the_cmap fl1) else None)\<rparr>)"
    by blast
  from c have "the_cmap fl2 = (the_cmap fl1)\<lparr>subtable_3_1_4 :=
       (if subtable_3_0_4 (the_cmap fl1) = None then subtable_3_1_4 (the_cmap fl1) else None)\<rparr>"
    by (simp add: the_cmap_def)
  with p assms(2) show ?thesis by simp
qed

text \<open>The theorem on a table with a (3, 1) format-4 subtable and a (3, 10) format-12
  subtable, in a font of five glyphs.\<close>

theorem reparse_of_serialised_cmap_witness:
  "ots_cmap_parse font_5_glyphs_os2 cmap_314_then_31012_glyph_4 = (True, font_parsed_314_31012) \<and>
   subtable_3_10_13 (the_cmap font_parsed_314_31012) = [] \<and>
   ots_cmap_serialise empty_stream font_parsed_314_31012 \<noteq> None \<and>
   stream_ok empty_stream \<and>
   (\<exists>fl2. ots_cmap_parse font_parsed_314_31012
             (table_bytes empty_stream
                (the (ots_cmap_serialise empty_stream font_parsed_314_31012))) = (True, fl2) \<and>
      subtable_3_0_4 (the_cmap fl2) = None \<and>
      subtable_3_1_4 (the_cmap fl2) = Some subtable_4_two_segments \<and>
      subtable_3_10_12 (the_cmap fl2) =
        [\<lparr>start_range = 0x20, end_range = 0x20, start_glyph_id = 4\<rparr>])"
proof -
  from serialise_font_parsed_314_31012 obtain out' where
    ser: "ots_cmap_serialise empty_stream font_parsed_314_31012 = Some out'" by blast
  have n13: "subtable_3_10_13 (the_cmap font_parsed_314_31012) = []"
    by (simp add: font_parsed_314_31012_def the_cmap_def new_OpenTypeCMAP_def)
  have slots: "subtable_3_0_4 (the_cmap font_parsed_314_31012) = None"
    "subtable_3_1_4 (the_cmap font_parsed_314_31012) = Some subtable_4_two_segments"
    "subtable_3_10_12 (the_cmap font_parsed_314_31012) =
       [\<lparr>start_range = 0x20, end_range = 0x20, start_glyph_id = 4\<rparr>]"
    by (simp_all add: font_parsed_314_31012_def the_cmap_def new_OpenTypeCMAP_def)
  from reparse_of_serialised_cmap [OF parse_cmap_314_then_31012_5_glyphs n13 ser
      stream_ok_empty_stream]
    parse_cmap_314_then_31012_5_glyphs n13 ser stream_ok_empty_stream
  show ?thesis by (auto simp: slots)
qed

text \<open>
  Claim C3 as the spec states it fails in two ways that the code intends.  A table with
  only a (3, 10) format-12 subtable is accepted, and the serialiser refuses the parsed cmap
  (line 796: neither a 3,0,4 nor a 3,1,4 slice).  A table whose (3, 0) and (3, 1) records
  share one format-4 subtable is accepted with both slots populated; the serialiser writes
  the 3,0,4 slice only, and the parse of its output leaves the 3,1,4 slot empty.
\<close>

theorem round_trip_counterexample:
  "fst (ots_cmap_parse font_3_glyphs cmap_31012_glyph_3) \<and>
   ots_cmap_serialise empty_stream (snd (ots_cmap_parse font_3_glyphs cmap_31012_glyph_3)) = None \<and>
   ots_cmap_parse font_3_glyphs_os2 cmap_304_and_314 = (True, font_parsed_304_314) \<and>
   subtable_3_1_4 (the_cmap font_parsed_304_314) = Some subtable_4_two_segments \<and>
   ots_cmap_serialise empty_stream font_parsed_304_314 \<noteq> None \<and>
   table_bytes empty_stream (the (ots_cmap_serialise empty_stream font_parsed_304_314)) =
     cmap_304_serialised \<and>
   fst (ots_cmap_parse font_parsed_304_314 cmap_304_serialised) \<and>
   subtable_3_1_4 (the_cmap (snd (ots_cmap_parse font_parsed_304_314 cmap_304_serialised))) = None"
  by (simp add: parse_cmap_31012_glyph_3 serialise_cmap_31012_glyph_3 parse_cmap_304_and_314
        serialise_font_parsed_304_314 table_font_parsed_304_314 parse_cmap_304_serialised)
     (simp add: font_parsed_304_314_def the_cmap_def new_OpenTypeCMAP_def)

end
